(* ===== verification/Cache_Prelude.thy ===== *)
theory Cache_Prelude
  imports
    Main
    "HOL-Library.Word"
    "HOL-Library.AList"
    "HOL-Library.Multiset"
    "HOL-Library.Char_ord"
    "HOL-Library.List_Lexorder"
    "HOL-Library.Product_Lexorder"
begin

text \<open>
  What every component theory shares: the machine integer types of the C++ sources, the
  models of the two standard associative containers (an \<open>unordered_map\<close> is an association
  list whose order carries no meaning, a \<open>std::map\<close> an association list sorted by key),
  the interface both offer to their clients as a locale, and the lemma collections the
  component proofs draw on.

  A C++ \<open>std::string\<close> is a \<^typ>\<open>string\<close>, that is a list of bytes; its comparison
  (\<open>char_traits<char>\<close> compares as \<open>unsigned char\<close>) is the lexicographic order of
  \<open>List_Lexorder\<close> over \<open>Char_ord\<close>.
\<close>

section \<open>Machine integers and containers\<close>

type_synonym u32 = "32 word"
type_synonym u64 = "64 word"
type_synonym size_t = "64 word"

text \<open>
  The exceptions the sources throw, with their messages. An operation that may throw returns
  the exception or the result together with the state it leaves behind.
\<close>

datatype cpp_exception = out_of_range string | invalid_argument string

text \<open>An \<open>unordered_map\<close> and a \<open>std::map\<close>; the invariants below tell them apart.\<close>

type_synonym ('k, 'v) unordered_map = "('k \<times> 'v) list"
type_synonym ('k, 'v) ordered_map = "('k \<times> 'v) list"

text \<open>Rewrite rules for the bookkeeping of the container models.\<close>
named_theorems map_laws

text \<open>Facts that carry an invariant through one operation.\<close>
named_theorems inv_pres

subsection \<open>Key-value interface\<close>

text \<open>
  What a client of either container may rely on: lookup after update and erase, and that
  both operations keep the representation invariant.
\<close>

locale kv_map =
  fixes kv_empty :: "'m"
    and kv_find :: "'m \<Rightarrow> 'k \<Rightarrow> 'v option"
    and kv_put :: "'k \<Rightarrow> 'v \<Rightarrow> 'm \<Rightarrow> 'm"
    and kv_erase :: "'k \<Rightarrow> 'm \<Rightarrow> 'm"
    and kv_inv :: "'m \<Rightarrow> bool"
  assumes find_empty: "kv_find kv_empty k = None"
    and find_put: "kv_inv m \<Longrightarrow> kv_find (kv_put k v m) = (kv_find m)(k \<mapsto> v)"
    and find_erase: "kv_inv m \<Longrightarrow> kv_find (kv_erase k m) = (kv_find m)(k := None)"
    and inv_empty: "kv_inv kv_empty"
    and inv_put: "kv_inv m \<Longrightarrow> kv_inv (kv_put k v m)"
    and inv_erase: "kv_inv m \<Longrightarrow> kv_inv (kv_erase k m)"
begin

lemma find_put_same: "kv_inv m \<Longrightarrow> kv_find (kv_put k v m) k = Some v"
  by (simp add: find_put)

lemma find_put_other: "kv_inv m \<Longrightarrow> k' \<noteq> k \<Longrightarrow> kv_find (kv_put k v m) k' = kv_find m k'"
  by (simp add: find_put)

lemma erase_put: "kv_inv m \<Longrightarrow> kv_find (kv_erase k (kv_put k v m)) = (kv_find m)(k := None)"
  by (simp add: find_put find_erase inv_put)

lemma inv_put_fold: "kv_inv m \<Longrightarrow> kv_inv (fold (\<lambda>(k, v). kv_put k v) kvs m)"
  by (induction kvs arbitrary: m) (auto intro: inv_put)

lemma inv_erase_fold: "kv_inv m \<Longrightarrow> kv_inv (fold kv_erase ks m)"
  by (induction ks arbitrary: m) (auto intro: inv_erase)

lemma find_erase_fold:
  "kv_inv m \<Longrightarrow> kv_find (fold kv_erase ks m) k = (if k \<in> set ks then None else kv_find m k)"
  by (induction ks arbitrary: m) (auto simp: find_erase inv_erase)

end

subsection \<open>The unordered map\<close>

text \<open>
  \<open>find\<close> is \<^const>\<open>map_of\<close>, \<open>operator[]=\<close> and \<open>emplace\<close> of an absent key are
  \<^const>\<open>AList.update\<close>, \<open>erase\<close> is \<^const>\<open>AList.delete\<close>. The standard leaves the
  iteration order open; results of the program that depend on an iteration are shown not
  to depend on the order of the list.
\<close>

definition umap_inv :: "('k, 'v) unordered_map \<Rightarrow> bool" where
  "umap_inv m \<longleftrightarrow> distinct (map fst m)"

interpretation umap: kv_map "[]" map_of AList.update AList.delete umap_inv
  by unfold_locales
     (auto simp: umap_inv_def update_conv' delete_conv' distinct_update distinct_delete)

lemma length_update [map_laws]:
  "length (AList.update k v m) = (if k \<in> fst ` set m then length m else Suc (length m))"
  by (induction m) auto

lemma set_update_distinct [map_laws]:
  "distinct (map fst m) \<Longrightarrow>
   set (AList.update k v m) = insert (k, v) {x \<in> set m. fst x \<noteq> k}"
  by (induction m) (auto simp: rev_image_eqI)

lemma set_delete [map_laws]: "set (AList.delete k m) = {x \<in> set m. fst x \<noteq> k}"
  by (induction m) auto

text \<open>Counting the entries that satisfy a predicate through an update or an erase.\<close>

lemma count_update_new:
  "map_of m k = None \<Longrightarrow>
   length (filter P (AList.update k v m)) = length (filter P m) + of_bool (P (k, v))"
  by (induction m) (auto split: if_splits)

lemma count_update_old:
  "map_of m k = Some u \<Longrightarrow>
   length (filter P (AList.update k v m)) + of_bool (P (k, u)) =
   length (filter P m) + of_bool (P (k, v))"
  by (induction m) (auto split: if_splits)

lemma count_delete:
  "distinct (map fst m) \<Longrightarrow> map_of m k = Some u \<Longrightarrow>
   length (filter P (AList.delete k m)) + of_bool (P (k, u)) = length (filter P m)"
proof (induction m)
  case Nil
  then show ?case by simp
next
  case (Cons x m)
  obtain k' v' where x: "x = (k', v')" by (cases x)
  from Cons show ?case
    by (cases "k' = k") (auto simp: x image_iff)
qed

text \<open>The same count over a vector of maps when one of them is replaced.\<close>

lemma count_concat_update:
  "i < length ms \<Longrightarrow>
   length (filter P (concat (ms[i := m]))) + length (filter P (ms ! i)) =
   length (filter P (concat ms)) + length (filter P m)"
proof (induction ms arbitrary: i)
  case Nil
  then show ?case by simp
next
  case (Cons x ms)
  then show ?case by (cases i) auto
qed

lemma map_of_Some_iff [map_laws]:
  "distinct (map fst m) \<Longrightarrow> map_of m k = Some v \<longleftrightarrow> (k, v) \<in> set m"
  by (rule map_of_eq_Some_iff)

text \<open>
  \<open>m[k]\<close> on a map: a missing key is inserted with the value-initialised default first. The
  result is the value read and the map after the access.
\<close>

definition subscript :: "'v \<Rightarrow> 'k \<Rightarrow> ('k, 'v) unordered_map \<Rightarrow> 'v \<times> ('k, 'v) unordered_map" where
  "subscript dflt k m =
     (case map_of m k of Some v \<Rightarrow> (v, m) | None \<Rightarrow> (dflt, AList.update k dflt m))"

lemma map_of_subscript [map_laws]:
  "map_of (snd (subscript d k m)) = (map_of m)(k \<mapsto> fst (subscript d k m))"
  by (auto simp: subscript_def update_conv' split: option.splits)

lemma umap_inv_subscript [inv_pres]: "umap_inv m \<Longrightarrow> umap_inv (snd (subscript d k m))"
  by (auto simp: subscript_def umap.inv_put split: option.splits)

text \<open>Weights of the elements of a list, when one element is replaced.\<close>

lemma sum_list_replaced_nat:
  "n < length xs \<Longrightarrow> (\<Sum>x\<leftarrow>xs[n := y]. f x) + f (xs ! n) = (\<Sum>x\<leftarrow>xs. f x) + f y" for f :: "'a \<Rightarrow> nat"
  by (induction xs arbitrary: n) (auto simp: nth_Cons split: nat.splits)

end
