(* ===== verification/Eviction_Policy.thy ===== *)
theory Eviction_Policy
  imports Cache_Prelude
begin

text \<open>
  The victim selection of the store, \<open>src/core/eviction/eviction_policy.hpp\<close> and
  \<open>src/core/eviction/slru_lfu_policy.cpp\<close>: a linear scan for the candidate with the
  least score. The contract a client relies on is the locale \<open>victim_policy\<close>.
\<close>

section \<open>SLRU/LFU victim selection\<close>

record EvictionCandidate =
  ec_key :: string
  ec_lfu_count :: u32
  ec_last_touch_ns :: u64
  ec_in_protected_segment :: bool

text \<open>\<open>std::tuple\<close> compares lexicographically, as \<open>Product_Lexorder\<close> does.\<close>

definition Score :: "EvictionCandidate \<Rightarrow> int \<times> u32 \<times> u64 \<times> string" where
  "Score candidate =
     (if ec_in_protected_segment candidate then 1 else 0, ec_lfu_count candidate,
      ec_last_touch_ns candidate, ec_key candidate)"

text \<open>The range-for loop; the first argument is what the pointer \<open>victim\<close> points at.\<close>

fun select_victim_loop ::
  "EvictionCandidate \<Rightarrow> EvictionCandidate list \<Rightarrow> EvictionCandidate" where
  "select_victim_loop victim [] = victim"
| "select_victim_loop victim (candidate # candidates) =
     (if Score candidate < Score victim then select_victim_loop candidate candidates
      else select_victim_loop victim candidates)"

definition SelectVictim :: "EvictionCandidate list \<Rightarrow> string" where
  "SelectVictim candidates =
     (case candidates of [] \<Rightarrow> []
      | front # _ \<Rightarrow> ec_key (select_victim_loop front candidates))"

subsection \<open>The scan returns a least element\<close>

lemma select_victim_loop_in:
  "select_victim_loop v cs \<in> insert v (set cs)"
proof (induction cs arbitrary: v)
  case Nil
  then show ?case by simp
next
  case (Cons x cs)
  from Cons.IH [of x] Cons.IH [of v] show ?case
    by (simp only: select_victim_loop.simps list.set insert_iff split: if_split) blast
qed

lemma select_victim_loop_le:
  "c \<in> insert v (set cs) \<Longrightarrow> Score (select_victim_loop v cs) \<le> Score c"
proof (induction cs arbitrary: c v)
  case Nil
  then show ?case by simp
next
  case (Cons x cs)
  let ?w = "if Score x < Score v then x else v"
  have least: "Score (select_victim_loop ?w cs) \<le> Score ?w" by (rule Cons.IH) simp
  have w: "Score ?w \<le> Score x" "Score ?w \<le> Score v" by auto
  from Cons.prems consider "c = v" | "c = x" | "c \<in> set cs" by auto
  then show ?case
  proof cases
    case 1
    with order_trans [OF least w(2)] show ?thesis by (auto split: if_splits)
  next
    case 2
    with order_trans [OF least w(1)] show ?thesis by (auto split: if_splits)
  next
    case 3
    then have "Score (select_victim_loop ?w cs) \<le> Score c" by (intro Cons.IH) simp
    then show ?thesis by (auto split: if_splits)
  qed
qed

lemma Score_key: "Score a = Score b \<Longrightarrow> ec_key a = ec_key b"
  by (simp add: Score_def split: if_splits)

text \<open>The victim is the candidate that attains the least score.\<close>

lemma SelectVictim_least:
  assumes "cs \<noteq> []"
  shows "\<exists>c \<in> set cs. SelectVictim cs = ec_key c \<and> (\<forall>d \<in> set cs. Score c \<le> Score d)"
proof -
  from assms obtain front rest where cs: "cs = front # rest" by (cases cs) auto
  let ?c = "select_victim_loop front cs"
  have "?c \<in> set cs" using select_victim_loop_in [of front cs] by (simp add: cs)
  moreover have "SelectVictim cs = ec_key ?c" by (simp add: SelectVictim_def cs)
  moreover have "\<forall>d \<in> set cs. Score ?c \<le> Score d"
    by (intro ballI select_victim_loop_le) simp
  ultimately show ?thesis by blast
qed

lemma SelectVictim_eqI:
  assumes "c \<in> set cs" and "\<And>d. d \<in> set cs \<Longrightarrow> Score c \<le> Score d"
  shows "SelectVictim cs = ec_key c"
proof -
  from assms(1) have "cs \<noteq> []" by auto
  then obtain v where v: "v \<in> set cs" "SelectVictim cs = ec_key v"
    "\<forall>d \<in> set cs. Score v \<le> Score d" using SelectVictim_least by blast
  from bspec [OF v(3) assms(1)] assms(2) [OF v(1)] have "Score v = Score c" by (rule antisym)
  then have "ec_key v = ec_key c" by (rule Score_key)
  with v(2) show ?thesis by (rule trans)
qed

lemma SelectVictim_Nil [simp]: "SelectVictim [] = []"
  by (simp add: SelectVictim_def)

subsection \<open>The contract of a victim policy\<close>

text \<open>
  A policy picks the key of a candidate of least rank, where equal ranks have equal keys,
  and the null key when there is no candidate. Everything the store needs follows: the
  choice depends on the set of candidates only, so on no iteration order, and enlarging the
  set by worse candidates does not change it.
\<close>

locale victim_policy =
  fixes rank :: "'c \<Rightarrow> 'r::linorder"
    and key_of :: "'c \<Rightarrow> 'k"
    and null_key :: "'k"
    and pick :: "'c list \<Rightarrow> 'k"
  assumes rank_key: "rank a = rank b \<Longrightarrow> key_of a = key_of b"
    and pick_empty: "pick [] = null_key"
    and pick_least:
      "c \<in> set cs \<Longrightarrow> (\<And>d. d \<in> set cs \<Longrightarrow> rank c \<le> rank d) \<Longrightarrow> pick cs = key_of c"
begin

lemma ex_least: "cs \<noteq> [] \<Longrightarrow> \<exists>c \<in> set cs. \<forall>d \<in> set cs. rank c \<le> rank d"
proof (induction cs)
  case Nil
  then show ?case by simp
next
  case (Cons x cs)
  show ?case
  proof (cases "cs = []")
    case True
    then show ?thesis by simp
  next
    case False
    with Cons.IH obtain c where c: "c \<in> set cs" "\<forall>d \<in> set cs. rank c \<le> rank d" by auto
    show ?thesis
    proof (cases "rank x \<le> rank c")
      case True
      with c(2) have "\<forall>d \<in> set (x # cs). rank x \<le> rank d" using order_trans by auto
      then show ?thesis by auto
    next
      case False
      with c have "\<forall>d \<in> set (x # cs). rank c \<le> rank d" by auto
      with c(1) show ?thesis by auto
    qed
  qed
qed

lemma pick_in:
  assumes "cs \<noteq> []"
  shows "\<exists>c \<in> set cs. pick cs = key_of c \<and> (\<forall>d \<in> set cs. rank c \<le> rank d)"
  using ex_least [OF assms] pick_least by blast

lemma pick_key_mem: "cs \<noteq> [] \<Longrightarrow> pick cs \<in> key_of ` set cs"
  using pick_in by blast

lemma pick_set_cong:
  assumes "set cs = set ds"
  shows "pick cs = pick ds"
proof (cases "cs = []")
  case True
  with assms show ?thesis by simp
next
  case False
  then obtain c where c: "c \<in> set cs" "pick cs = key_of c" "\<forall>d \<in> set cs. rank c \<le> rank d"
    using pick_in by blast
  with assms have "pick ds = key_of c" by (intro pick_least) auto
  with c(2) show ?thesis by simp
qed

lemma pick_append_worse:
  assumes "cs \<noteq> []" and "\<And>c d. c \<in> set cs \<Longrightarrow> d \<in> set ds \<Longrightarrow> rank c \<le> rank d"
  shows "pick (cs @ ds) = pick cs"
proof -
  from assms(1) obtain c where c: "c \<in> set cs" "pick cs = key_of c" "\<forall>d \<in> set cs. rank c \<le> rank d"
    using pick_in by blast
  with assms(2) have "pick (cs @ ds) = key_of c" by (intro pick_least) auto
  with c(2) show ?thesis by simp
qed

lemma pick_null_iff:
  assumes "null_key \<notin> key_of ` set cs"
  shows "pick cs = null_key \<longleftrightarrow> cs = []"
  using assms pick_key_mem [of cs] pick_empty by metis

end

interpretation slru: victim_policy Score ec_key "[]" SelectVictim
  by unfold_locales (auto intro: Score_key SelectVictim_eqI)

text \<open>
  The victim does not depend on the order in which the candidates were collected, so not
  on the iteration order of the \<open>unordered_map\<close> of a stripe nor on how keys are spread over
  the stripes: equal multisets of candidates give the same victim.
\<close>

theorem victim_ignores_iteration_order:
  assumes "mset candidates = mset candidates'"
  shows "SelectVictim candidates = SelectVictim candidates'"
  using assms by (intro slru.pick_set_cong) (rule mset_eq_setD)

theorem victim_ignores_iteration_order_witness:
  "SelectVictim [\<lparr>ec_key = ''b'', ec_lfu_count = 1, ec_last_touch_ns = 100, ec_in_protected_segment = False\<rparr>,
     \<lparr>ec_key = ''a'', ec_lfu_count = 1, ec_last_touch_ns = 100, ec_in_protected_segment = False\<rparr>] =
   SelectVictim [\<lparr>ec_key = ''a'', ec_lfu_count = 1, ec_last_touch_ns = 100, ec_in_protected_segment = False\<rparr>,
     \<lparr>ec_key = ''b'', ec_lfu_count = 1, ec_last_touch_ns = 100, ec_in_protected_segment = False\<rparr>]"
  by (rule victim_ignores_iteration_order) simp

end
