(* ===== verification/Concurrent_Store.thy ===== *)
theory Concurrent_Store
  imports Eviction_Policy
begin

text \<open>
  The storage engine, \<open>src/core/value_entry.hpp\<close> and
  \<open>src/core/concurrent_store.{hpp,cpp}\<close>. Each block of the source that runs under one
  stripe lock is one definition here (\<open>set_locked\<close>, \<open>get_locked\<close>, \<open>sweep_stripe\<close>,
  \<open>demote_victim\<close>, \<open>evict_victim\<close>); the operations compose these blocks the way the
  source does when no other thread runs.

  Three things the sources take from outside are arguments: \<open>std::hash\<close> (any function), and
  the readings of the steady clock, one argument per call of \<open>now()\<close>. A time point is an
  \<^typ>\<open>int\<close>, the count of nanoseconds since the clock's epoch; overflow of that signed
  count is undefined behaviour in the source, so the model keeps it unbounded. The counters
  and the frequency count have the width the source gives them.
\<close>

section \<open>The striped store\<close>

type_synonym time_point = int
type_synonym milliseconds = int
type_synonym hasher = "string \<Rightarrow> size_t"

record ValueEntry =
  ve_value :: string
  ve_expires_at :: "time_point option"
  ve_lfu_count :: u32
  ve_last_touch_ns :: u64
  ve_in_protected_segment :: bool

definition IsExpired :: "ValueEntry \<Rightarrow> time_point \<Rightarrow> bool" where
  "IsExpired entry now = (case ve_expires_at entry of None \<Rightarrow> False | Some t \<Rightarrow> now \<ge> t)"

type_synonym stripe = "(string, ValueEntry) unordered_map"

record ConcurrentStore =
  st_stripes :: "stripe list"
  st_max_entries :: size_t
  st_protected_entries_limit :: size_t
  st_total_entries :: size_t
  st_protected_entries :: size_t

definition ToNs :: "time_point \<Rightarrow> u64" where
  "ToNs tp = word_of_int tp"

definition new_store :: "size_t \<Rightarrow> size_t \<Rightarrow> ConcurrentStore" where
  "new_store stripes max_entries =
     \<lparr>st_stripes = replicate (if stripes = 0 then 1 else unat stripes) [],
      st_max_entries = max_entries,
      st_protected_entries_limit = (if max_entries > 0 then max 1 (max_entries div 2) else 0),
      st_total_entries = 0, st_protected_entries = 0\<rparr>"

definition StripeIndexForKey :: "hasher \<Rightarrow> ConcurrentStore \<Rightarrow> string \<Rightarrow> nat" where
  "StripeIndexForKey hash s key = unat (hash key) mod length (st_stripes s)"

definition StripeFor :: "hasher \<Rightarrow> ConcurrentStore \<Rightarrow> string \<Rightarrow> stripe" where
  "StripeFor hash s key = st_stripes s ! StripeIndexForKey hash s key"

text \<open>
  \<open>TouchEntry\<close> updates the entry in place and may bump the atomic counter
  \<open>protected_entries_\<close>, so it maps the entry and the counter to the new ones.
\<close>

definition TouchEntry :: "ValueEntry \<Rightarrow> time_point \<Rightarrow> size_t \<Rightarrow> ValueEntry \<times> size_t" where
  "TouchEntry entry0 now protected_entries =
     (let entry1 = (if ve_lfu_count entry0 < 4294967295
                    then entry0\<lparr>ve_lfu_count := ve_lfu_count entry0 + 1\<rparr> else entry0);
          entry2 = entry1\<lparr>ve_last_touch_ns := ToNs now\<rparr>
      in if \<not> ve_in_protected_segment entry2 \<and> ve_lfu_count entry2 \<ge> 2
         then (entry2\<lparr>ve_in_protected_segment := True\<rparr>, protected_entries + 1)
         else (entry2, protected_entries))"

definition put_stripe :: "hasher \<Rightarrow> string \<Rightarrow> stripe \<Rightarrow> ConcurrentStore \<Rightarrow> ConcurrentStore" where
  "put_stripe hash key m s =
     s\<lparr>st_stripes := (st_stripes s)[StripeIndexForKey hash s key := m]\<rparr>"

subsection \<open>Eviction\<close>

definition stripe_candidates :: "bool \<Rightarrow> stripe \<Rightarrow> EvictionCandidate list" where
  "stripe_candidates in_protected_segment m =
     map (\<lambda>(key, entry). \<lparr>ec_key = key, ec_lfu_count = ve_lfu_count entry,
            ec_last_touch_ns = ve_last_touch_ns entry,
            ec_in_protected_segment = ve_in_protected_segment entry\<rparr>)
         (filter (\<lambda>(key, entry). ve_in_protected_segment entry = in_protected_segment) m)"

definition SelectVictimKey :: "bool \<Rightarrow> ConcurrentStore \<Rightarrow> string" where
  "SelectVictimKey in_protected_segment s =
     SelectVictim (concat (map (stripe_candidates in_protected_segment) (st_stripes s)))"

text \<open>The sweep of one stripe: the iterator loop, with both counters threaded through.\<close>

fun expire_loop :: "time_point \<Rightarrow> stripe \<Rightarrow> size_t \<Rightarrow> size_t \<Rightarrow> stripe \<times> size_t \<times> size_t" where
  "expire_loop now [] total_entries protected_entries = ([], total_entries, protected_entries)"
| "expire_loop now ((key, entry) # it) total_entries protected_entries =
     (if IsExpired entry now
      then expire_loop now it (total_entries - 1)
             (if ve_in_protected_segment entry then protected_entries - 1 else protected_entries)
      else (case expire_loop now it total_entries protected_entries of
              (rest, total', protected') \<Rightarrow> ((key, entry) # rest, total', protected')))"

definition sweep_stripe :: "time_point \<Rightarrow> nat \<Rightarrow> ConcurrentStore \<Rightarrow> ConcurrentStore" where
  "sweep_stripe now i s =
     (case expire_loop now (st_stripes s ! i) (st_total_entries s) (st_protected_entries s) of
        (m, total_entries, protected_entries) \<Rightarrow>
          s\<lparr>st_stripes := (st_stripes s)[i := m], st_total_entries := total_entries,
            st_protected_entries := protected_entries\<rparr>)"

definition SweepExpired :: "time_point \<Rightarrow> ConcurrentStore \<Rightarrow> ConcurrentStore" where
  "SweepExpired now s = fold (sweep_stripe now) [0..<length (st_stripes s)] s"

text \<open>The body of the demotion loop once a victim key is chosen.\<close>

definition demote_victim :: "hasher \<Rightarrow> string \<Rightarrow> ConcurrentStore \<Rightarrow> ConcurrentStore" where
  "demote_victim hash victim_key s =
     (case map_of (StripeFor hash s victim_key) victim_key of
        None \<Rightarrow> s
      | Some entry \<Rightarrow>
          if \<not> ve_in_protected_segment entry then s
          else (put_stripe hash victim_key
                  (AList.update victim_key
                     (entry\<lparr>ve_in_protected_segment := False, ve_lfu_count := 1\<rparr>)
                     (StripeFor hash s victim_key)) s)
               \<lparr>st_protected_entries := st_protected_entries s - 1\<rparr>)"

text \<open>The body of the eviction loop once a victim key is chosen.\<close>

definition evict_victim :: "hasher \<Rightarrow> string \<Rightarrow> ConcurrentStore \<Rightarrow> ConcurrentStore" where
  "evict_victim hash victim_key s =
     (case map_of (StripeFor hash s victim_key) victim_key of
        None \<Rightarrow> s
      | Some entry \<Rightarrow>
          (put_stripe hash victim_key
             (AList.delete victim_key (StripeFor hash s victim_key)) s)
          \<lparr>st_protected_entries :=
             (if ve_in_protected_segment entry then st_protected_entries s - 1
              else st_protected_entries s),
           st_total_entries := st_total_entries s - 1\<rparr>)"

text \<open>
  The two loops of \<open>EnforceCapacity\<close>. The local variables \<open>total_entries\<close> and
  \<open>protected_entries\<close> are arguments; both are reloaded at the end of every iteration.
  A loop that does not end has the value \<^const>\<open>None\<close>.
\<close>

partial_function (option) demote_loop ::
  "hasher \<Rightarrow> size_t \<Rightarrow> size_t \<Rightarrow> ConcurrentStore \<Rightarrow> (size_t \<times> ConcurrentStore) option" where
  "demote_loop hash total_entries protected_entries s =
     (if total_entries > st_max_entries s \<and> protected_entries > st_protected_entries_limit s
      then let victim_key = SelectVictimKey True s
           in if victim_key = [] then Some (total_entries, s)
              else let s' = demote_victim hash victim_key s
                   in demote_loop hash (st_total_entries s') (st_protected_entries s') s'
      else Some (total_entries, s))"

definition eviction_choice :: "ConcurrentStore \<Rightarrow> string" where
  "eviction_choice s =
     (if SelectVictimKey False s = [] then SelectVictimKey True s else SelectVictimKey False s)"

partial_function (option) evict_loop ::
  "hasher \<Rightarrow> size_t \<Rightarrow> ConcurrentStore \<Rightarrow> ConcurrentStore option" where
  "evict_loop hash total_entries s =
     (if total_entries > st_max_entries s
      then let victim_key = eviction_choice s
           in if victim_key = [] then Some s
              else let s' = evict_victim hash victim_key s
                   in evict_loop hash (st_total_entries s') s'
      else Some s)"

declare demote_loop.simps [code] evict_loop.simps [code]

definition EnforceCapacity ::
  "hasher \<Rightarrow> time_point \<Rightarrow> ConcurrentStore \<Rightarrow> ConcurrentStore option" where
  "EnforceCapacity hash now s =
     (if st_max_entries s = 0 then Some s
      else if st_total_entries s \<le> st_max_entries s then Some s
      else let s1 = SweepExpired now s
           in if st_total_entries s1 \<le> st_max_entries s1 then Some s1
              else (case demote_loop hash (st_total_entries s1) (st_protected_entries s1) s1 of
                      None \<Rightarrow> None
                    | Some (total_entries, s2) \<Rightarrow> evict_loop hash total_entries s2))"

subsection \<open>Set and Get\<close>

definition set_locked ::
  "hasher \<Rightarrow> string \<Rightarrow> string \<Rightarrow> time_point option \<Rightarrow> time_point \<Rightarrow> ConcurrentStore
    \<Rightarrow> ConcurrentStore" where
  "set_locked hash key val expires_at now s =
     (case map_of (StripeFor hash s key) key of
        Some entry \<Rightarrow>
          (case TouchEntry (entry\<lparr>ve_value := val, ve_expires_at := expires_at\<rparr>) now
                  (st_protected_entries s) of
             (entry', protected_entries) \<Rightarrow>
               (put_stripe hash key (AList.update key entry' (StripeFor hash s key)) s)
               \<lparr>st_protected_entries := protected_entries\<rparr>)
      | None \<Rightarrow>
          (put_stripe hash key
             (AList.update key
                \<lparr>ve_value = val, ve_expires_at = expires_at, ve_lfu_count = 1,
                 ve_last_touch_ns = ToNs now, ve_in_protected_segment = False\<rparr>
                (StripeFor hash s key)) s)
          \<lparr>st_total_entries := st_total_entries s + 1\<rparr>)"

definition expiry_of :: "milliseconds option \<Rightarrow> time_point \<Rightarrow> time_point option" where
  "expiry_of ttl now = (case ttl of None \<Rightarrow> None | Some ms \<Rightarrow> Some (now + ms * 1000000))"

text \<open>
  The clock readings of \<open>Set\<close>: for the expiry, for the touch, and the one of
  \<open>EnforceCapacity\<close>.
\<close>

definition Store_Set ::
  "hasher \<Rightarrow> string \<Rightarrow> string \<Rightarrow> milliseconds option \<Rightarrow> time_point \<times> time_point \<times> time_point
    \<Rightarrow> ConcurrentStore \<Rightarrow> ConcurrentStore option" where
  "Store_Set hash key val ttl clock s =
     (case clock of (t_expiry, t_touch, t_sweep) \<Rightarrow>
        EnforceCapacity hash t_sweep
          (set_locked hash key val (expiry_of ttl t_expiry) t_touch s))"

definition get_locked ::
  "hasher \<Rightarrow> string \<Rightarrow> time_point \<Rightarrow> ConcurrentStore \<Rightarrow> string option \<times> ConcurrentStore" where
  "get_locked hash key now s =
     (case map_of (StripeFor hash s key) key of
        None \<Rightarrow> (None, s)
      | Some entry \<Rightarrow>
          if IsExpired entry now
          then (None,
                (put_stripe hash key (AList.delete key (StripeFor hash s key)) s)
                \<lparr>st_protected_entries :=
                   (if ve_in_protected_segment entry then st_protected_entries s - 1
                    else st_protected_entries s),
                 st_total_entries := st_total_entries s - 1\<rparr>)
          else (case TouchEntry entry now (st_protected_entries s) of
                  (entry', protected_entries) \<Rightarrow>
                    (Some (ve_value entry'),
                     (put_stripe hash key (AList.update key entry' (StripeFor hash s key)) s)
                     \<lparr>st_protected_entries := protected_entries\<rparr>)))"

text \<open>
  The first, shared, section of \<open>Get\<close> decides only whether the key is present; its clock
  reading has no effect.
\<close>

definition Store_Get ::
  "hasher \<Rightarrow> string \<Rightarrow> time_point \<Rightarrow> ConcurrentStore \<Rightarrow> string option \<times> ConcurrentStore" where
  "Store_Get hash key now s =
     (case map_of (StripeFor hash s key) key of
        None \<Rightarrow> (None, s)
      | Some _ \<Rightarrow> get_locked hash key now s)"

end
