(* ===== verification/Store_Invariant.thy ===== *)
theory Store_Invariant
  imports Concurrent_Store
begin

text \<open>
  The representation invariant of the store and its preservation by every locked section
  and by the operations built from them.
\<close>

section \<open>Representation invariant of the store\<close>

text \<open>Every key lives in the stripe its hash selects, once.\<close>

definition placed :: "hasher \<Rightarrow> stripe list \<Rightarrow> bool" where
  "placed hash ms \<longleftrightarrow> ms \<noteq> [] \<and>
     (\<forall>i < length ms. umap_inv (ms ! i) \<and>
        (\<forall>k \<in> fst ` set (ms ! i). unat (hash k) mod length ms = i))"

text \<open>The two segments are told apart by the frequency count.\<close>

definition entry_ok :: "ValueEntry \<Rightarrow> bool" where
  "entry_ok e \<longleftrightarrow> 1 \<le> ve_lfu_count e \<and> (ve_in_protected_segment e \<longleftrightarrow> 2 \<le> ve_lfu_count e)"

definition entries :: "ConcurrentStore \<Rightarrow> (string \<times> ValueEntry) list" where
  "entries s = concat (st_stripes s)"

definition count_entries :: "(ValueEntry \<Rightarrow> bool) \<Rightarrow> ConcurrentStore \<Rightarrow> nat" where
  "count_entries P s = length (filter (\<lambda>(k, e). P e) (entries s))"

abbreviation entry_count :: "ConcurrentStore \<Rightarrow> nat" where
  "entry_count \<equiv> count_entries (\<lambda>_. True)"

abbreviation protected_count :: "ConcurrentStore \<Rightarrow> nat" where
  "protected_count \<equiv> count_entries ve_in_protected_segment"

definition store_inv :: "hasher \<Rightarrow> ConcurrentStore \<Rightarrow> bool" where
  "store_inv hash s \<longleftrightarrow>
     placed hash (st_stripes s) \<and>
     (\<forall>(k, e) \<in> set (entries s). entry_ok e) \<and>
     st_total_entries s = of_nat (entry_count s) \<and>
     st_protected_entries s = of_nat (protected_count s) \<and>
     st_protected_entries_limit s =
       (if st_max_entries s > 0 then max 1 (st_max_entries s div 2) else 0)"

text \<open>What \<open>find\<close> sees in the stripe of the key.\<close>

definition find_entry :: "hasher \<Rightarrow> ConcurrentStore \<Rightarrow> string \<Rightarrow> ValueEntry option" where
  "find_entry hash s key = map_of (StripeFor hash s key) key"

subsection \<open>Placement\<close>

lemma placed_index: "placed hash ms \<Longrightarrow> unat (hash k) mod length ms < length ms"
  by (simp add: placed_def)

lemma placed_update:
  assumes "placed hash ms" and "umap_inv m"
    and "\<And>k. k \<in> fst ` set m \<Longrightarrow> unat (hash k) mod length ms = i"
  shows "placed hash (ms[i := m])"
proof (cases "i < length ms")
  case True
  with assms show ?thesis by (simp add: placed_def nth_list_update)
next
  case False
  with assms(1) show ?thesis by (simp add: list_update_beyond)
qed

lemma placed_mem:
  assumes "placed hash ms"
  shows "(k, e) \<in> set (concat ms) \<longleftrightarrow> map_of (ms ! (unat (hash k) mod length ms)) k = Some e"
proof -
  let ?i = "unat (hash k) mod length ms"
  have "(k, e) \<in> set (concat ms) \<longleftrightarrow> (\<exists>i < length ms. (k, e) \<in> set (ms ! i))"
    unfolding set_concat set_conv_nth [of ms] by blast
  also have "\<dots> \<longleftrightarrow> (k, e) \<in> set (ms ! ?i)"
    using assms placed_index [OF assms, of k] unfolding placed_def by (metis fst_conv image_eqI)
  also have "\<dots> \<longleftrightarrow> map_of (ms ! ?i) k = Some e"
    using assms placed_index [OF assms] by (auto simp: placed_def umap_inv_def)
  finally show ?thesis .
qed

lemma entries_iff_find:
  "store_inv hash s \<Longrightarrow> (k, e) \<in> set (entries s) \<longleftrightarrow> find_entry hash s k = Some e"
  unfolding store_inv_def entries_def find_entry_def StripeFor_def StripeIndexForKey_def
  by (blast dest: placed_mem)

lemma find_entry_ok: "store_inv hash s \<Longrightarrow> find_entry hash s k = Some e \<Longrightarrow> entry_ok e"
  using entries_iff_find by (fastforce simp: store_inv_def)

subsection \<open>Replacing one stripe\<close>

text \<open>
  Every locked section replaces the stripe of one key (or one stripe by index) and adjusts the
  counters. The lemmas here reduce the invariant to what happens to that stripe.
\<close>

definition count_stripe :: "(ValueEntry \<Rightarrow> bool) \<Rightarrow> stripe \<Rightarrow> nat" where
  "count_stripe P m = length (filter (\<lambda>(k, e). P e) m)"

lemma count_stripe_True [simp]: "count_stripe (\<lambda>_. True) m = length m"
  by (simp add: count_stripe_def)

lemma count_entries_replace:
  assumes "i < length (st_stripes s)" and "st_stripes s' = (st_stripes s)[i := m]"
  shows "count_entries P s' + count_stripe P (st_stripes s ! i) =
         count_entries P s + count_stripe P m"
  using count_concat_update [OF assms(1)] assms(2)
  by (simp add: count_entries_def count_stripe_def entries_def)

lemma count_entries_put:
  assumes "i < length (st_stripes s)" and "st_stripes s' = (st_stripes s)[i := m]"
  shows "of_nat (count_entries P s') =
         (of_nat (count_entries P s) + of_nat (count_stripe P m)
          - of_nat (count_stripe P (st_stripes s ! i)) :: size_t)"
proof -
  have "(of_nat (count_entries P s' + count_stripe P (st_stripes s ! i)) :: size_t) =
        of_nat (count_entries P s + count_stripe P m)"
    by (simp only: count_entries_replace [OF assms])
  then show ?thesis by (simp add: algebra_simps)
qed

lemma store_inv_put:
  assumes inv: "store_inv hash s" and i: "i < length (st_stripes s)"
    and m: "umap_inv m" "\<And>k e. (k, e) \<in> set m \<Longrightarrow> entry_ok e"
      "\<And>k. k \<in> fst ` set m \<Longrightarrow> unat (hash k) mod length (st_stripes s) = i"
    and s': "st_stripes s' = (st_stripes s)[i := m]"
      "st_max_entries s' = st_max_entries s"
      "st_protected_entries_limit s' = st_protected_entries_limit s"
      "st_total_entries s' =
         st_total_entries s + of_nat (length m) - of_nat (length (st_stripes s ! i))"
      "st_protected_entries s' =
         st_protected_entries s + of_nat (count_stripe ve_in_protected_segment m)
         - of_nat (count_stripe ve_in_protected_segment (st_stripes s ! i))"
  shows "store_inv hash s'"
proof -
  from inv have "placed hash (st_stripes s')"
    by (simp add: s' store_inv_def placed_update m)
  moreover have "\<forall>(k, e) \<in> set (entries s'). entry_ok e"
    using inv m(2) by (fastforce simp: store_inv_def entries_def s' dest!: set_update_subset_insert [THEN subsetD])
  moreover have "of_nat (entry_count s') = st_total_entries s'"
    using inv count_entries_put [OF i s'(1), of "\<lambda>_. True"] by (simp add: s' store_inv_def)
  moreover have "of_nat (protected_count s') = st_protected_entries s'"
    using inv count_entries_put [OF i s'(1), of ve_in_protected_segment]
    by (simp add: s' store_inv_def)
  ultimately show ?thesis using inv by (simp add: store_inv_def s'(2,3))
qed

text \<open>The stripe of a key: index in range, distinct keys, all keys at home.\<close>

lemma stripe_of_key:
  assumes "store_inv hash s"
  shows "StripeIndexForKey hash s k < length (st_stripes s)"
    and "distinct (map fst (StripeFor hash s k))"
    and "k' \<in> fst ` set (StripeFor hash s k) \<Longrightarrow>
         unat (hash k') mod length (st_stripes s) = StripeIndexForKey hash s k"
    and "(k', e) \<in> set (StripeFor hash s k) \<Longrightarrow> entry_ok e"
proof -
  let ?i = "StripeIndexForKey hash s k"
  show i: "?i < length (st_stripes s)"
    using assms by (simp add: store_inv_def placed_index StripeIndexForKey_def)
  with assms show "distinct (map fst (StripeFor hash s k))"
    and "k' \<in> fst ` set (StripeFor hash s k) \<Longrightarrow> unat (hash k') mod length (st_stripes s) = ?i"
    by (auto simp: store_inv_def placed_def umap_inv_def StripeFor_def)
  assume "(k', e) \<in> set (StripeFor hash s k)"
  with i have "(k', e) \<in> set (entries s)" by (auto simp: StripeFor_def entries_def)
  with assms show "entry_ok e" by (auto simp: store_inv_def)
qed

lemma find_put_stripe:
  assumes "store_inv hash s"
    and "map_of m = (map_of (StripeFor hash s k))(k := r)"
    and "st_stripes s' = (st_stripes s)[StripeIndexForKey hash s k := m]"
  shows "find_entry hash s' = (find_entry hash s)(k := r)"
proof
  fix k'
  show "find_entry hash s' k' = ((find_entry hash s)(k := r)) k'"
    using assms stripe_of_key(1) [OF assms(1), of k]
    by (auto simp: find_entry_def StripeFor_def StripeIndexForKey_def nth_list_update)
qed

subsection \<open>Replacing, inserting and erasing one entry\<close>

lemma store_inv_replace:
  assumes inv: "store_inv hash s" and f: "find_entry hash s k = Some e" and ok: "entry_ok e'"
    and p: "p = st_protected_entries s + of_bool (ve_in_protected_segment e')
              - of_bool (ve_in_protected_segment e)"
  shows "store_inv hash ((put_stripe hash k (AList.update k e' (StripeFor hash s k)) s)
           \<lparr>st_protected_entries := p\<rparr>)"
proof (rule store_inv_put [OF inv stripe_of_key(1) [OF inv, of k]])
  let ?m = "StripeFor hash s k" and ?pr = "\<lambda>(k, e). ve_in_protected_segment e"
  have k: "k \<in> fst ` set ?m" and mo: "map_of ?m k = Some e"
    using f by (auto simp: find_entry_def dest: map_of_SomeD intro: image_eqI [of _ _ "(k, e)"])
  show "umap_inv (AList.update k e' ?m)"
    by (simp add: umap_inv_def distinct_update stripe_of_key [OF inv])
  show "entry_ok x" if "(k', x) \<in> set (AList.update k e' ?m)" for k' x
    using that ok stripe_of_key(2,4) [OF inv] by (auto simp: set_update_distinct)
  show "unat (hash k') mod length (st_stripes s) = StripeIndexForKey hash s k"
    if "k' \<in> fst ` set (AList.update k e' ?m)" for k'
    using that k stripe_of_key(2,3) [OF inv] by (auto simp: set_update_distinct)
  have "(of_nat (length (filter ?pr (AList.update k e' ?m)) + of_bool (ve_in_protected_segment e))
          :: size_t) =
        of_nat (length (filter ?pr ?m) + of_bool (ve_in_protected_segment e'))"
    using count_update_old [OF mo, of ?pr e'] by (intro arg_cong [where f = of_nat]) simp
  then show "st_protected_entries ((put_stripe hash k (AList.update k e' ?m) s)
        \<lparr>st_protected_entries := p\<rparr>) =
      st_protected_entries s + of_nat (count_stripe ve_in_protected_segment (AList.update k e' ?m))
      - of_nat (count_stripe ve_in_protected_segment (st_stripes s ! StripeIndexForKey hash s k))"
    by (simp add: p count_stripe_def StripeFor_def [symmetric] algebra_simps)
  show "st_total_entries ((put_stripe hash k (AList.update k e' ?m) s)
        \<lparr>st_protected_entries := p\<rparr>) =
      st_total_entries s + of_nat (length (AList.update k e' ?m))
      - of_nat (length (st_stripes s ! StripeIndexForKey hash s k))"
    using k by (simp add: put_stripe_def length_update StripeFor_def [symmetric])
qed (simp_all add: put_stripe_def)

lemma store_inv_insert:
  assumes inv: "store_inv hash s" and f: "find_entry hash s k = None"
    and ok: "entry_ok e" "\<not> ve_in_protected_segment e"
  shows "store_inv hash ((put_stripe hash k (AList.update k e (StripeFor hash s k)) s)
           \<lparr>st_total_entries := st_total_entries s + 1\<rparr>)"
proof (rule store_inv_put [OF inv stripe_of_key(1) [OF inv, of k]])
  let ?m = "StripeFor hash s k" and ?pr = "\<lambda>(k, e). ve_in_protected_segment e"
  have k: "k \<notin> fst ` set ?m" and mo: "map_of ?m k = None"
    using f by (auto simp: find_entry_def map_of_eq_None_iff)
  show "umap_inv (AList.update k e ?m)"
    by (simp add: umap_inv_def distinct_update stripe_of_key [OF inv])
  show "entry_ok x" if "(k', x) \<in> set (AList.update k e ?m)" for k' x
    using that ok stripe_of_key(2,4) [OF inv] by (auto simp: set_update_distinct)
  show "unat (hash k') mod length (st_stripes s) = StripeIndexForKey hash s k"
    if "k' \<in> fst ` set (AList.update k e ?m)" for k'
    using that stripe_of_key(2,3) [OF inv]
    by (auto simp: set_update_distinct StripeIndexForKey_def)
  show "st_protected_entries ((put_stripe hash k (AList.update k e ?m) s)
        \<lparr>st_total_entries := st_total_entries s + 1\<rparr>) =
      st_protected_entries s + of_nat (count_stripe ve_in_protected_segment (AList.update k e ?m))
      - of_nat (count_stripe ve_in_protected_segment (st_stripes s ! StripeIndexForKey hash s k))"
    using count_update_new [OF mo, of ?pr e] ok(2)
    by (simp add: put_stripe_def count_stripe_def StripeFor_def [symmetric])
  show "st_total_entries ((put_stripe hash k (AList.update k e ?m) s)
        \<lparr>st_total_entries := st_total_entries s + 1\<rparr>) =
      st_total_entries s + of_nat (length (AList.update k e ?m))
      - of_nat (length (st_stripes s ! StripeIndexForKey hash s k))"
    using k by (simp add: length_update StripeFor_def [symmetric])
qed (simp_all add: put_stripe_def)

lemma store_inv_erase:
  assumes inv: "store_inv hash s" and f: "find_entry hash s k = Some e"
    and p: "p = st_protected_entries s - of_bool (ve_in_protected_segment e)"
  shows "store_inv hash ((put_stripe hash k (AList.delete k (StripeFor hash s k)) s)
           \<lparr>st_protected_entries := p, st_total_entries := st_total_entries s - 1\<rparr>)"
proof (rule store_inv_put [OF inv stripe_of_key(1) [OF inv, of k]])
  let ?m = "StripeFor hash s k" and ?pr = "\<lambda>(k, e). ve_in_protected_segment e"
  let ?s = "(put_stripe hash k (AList.delete k (StripeFor hash s k)) s)
           \<lparr>st_protected_entries := p, st_total_entries := st_total_entries s - 1\<rparr>"
  have mo: "map_of ?m k = Some e" using f by (simp add: find_entry_def)
  note del = count_delete [OF stripe_of_key(2) [OF inv] mo]
  show "umap_inv (AList.delete k ?m)"
    by (simp add: umap_inv_def distinct_delete stripe_of_key [OF inv])
  show "entry_ok x" if "(k', x) \<in> set (AList.delete k ?m)" for k' x
    using that stripe_of_key(4) [OF inv] by (auto simp: set_delete)
  show "unat (hash k') mod length (st_stripes s) = StripeIndexForKey hash s k"
    if "k' \<in> fst ` set (AList.delete k ?m)" for k'
    using that stripe_of_key(3) [OF inv] by (auto simp: set_delete)
  have "(of_nat (length (filter ?pr (AList.delete k ?m)) + of_bool (ve_in_protected_segment e))
          :: size_t) = of_nat (length (filter ?pr ?m))"
    using del [of ?pr] by (intro arg_cong [where f = of_nat]) simp
  then show "st_protected_entries ?s =
      st_protected_entries s + of_nat (count_stripe ve_in_protected_segment (AList.delete k ?m))
      - of_nat (count_stripe ve_in_protected_segment (st_stripes s ! StripeIndexForKey hash s k))"
    by (simp add: p count_stripe_def StripeFor_def [symmetric] algebra_simps)
  have "(of_nat (length (AList.delete k ?m) + 1) :: size_t) = of_nat (length ?m)"
    using del [of "\<lambda>_. True"] by (intro arg_cong [where f = of_nat]) simp
  then show "st_total_entries ?s = st_total_entries s + of_nat (length (AList.delete k ?m))
      - of_nat (length (st_stripes s ! StripeIndexForKey hash s k))"
    by (simp add: StripeFor_def [symmetric] algebra_simps)
qed (simp_all add: put_stripe_def)

subsection \<open>The locked sections\<close>

text \<open>Touching saturates the count, never lowers it, and leaves the entry protected.\<close>

lemma touch_count_grows:
  fixes c :: u32
  assumes "c < 4294967295"
  shows "unat (c + 1) = Suc (unat c)"
  using assms by (simp add: unat_word_ariths word_less_nat_alt)

lemma entry_ok_fresh:
  "entry_ok e" if "ve_lfu_count e = 1" "\<not> ve_in_protected_segment e"
  using that by (simp add: entry_ok_def word_le_nat_alt)

lemma TouchEntry_result:
  assumes "entry_ok e" and "TouchEntry e now p = (e', p')"
  shows "entry_ok e'" and "ve_in_protected_segment e'"
    and "p' = p + of_bool (ve_in_protected_segment e') - of_bool (ve_in_protected_segment e)"
    and "ve_value e' = ve_value e" and "ve_expires_at e' = ve_expires_at e"
    and "ve_last_touch_ns e' = ToNs now"
    and "unat (ve_lfu_count e') = min (Suc (unat (ve_lfu_count e))) (2 ^ 32 - 1)"
proof -
  let ?c = "ve_lfu_count e"
  have c1: "1 \<le> unat ?c" and p: "ve_in_protected_segment e \<longleftrightarrow> 2 \<le> unat ?c"
    using assms(1) by (auto simp: entry_ok_def word_le_nat_alt)
  have lim: "?c < 4294967295 \<longleftrightarrow> unat ?c < 4294967295" by (simp add: word_less_nat_alt)
  have bound: "unat ?c < 4294967296" using unsigned_less [of ?c] by simp
  show "unat (ve_lfu_count e') = min (Suc (unat ?c)) (2 ^ 32 - 1)"
    using assms(2) touch_count_grows [of ?c] lim bound
    by (auto simp: TouchEntry_def Let_def split: if_splits)
  show "entry_ok e'" "ve_in_protected_segment e'"
    "p' = p + of_bool (ve_in_protected_segment e') - of_bool (ve_in_protected_segment e)"
    using assms(2) c1 p touch_count_grows [of ?c] lim bound
    by (auto simp: TouchEntry_def Let_def entry_ok_def word_le_nat_alt split: if_splits)
  show "ve_value e' = ve_value e" "ve_expires_at e' = ve_expires_at e"
    "ve_last_touch_ns e' = ToNs now"
    using assms(2) by (auto simp: TouchEntry_def Let_def split: if_splits)
qed

lemma store_inv_set_locked [inv_pres]:
  assumes inv: "store_inv hash s"
  shows "store_inv hash (set_locked hash k v x now s)"
proof (cases "find_entry hash s k")
  case None
  then show ?thesis using store_inv_insert [OF inv None entry_ok_fresh]
    by (simp add: set_locked_def find_entry_def)
next
  case (Some e)
  let ?e = "e\<lparr>ve_value := v, ve_expires_at := x\<rparr>"
  obtain e' p' where t: "TouchEntry ?e now (st_protected_entries s) = (e', p')" by fastforce
  have "entry_ok ?e" using find_entry_ok [OF inv Some] by (simp add: entry_ok_def)
  note r = TouchEntry_result [OF this t]
  from Some have "map_of (StripeFor hash s k) k = Some e" by (simp add: find_entry_def)
  moreover have "store_inv hash ((put_stripe hash k (AList.update k e' (StripeFor hash s k)) s)
      \<lparr>st_protected_entries := p'\<rparr>)"
    by (rule store_inv_replace [OF inv Some r(1)]) (simp add: r(3))
  ultimately show ?thesis by (simp add: set_locked_def t)
qed

lemma store_inv_get_locked [inv_pres]:
  assumes inv: "store_inv hash s"
  shows "store_inv hash (snd (get_locked hash k now s))"
proof (cases "find_entry hash s k")
  case None
  with inv show ?thesis by (simp add: get_locked_def find_entry_def)
next
  case (Some e)
  then have mo: "map_of (StripeFor hash s k) k = Some e" by (simp add: find_entry_def)
  obtain e' p' where t: "TouchEntry e now (st_protected_entries s) = (e', p')" by fastforce
  note r = TouchEntry_result [OF find_entry_ok [OF inv Some] t]
  have "store_inv hash ((put_stripe hash k (AList.update k e' (StripeFor hash s k)) s)
      \<lparr>st_protected_entries := p'\<rparr>)"
    by (rule store_inv_replace [OF inv Some r(1)]) (simp add: r(3))
  moreover note store_inv_erase [OF inv Some refl]
  ultimately show ?thesis
    by (cases "ve_in_protected_segment e") (simp_all add: get_locked_def mo t)
qed

lemma store_inv_demote_victim [inv_pres]:
  assumes inv: "store_inv hash s"
  shows "store_inv hash (demote_victim hash k s)"
proof (cases "find_entry hash s k")
  case None
  with inv show ?thesis by (simp add: demote_victim_def find_entry_def)
next
  case (Some e)
  let ?e = "e\<lparr>ve_in_protected_segment := False, ve_lfu_count := 1\<rparr>"
  from Some have mo: "map_of (StripeFor hash s k) k = Some e" by (simp add: find_entry_def)
  have "store_inv hash ((put_stripe hash k (AList.update k ?e (StripeFor hash s k)) s)
      \<lparr>st_protected_entries := st_protected_entries s - 1\<rparr>)" if "ve_in_protected_segment e"
    by (rule store_inv_replace [OF inv Some]) (use that in \<open>simp_all add: entry_ok_fresh\<close>)
  with inv mo show ?thesis by (simp add: demote_victim_def)
qed

lemma store_inv_evict_victim [inv_pres]:
  assumes inv: "store_inv hash s"
  shows "store_inv hash (evict_victim hash k s)"
proof (cases "find_entry hash s k")
  case None
  with inv show ?thesis by (simp add: evict_victim_def find_entry_def)
next
  case (Some e)
  from Some have mo: "map_of (StripeFor hash s k) k = Some e" by (simp add: find_entry_def)
  from store_inv_erase [OF inv Some refl] show ?thesis
    by (cases "ve_in_protected_segment e") (simp_all add: evict_victim_def mo)
qed

text \<open>The sweep of a stripe keeps exactly the live entries and counts the dropped ones.\<close>

lemma expire_loop_result:
  "expire_loop now m t p =
     (filter (\<lambda>(k, e). \<not> IsExpired e now) m,
      t + of_nat (length (filter (\<lambda>(k, e). \<not> IsExpired e now) m)) - of_nat (length m),
      p + of_nat (count_stripe ve_in_protected_segment (filter (\<lambda>(k, e). \<not> IsExpired e now) m))
        - of_nat (count_stripe ve_in_protected_segment m))"
  by (induction now m t p rule: expire_loop.induct) (auto simp: count_stripe_def)

lemma store_inv_sweep_stripe [inv_pres]:
  assumes inv: "store_inv hash s" and i: "i < length (st_stripes s)"
  shows "store_inv hash (sweep_stripe now i s)"
proof (rule store_inv_put [OF inv i])
  let ?m = "filter (\<lambda>(k, e). \<not> IsExpired e now) (st_stripes s ! i)"
  show "umap_inv ?m" using inv i
    by (auto simp: store_inv_def placed_def umap_inv_def intro: distinct_map_filter)
  show "entry_ok e" if "(k, e) \<in> set ?m" for k e
    using that inv i by (force simp: store_inv_def entries_def)
  show "unat (hash k) mod length (st_stripes s) = i" if "k \<in> fst ` set ?m" for k
    using that inv i by (force simp: store_inv_def placed_def)
qed (simp_all add: sweep_stripe_def expire_loop_result)

lemma fold_sweep_stripe:
  assumes "store_inv hash s" and "\<forall>i \<in> set is. i < length (st_stripes s)"
  shows "store_inv hash (fold (sweep_stripe now) is s) \<and>
         length (st_stripes (fold (sweep_stripe now) is s)) = length (st_stripes s)"
  using assms
proof (induction "is" arbitrary: s)
  case Nil
  then show ?case by simp
next
  case (Cons i "is")
  have len: "length (st_stripes (sweep_stripe now i s)) = length (st_stripes s)"
    by (simp add: sweep_stripe_def expire_loop_result)
  from Cons.prems have "store_inv hash (sweep_stripe now i s)" by (simp add: inv_pres)
  from Cons.IH [OF this] Cons.prems len show ?case by simp
qed

lemma store_inv_SweepExpired [inv_pres]:
  "store_inv hash s \<Longrightarrow> store_inv hash (SweepExpired now s)"
  by (simp add: SweepExpired_def fold_sweep_stripe)

subsection \<open>What the locked sections do to the entries\<close>

lemma find_set_locked:
  assumes inv: "store_inv hash s"
  shows "\<exists>e. find_entry hash (set_locked hash k v x now s) = (find_entry hash s)(k \<mapsto> e) \<and>
           ve_value e = v \<and> ve_expires_at e = x \<and> ve_last_touch_ns e = ToNs now \<and>
           (ve_in_protected_segment e \<longleftrightarrow> find_entry hash s k \<noteq> None)"
proof (cases "find_entry hash s k")
  case None
  let ?e = "\<lparr>ve_value = v, ve_expires_at = x, ve_lfu_count = 1,
     ve_last_touch_ns = ToNs now, ve_in_protected_segment = False\<rparr>"
  have "find_entry hash (set_locked hash k v x now s) = (find_entry hash s)(k \<mapsto> ?e)"
    by (rule find_put_stripe [OF inv])
       (use None in \<open>simp_all add: set_locked_def find_entry_def put_stripe_def update_conv'\<close>)
  with None show ?thesis by (intro exI [of _ ?e]) simp
next
  case (Some e0)
  let ?e = "e0\<lparr>ve_value := v, ve_expires_at := x\<rparr>"
  obtain e' p' where t: "TouchEntry ?e now (st_protected_entries s) = (e', p')" by fastforce
  have "entry_ok ?e" using find_entry_ok [OF inv Some] by (simp add: entry_ok_def)
  note r = TouchEntry_result [OF this t]
  have "find_entry hash (set_locked hash k v x now s) = (find_entry hash s)(k \<mapsto> e')"
    by (rule find_put_stripe [OF inv])
       (use Some t in \<open>simp_all add: set_locked_def find_entry_def put_stripe_def update_conv'\<close>)
  with Some r show ?thesis by (intro exI [of _ e']) simp
qed

lemma find_get_locked_expired:
  assumes inv: "store_inv hash s" and "find_entry hash s k = Some e" "IsExpired e now"
  shows "fst (get_locked hash k now s) = None"
    and "find_entry hash (snd (get_locked hash k now s)) = (find_entry hash s)(k := None)"
proof -
  show "find_entry hash (snd (get_locked hash k now s)) = (find_entry hash s)(k := None)"
    by (rule find_put_stripe [OF inv])
       (use assms in \<open>simp_all add: get_locked_def find_entry_def put_stripe_def delete_conv'\<close>)
qed (use assms in \<open>simp add: get_locked_def find_entry_def\<close>)

lemma find_get_locked_live:
  assumes inv: "store_inv hash s" and f: "find_entry hash s k = Some e" and "\<not> IsExpired e now"
  obtains e' where "fst (get_locked hash k now s) = Some (ve_value e)"
    and "find_entry hash (snd (get_locked hash k now s)) = (find_entry hash s)(k \<mapsto> e')"
    and "ve_value e' = ve_value e" "ve_expires_at e' = ve_expires_at e"
    and "ve_in_protected_segment e'" "ve_last_touch_ns e' = ToNs now"
    and "unat (ve_lfu_count e') = min (Suc (unat (ve_lfu_count e))) (2 ^ 32 - 1)"
proof -
  obtain e' p' where t: "TouchEntry e now (st_protected_entries s) = (e', p')" by fastforce
  note r = TouchEntry_result [OF find_entry_ok [OF inv f] t]
  have "find_entry hash (snd (get_locked hash k now s)) = (find_entry hash s)(k \<mapsto> e')"
    by (rule find_put_stripe [OF inv])
       (use assms t in \<open>simp_all add: get_locked_def find_entry_def put_stripe_def update_conv'\<close>)
  moreover have "fst (get_locked hash k now s) = Some (ve_value e)"
    using assms t r by (simp add: get_locked_def find_entry_def)
  ultimately show thesis using that r by blast
qed

lemma find_demote_victim:
  assumes inv: "store_inv hash s" and f: "find_entry hash s k = Some e" "ve_in_protected_segment e"
  shows "find_entry hash (demote_victim hash k s) =
           (find_entry hash s)(k \<mapsto> e\<lparr>ve_in_protected_segment := False, ve_lfu_count := 1\<rparr>)"
  by (rule find_put_stripe [OF inv])
     (use f in \<open>simp_all add: demote_victim_def find_entry_def put_stripe_def update_conv'\<close>)

lemma find_evict_victim:
  assumes inv: "store_inv hash s"
  shows "find_entry hash (evict_victim hash k s) = (find_entry hash s)(k := None)"
proof (cases "find_entry hash s k")
  case None
  then show ?thesis by (simp add: evict_victim_def find_entry_def fun_upd_idem)
next
  case (Some e)
  show ?thesis
    by (rule find_put_stripe [OF inv])
       (use Some in \<open>simp_all add: evict_victim_def find_entry_def put_stripe_def delete_conv'\<close>)
qed

lemma length_sweep_stripe [simp]:
  "length (st_stripes (sweep_stripe now i s)) = length (st_stripes s)"
  by (simp add: sweep_stripe_def expire_loop_result)

lemma map_of_filter_distinct:
  "distinct (map fst m) \<Longrightarrow>
   map_of (filter (\<lambda>(k, e). P e) m) k = (case map_of m k of None \<Rightarrow> None
     | Some e \<Rightarrow> if P e then Some e else None)"
  by (induction m) (auto simp: map_of_eq_None_iff split: option.splits)

lemma find_sweep_stripe:
  assumes inv: "store_inv hash s" and i: "i < length (st_stripes s)"
  shows "find_entry hash (sweep_stripe now i s) k =
           (case find_entry hash s k of None \<Rightarrow> None
            | Some e \<Rightarrow> if StripeIndexForKey hash s k = i \<and> IsExpired e now then None else Some e)"
  using map_of_filter_distinct [OF stripe_of_key(2) [OF inv], of "\<lambda>e. \<not> IsExpired e now" k k] i
    stripe_of_key(1) [OF inv, of k]
  by (auto simp: find_entry_def StripeFor_def StripeIndexForKey_def sweep_stripe_def
      expire_loop_result nth_list_update split: option.splits)

lemma find_SweepExpired:
  assumes inv: "store_inv hash s"
  shows "find_entry hash (SweepExpired now s) k =
           (case find_entry hash s k of None \<Rightarrow> None
            | Some e \<Rightarrow> if IsExpired e now then None else Some e)"
proof -
  have "find_entry hash (fold (sweep_stripe now) is s) k =
          (case find_entry hash s k of None \<Rightarrow> None
           | Some e \<Rightarrow> if StripeIndexForKey hash s k \<in> set is \<and> IsExpired e now then None else Some e)"
    if "\<forall>i \<in> set is. i < length (st_stripes s)" for "is"
    using inv that
  proof (induction "is" arbitrary: s)
    case Nil
    then show ?case by (simp split: option.splits)
  next
    case (Cons i "is")
    then have "store_inv hash (sweep_stripe now i s)" by (simp add: inv_pres)
    from Cons.IH [OF this] Cons.prems find_sweep_stripe [OF Cons.prems(1), of i now k] show ?case
      by (auto simp: StripeIndexForKey_def split: option.splits)
  qed
  from this [of "[0..<length (st_stripes s)]"] stripe_of_key(1) [OF inv, of k] show ?thesis
    by (simp add: SweepExpired_def split: option.splits)
qed

end
