(* ===== verification/Store_Capacity.thy ===== *)
theory Store_Capacity
  imports Store_Invariant
begin

text \<open>
  Capacity enforcement: both loops end, which entries they pick, how many entries remain,
  and what the abstract contents of the store are afterwards. The abstract contents map a
  key to its value and its expiry; the bookkeeping of the two segments is not part of it.
\<close>

section \<open>Victims\<close>

definition candidate_of :: "string \<times> ValueEntry \<Rightarrow> EvictionCandidate" where
  "candidate_of ke = (case ke of (key, entry) \<Rightarrow>
     \<lparr>ec_key = key, ec_lfu_count = ve_lfu_count entry,
      ec_last_touch_ns = ve_last_touch_ns entry,
      ec_in_protected_segment = ve_in_protected_segment entry\<rparr>)"

lemma ec_key_candidate_of [simp]: "ec_key (candidate_of ke) = fst ke"
  by (cases ke) (simp add: candidate_of_def)

definition segment :: "bool \<Rightarrow> ConcurrentStore \<Rightarrow> (string \<times> ValueEntry) list" where
  "segment b s = filter (\<lambda>(k, e). ve_in_protected_segment e = b) (entries s)"

lemma SelectVictimKey_segment:
  "SelectVictimKey b s = SelectVictim (map candidate_of (segment b s))"
proof -
  have "map candidate_of (filter (\<lambda>(k, e). ve_in_protected_segment e = b) (concat ms)) =
        concat (map (stripe_candidates b) ms)" for ms
    by (induction ms) (auto simp: stripe_candidates_def candidate_of_def)
  then show ?thesis by (simp add: SelectVictimKey_def segment_def entries_def)
qed

lemma keys_candidates: "ec_key ` set (map candidate_of kes) = fst ` set kes"
  by force

lemma SelectVictimKey_found:
  assumes inv: "store_inv hash s" and k: "SelectVictimKey b s \<noteq> []"
  obtains e where "find_entry hash s (SelectVictimKey b s) = Some e"
    and "ve_in_protected_segment e = b"
proof -
  have "segment b s \<noteq> []" using k by (auto simp: SelectVictimKey_segment)
  then have "SelectVictimKey b s \<in> fst ` set (segment b s)"
    using slru.pick_key_mem [of "map candidate_of (segment b s)"]
    by (simp add: SelectVictimKey_segment keys_candidates del: set_map)
  then show thesis using that entries_iff_find [OF inv] by (force simp: segment_def)
qed

lemma SelectVictimKey_none:
  assumes inv: "store_inv hash s" and "find_entry hash s [] = None"
  shows "SelectVictimKey b s = [] \<longleftrightarrow> segment b s = []"
proof -
  have "[] \<notin> ec_key ` set (map candidate_of (segment b s))"
    unfolding keys_candidates
    using assms(2) entries_iff_find [OF inv] by (auto simp: segment_def)
  then show ?thesis using slru.pick_null_iff by (simp add: SelectVictimKey_segment)
qed

lemma segments_cover: "segment False s = [] \<and> segment True s = [] \<longleftrightarrow> entry_count s = 0"
proof -
  have "segment False s = [] \<and> segment True s = [] \<longleftrightarrow> entries s = []"
    by (cases "entries s") (auto simp: segment_def split: if_splits)
  then show ?thesis by (simp add: count_entries_def)
qed

text \<open>
  The probationary segment comes before the protected one in the score, so asking the
  segments one after the other is asking for the least entry of the whole store.
\<close>

lemma Score_probationary_first:
  "\<not> ec_in_protected_segment a \<Longrightarrow> ec_in_protected_segment b \<Longrightarrow> Score a \<le> Score b"
  by (simp add: Score_def)

lemma eviction_choice_least:
  assumes inv: "store_inv hash s" and ne: "find_entry hash s [] = None"
  shows "eviction_choice s = SelectVictim (map candidate_of (entries s))"
proof (cases "segment False s = []")
  case True
  then have "segment True s = entries s" by (auto simp: segment_def filter_empty_conv filter_id_conv)
  with True show ?thesis
    by (simp add: eviction_choice_def SelectVictimKey_none [OF inv ne] SelectVictimKey_segment)
next
  case False
  let ?c = "\<lambda>b. map candidate_of (segment b s)"
  have "set (?c False @ ?c True) = set (map candidate_of (entries s))"
    by (force simp: segment_def)
  moreover have "Score x \<le> Score y" if "x \<in> set (?c False)" "y \<in> set (?c True)" for x y
    using that by (intro Score_probationary_first) (auto simp: segment_def candidate_of_def)
  ultimately have "SelectVictim (map candidate_of (entries s)) = SelectVictim (?c False)"
    using False slru.pick_append_worse [of "?c False" "?c True"]
      slru.pick_set_cong [of "?c False @ ?c True" "map candidate_of (entries s)"]
    by (metis list.map_disc_iff)
  moreover from False have "SelectVictimKey False s \<noteq> []"
    by (simp add: SelectVictimKey_none [OF inv ne])
  ultimately show ?thesis by (simp add: eviction_choice_def SelectVictimKey_segment)
qed

section \<open>The abstract contents\<close>

definition core :: "ValueEntry \<Rightarrow> string \<times> time_point option" where
  "core e = (ve_value e, ve_expires_at e)"

definition contents :: "hasher \<Rightarrow> ConcurrentStore \<Rightarrow> string \<rightharpoonup> string \<times> time_point option" where
  "contents hash s = map_option core \<circ> find_entry hash s"

text \<open>Entries whose expiry has passed.\<close>

definition dead_at :: "time_point \<Rightarrow> string \<times> time_point option \<Rightarrow> bool" where
  "dead_at now c = (case snd c of None \<Rightarrow> False | Some t \<Rightarrow> now \<ge> t)"

definition drop_expired ::
  "time_point \<Rightarrow> (string \<rightharpoonup> string \<times> time_point option) \<Rightarrow> string \<rightharpoonup> string \<times> time_point option" where
  "drop_expired now C = (\<lambda>k. case C k of None \<Rightarrow> None | Some c \<Rightarrow> if dead_at now c then None else Some c)"

lemma dead_at_core: "dead_at now (core e) = IsExpired e now"
  by (simp add: dead_at_def core_def IsExpired_def)

lemma drop_expired_le: "drop_expired now C \<subseteq>\<^sub>m C"
  by (auto simp: map_le_def drop_expired_def split: option.splits if_splits)

lemma contents_set_locked:
  assumes "store_inv hash s"
  shows "contents hash (set_locked hash k v x now s) = (contents hash s)(k \<mapsto> (v, x))"
  using find_set_locked [OF assms, of k v x now] by (fastforce simp: contents_def core_def)

lemma contents_SweepExpired:
  assumes "store_inv hash s"
  shows "contents hash (SweepExpired now s) = drop_expired now (contents hash s)"
  by (rule ext) (auto simp: contents_def drop_expired_def find_SweepExpired [OF assms] dead_at_core
      split: option.splits)

lemma contents_demote_victim:
  assumes "store_inv hash s" "find_entry hash s k = Some e" "ve_in_protected_segment e"
  shows "contents hash (demote_victim hash k s) = contents hash s"
  using assms by (auto simp: contents_def find_demote_victim core_def fun_eq_iff)

lemma contents_evict_victim:
  "store_inv hash s \<Longrightarrow> contents hash (evict_victim hash k s) = (contents hash s)(k := None)"
  by (auto simp: contents_def find_evict_victim)

lemma contents_None_iff: "contents hash s k = None \<longleftrightarrow> find_entry hash s k = None"
  by (simp add: contents_def)

section \<open>Counting through the loop bodies\<close>

lemma frame_demote_victim [simp]:
  "st_max_entries (demote_victim hash k s) = st_max_entries s"
  "st_total_entries (demote_victim hash k s) = st_total_entries s"
  by (auto simp: demote_victim_def put_stripe_def split: option.splits)

lemma frame_evict_victim [simp]:
  "st_max_entries (evict_victim hash k s) = st_max_entries s"
  by (auto simp: evict_victim_def put_stripe_def split: option.splits)

lemma frame_set_locked [simp]:
  "st_max_entries (set_locked hash k v x now s) = st_max_entries s"
  by (auto simp: set_locked_def put_stripe_def split: option.splits prod.splits)

lemma frame_SweepExpired [simp]: "st_max_entries (SweepExpired now s) = st_max_entries s"
proof -
  have "st_max_entries (fold (sweep_stripe now) is s) = st_max_entries s" for "is"
    by (induction "is" arbitrary: s) (auto simp: sweep_stripe_def split: prod.splits)
  then show ?thesis by (simp add: SweepExpired_def)
qed

lemma count_demote_victim:
  assumes inv: "store_inv hash s" and f: "find_entry hash s k = Some e" "ve_in_protected_segment e"
  shows "Suc (protected_count (demote_victim hash k s)) = protected_count s"
    and "entry_count (demote_victim hash k s) = entry_count s"
proof -
  let ?m = "StripeFor hash s k"
  let ?e = "e\<lparr>ve_in_protected_segment := False, ve_lfu_count := 1\<rparr>"
  have mo: "map_of ?m k = Some e" using f by (simp add: find_entry_def)
  have st: "st_stripes (demote_victim hash k s) =
      (st_stripes s)[StripeIndexForKey hash s k := AList.update k ?e ?m]"
    using mo f(2) by (simp add: demote_victim_def put_stripe_def)
  note c = count_entries_replace [OF stripe_of_key(1) [OF inv] st, folded StripeFor_def]
  show "Suc (protected_count (demote_victim hash k s)) = protected_count s"
    using c [of ve_in_protected_segment] f(2)
      count_update_old [OF mo, of "\<lambda>(k, e). ve_in_protected_segment e" ?e]
    by (simp add: count_stripe_def)
  show "entry_count (demote_victim hash k s) = entry_count s"
    using c [of "\<lambda>_. True"] count_update_old [OF mo, of "\<lambda>_. True" ?e] by simp
qed

lemma count_evict_victim:
  assumes inv: "store_inv hash s" and f: "find_entry hash s k = Some e"
  shows "count_entries P (evict_victim hash k s) + of_bool (P e) = count_entries P s"
proof -
  let ?m = "StripeFor hash s k"
  have mo: "map_of ?m k = Some e" using f by (simp add: find_entry_def)
  have st: "st_stripes (evict_victim hash k s) =
      (st_stripes s)[StripeIndexForKey hash s k := AList.delete k ?m]"
    using mo by (simp add: evict_victim_def put_stripe_def)
  show ?thesis
    using count_entries_replace [OF stripe_of_key(1) [OF inv] st, folded StripeFor_def, of P]
      count_delete [OF stripe_of_key(2) [OF inv] mo, of "\<lambda>(k, e). P e"]
    by (simp add: count_stripe_def)
qed

lemma total_exact:
  "store_inv hash s \<Longrightarrow> entry_count s < 2 ^ 64 \<Longrightarrow> unat (st_total_entries s) = entry_count s"
  by (simp add: store_inv_def unat_of_nat)

section \<open>Both loops end\<close>

lemma demote_loop_returns:
  assumes "store_inv hash s"
  shows "\<exists>s'. demote_loop hash (st_total_entries s) (st_protected_entries s) s =
             Some (st_total_entries s', s') \<and>
           store_inv hash s' \<and> contents hash s' = contents hash s \<and>
           entry_count s' = entry_count s \<and> st_max_entries s' = st_max_entries s"
  using assms
proof (induction "protected_count s" arbitrary: s rule: less_induct)
  case less
  let ?k = "SelectVictimKey True s"
  show ?case
  proof (cases "st_total_entries s > st_max_entries s \<and>
      st_protected_entries s > st_protected_entries_limit s \<and> ?k \<noteq> []")
    case False
    with less.prems show ?thesis by (subst demote_loop.simps) (auto simp: Let_def)
  next
    case True
    let ?s = "demote_victim hash ?k s"
    from True less.prems obtain e where e: "find_entry hash s ?k = Some e" "ve_in_protected_segment e"
      by (blast elim: SelectVictimKey_found)
    note c = count_demote_victim [OF less.prems e]
    have "\<exists>s'. demote_loop hash (st_total_entries ?s) (st_protected_entries ?s) ?s =
             Some (st_total_entries s', s') \<and>
           store_inv hash s' \<and> contents hash s' = contents hash ?s \<and>
           entry_count s' = entry_count ?s \<and> st_max_entries s' = st_max_entries ?s"
      using c(1) less.prems by (intro less.hyps inv_pres) simp_all
    with True c(2) show ?thesis
      by (subst demote_loop.simps)
         (simp add: Let_def contents_demote_victim [OF less.prems e])
  qed
qed

lemma evict_loop_returns:
  assumes "store_inv hash s"
  shows "\<exists>s'. evict_loop hash (st_total_entries s) s = Some s' \<and> store_inv hash s' \<and>
           contents hash s' \<subseteq>\<^sub>m contents hash s \<and> st_max_entries s' = st_max_entries s \<and>
           (find_entry hash s [] = None \<and> entry_count s < 2 ^ 64 \<longrightarrow>
              entry_count s' = min (entry_count s) (unat (st_max_entries s)))"
  using assms
proof (induction "entry_count s" arbitrary: s rule: less_induct)
  case less
  let ?k = "eviction_choice s"
  show ?case
  proof (cases "st_total_entries s > st_max_entries s \<and> ?k \<noteq> []")
    case False
    have "entry_count s = min (entry_count s) (unat (st_max_entries s))"
      if h: "find_entry hash s [] = None" "entry_count s < 2 ^ 64"
    proof (cases "st_total_entries s > st_max_entries s")
      case True
      with False have "eviction_choice s = []" by simp
      then have "entry_count s = 0"
        using SelectVictimKey_none [OF less.prems h(1)] segments_cover [of s]
        by (auto simp: eviction_choice_def split: if_splits)
      then show ?thesis by simp
    next
      case False
      then show ?thesis using total_exact [OF less.prems h(2)] by (simp add: word_less_nat_alt)
    qed
    with False less.prems show ?thesis by (subst evict_loop.simps) (auto simp: Let_def)
  next
    case True
    let ?s = "evict_victim hash ?k s"
    have "\<exists>b. ?k = SelectVictimKey b s" unfolding eviction_choice_def by metis
    with True less.prems obtain e where e: "find_entry hash s ?k = Some e"
      by (metis SelectVictimKey_found)
    have c: "Suc (entry_count ?s) = entry_count s"
      using count_evict_victim [OF less.prems e, of "\<lambda>_. True"] by simp
    have "\<exists>s'. evict_loop hash (st_total_entries ?s) ?s = Some s' \<and> store_inv hash s' \<and>
           contents hash s' \<subseteq>\<^sub>m contents hash ?s \<and> st_max_entries s' = st_max_entries ?s \<and>
           (find_entry hash ?s [] = None \<and> entry_count ?s < 2 ^ 64 \<longrightarrow>
              entry_count s' = min (entry_count ?s) (unat (st_max_entries ?s)))"
      using c less.prems by (intro less.hyps inv_pres) simp_all
    then obtain s' where s': "evict_loop hash (st_total_entries ?s) ?s = Some s'" "store_inv hash s'"
        "contents hash s' \<subseteq>\<^sub>m contents hash ?s" "st_max_entries s' = st_max_entries s"
        "find_entry hash ?s [] = None \<and> entry_count ?s < 2 ^ 64 \<longrightarrow>
           entry_count s' = min (entry_count ?s) (unat (st_max_entries s))" by auto
    have le: "contents hash ?s \<subseteq>\<^sub>m contents hash s"
      by (auto simp: contents_evict_victim [OF less.prems] map_le_def)
    have "entry_count s' = min (entry_count s) (unat (st_max_entries s))"
      if h: "find_entry hash s [] = None" "entry_count s < 2 ^ 64"
    proof -
      from True have "unat (st_max_entries s) < entry_count s"
        using total_exact [OF less.prems h(2)] by (simp add: word_less_nat_alt)
      moreover have "find_entry hash ?s [] = None" using h(1) by (simp add: find_evict_victim less.prems)
      ultimately show ?thesis using s'(5) c h(2) by simp
    qed
    with True s'(1-4) map_le_trans [OF s'(3) le] show ?thesis
      by (subst evict_loop.simps) (simp add: Let_def)
  qed
qed

section \<open>The whole enforcement pass\<close>

lemma count_SweepExpired_le:
  assumes "store_inv hash s"
  shows "count_entries P (SweepExpired now s) \<le> count_entries P s"
proof -
  have step: "count_entries P (sweep_stripe now i s) \<le> count_entries P s"
    if i: "i < length (st_stripes s)" for i s
  proof -
    let ?m = "filter (\<lambda>(k, e). \<not> IsExpired e now) (st_stripes s ! i)"
    have "count_stripe P ?m \<le> count_stripe P (st_stripes s ! i)"
      by (simp add: count_stripe_def filter_filter conj_commute [of "case _ of (k, e) \<Rightarrow> \<not> IsExpired e now"])
         (simp flip: filter_filter)
    moreover have "st_stripes (sweep_stripe now i s) = (st_stripes s)[i := ?m]"
      by (simp add: sweep_stripe_def expire_loop_result)
    ultimately show ?thesis using count_entries_replace [OF i, of "sweep_stripe now i s" ?m P] by linarith
  qed
  have "count_entries P (fold (sweep_stripe now) is s) \<le> count_entries P s"
    if "\<forall>i \<in> set is. i < length (st_stripes s)" for "is"
    using that
  proof (induction "is" arbitrary: s)
    case Nil
    then show ?case by simp
  next
    case (Cons i "is")
    then have "count_entries P (fold (sweep_stripe now) is (sweep_stripe now i s))
        \<le> count_entries P (sweep_stripe now i s)" by (intro Cons.IH) simp
    with step [of i s] Cons.prems show ?case by simp
  qed
  then show ?thesis by (simp add: SweepExpired_def)
qed

lemma EnforceCapacity_returns:
  assumes inv: "store_inv hash s"
  shows "\<exists>s'. EnforceCapacity hash now s = Some s' \<and> store_inv hash s' \<and>
           contents hash s' \<subseteq>\<^sub>m contents hash s \<and> st_max_entries s' = st_max_entries s \<and>
           (st_max_entries s = 0 \<or> st_total_entries s \<le> st_max_entries s \<longrightarrow> s' = s) \<and>
           (st_max_entries s \<noteq> 0 \<and> find_entry hash s [] = None \<and> entry_count s < 2 ^ 64 \<longrightarrow>
              entry_count s' \<le> unat (st_max_entries s))"
proof (cases "st_max_entries s = 0 \<or> st_total_entries s \<le> st_max_entries s")
  case True
  with inv total_exact [OF inv] show ?thesis
    by (auto simp: EnforceCapacity_def word_le_nat_alt)
next
  case False
  let ?s1 = "SweepExpired now s"
  have inv1: "store_inv hash ?s1" using inv by (rule inv_pres)
  have le1: "contents hash ?s1 \<subseteq>\<^sub>m contents hash s"
    by (simp add: contents_SweepExpired [OF inv] drop_expired_le)
  have ne1: "find_entry hash ?s1 [] = None" if "find_entry hash s [] = None"
    using that by (simp add: find_SweepExpired [OF inv])
  note c1 = count_SweepExpired_le [OF inv, of "\<lambda>_. True" now]
  show ?thesis
  proof (cases "st_total_entries ?s1 \<le> st_max_entries s")
    case True
    with False inv1 le1 total_exact [OF inv1] c1 show ?thesis
      by (auto simp: EnforceCapacity_def Let_def word_le_nat_alt)
  next
    case more: False
    obtain s2 where s2: "demote_loop hash (st_total_entries ?s1) (st_protected_entries ?s1) ?s1 =
        Some (st_total_entries s2, s2)" "store_inv hash s2" "contents hash s2 = contents hash ?s1"
        "entry_count s2 = entry_count ?s1" "st_max_entries s2 = st_max_entries s"
      using demote_loop_returns [OF inv1] by auto
    obtain s3 where s3: "evict_loop hash (st_total_entries s2) s2 = Some s3" "store_inv hash s3"
        "contents hash s3 \<subseteq>\<^sub>m contents hash s2" "st_max_entries s3 = st_max_entries s"
        "find_entry hash s2 [] = None \<and> entry_count s2 < 2 ^ 64 \<longrightarrow>
           entry_count s3 = min (entry_count s2) (unat (st_max_entries s))"
      using evict_loop_returns [OF s2(2)] s2(5) by auto
    have "find_entry hash s2 [] = None" if "find_entry hash s [] = None"
      using ne1 [OF that] s2(3) by (metis contents_None_iff)
    then have "entry_count s3 \<le> unat (st_max_entries s)"
      if "find_entry hash s [] = None" "entry_count s < 2 ^ 64"
      using that s3(5) s2(4) c1 by simp
    moreover have "contents hash s3 \<subseteq>\<^sub>m contents hash s"
      using s3(3) le1 unfolding s2(3) by (rule map_le_trans)
    ultimately show ?thesis using False more s2(1) s3(1,2,4) by (simp add: EnforceCapacity_def Let_def)
  qed
qed

section \<open>Protected entries\<close>

lemma entry_count_segments: "length (segment False s) + protected_count s = entry_count s"
proof -
  have "length (filter (\<lambda>(k, e). ve_in_protected_segment e = False) kes) +
      length (filter (\<lambda>(k, e). ve_in_protected_segment e) kes) = length kes"
    for kes :: "(string \<times> ValueEntry) list"
    by (induction kes) auto
  then show ?thesis by (simp add: segment_def count_entries_def)
qed

text \<open>As long as the protected entries fit, the eviction loop takes probationary ones only.\<close>

lemma evict_loop_keeps_protected:
  assumes "store_inv hash s" and "find_entry hash s [] = None" and "entry_count s < 2 ^ 64"
    and "protected_count s \<le> unat (st_max_entries s)"
    and "find_entry hash s h = Some e" and "ve_in_protected_segment e"
  shows "\<exists>s'. evict_loop hash (st_total_entries s) s = Some s' \<and> find_entry hash s' h = Some e"
  using assms
proof (induction "entry_count s" arbitrary: s rule: less_induct)
  case less
  let ?k = "eviction_choice s"
  show ?case
  proof (cases "st_total_entries s > st_max_entries s \<and> ?k \<noteq> []")
    case False
    with less.prems show ?thesis by (subst evict_loop.simps) (auto simp: Let_def)
  next
    case True
    then have "unat (st_max_entries s) < entry_count s"
      using total_exact [OF less.prems(1,3)] by (simp add: word_less_nat_alt)
    then have "segment False s \<noteq> []" using entry_count_segments [of s] less.prems(4) by auto
    then have k: "SelectVictimKey False s \<noteq> []" "?k = SelectVictimKey False s"
      using SelectVictimKey_none [OF less.prems(1,2), of False] by (auto simp: eviction_choice_def)
    then obtain v where v: "find_entry hash s ?k = Some v" "\<not> ve_in_protected_segment v"
      using SelectVictimKey_found [OF less.prems(1) k(1)] by auto
    let ?s = "evict_victim hash ?k s"
    have c: "Suc (entry_count ?s) = entry_count s" "protected_count ?s = protected_count s"
      using count_evict_victim [OF less.prems(1) v(1), of "\<lambda>_. True"]
        count_evict_victim [OF less.prems(1) v(1), of ve_in_protected_segment] v(2) by simp_all
    have f: "find_entry hash ?s h = Some e" "find_entry hash ?s [] = None"
      using v less.prems by (auto simp: find_evict_victim)
    have "\<exists>s'. evict_loop hash (st_total_entries ?s) ?s = Some s' \<and> find_entry hash s' h = Some e"
      by (rule less.hyps) (use c f less.prems in \<open>simp_all add: inv_pres\<close>)
    with True show ?thesis by (subst evict_loop.simps) (simp add: Let_def)
  qed
qed

lemma limit_le_max:
  assumes "store_inv hash s" and "st_max_entries s \<noteq> 0"
  shows "unat (st_protected_entries_limit s) \<le> unat (st_max_entries s)"
proof -
  have "(1 :: size_t) \<le> st_max_entries s" using assms(2)
    by (simp add: word_le_nat_alt Suc_le_eq unat_gt_0)
  moreover have "st_max_entries s div 2 \<le> st_max_entries s"
    by (simp add: word_le_nat_alt unat_div)
  ultimately have "max 1 (st_max_entries s div 2) \<le> st_max_entries s" by simp
  with assms show ?thesis by (simp add: store_inv_def word_le_nat_alt word_gt_0)
qed

lemma EnforceCapacity_keeps_protected:
  assumes inv: "store_inv hash s" and ne: "find_entry hash s [] = None"
    and n: "entry_count s < 2 ^ 64" and pc: "protected_count s \<le> unat (st_protected_entries_limit s)"
    and h: "find_entry hash s h = Some e" "ve_in_protected_segment e" "\<not> IsExpired e now"
  shows "\<exists>s'. EnforceCapacity hash now s = Some s' \<and> find_entry hash s' h = Some e"
proof (cases "st_max_entries s = 0 \<or> st_total_entries s \<le> st_max_entries s")
  case True
  with h show ?thesis by (auto simp: EnforceCapacity_def)
next
  case False
  let ?s = "SweepExpired now s"
  have inv1: "store_inv hash ?s" using inv by (rule inv_pres)
  have f1: "find_entry hash ?s h = Some e" "find_entry hash ?s [] = None"
    using h ne by (simp_all add: find_SweepExpired [OF inv])
  have lim: "st_protected_entries_limit ?s = st_protected_entries_limit s"
    using inv inv1 by (simp add: store_inv_def)
  have n1: "entry_count ?s < 2 ^ 64" and pc1: "protected_count ?s \<le> unat (st_protected_entries_limit s)"
    using n pc count_SweepExpired_le [OF inv, of _ now] by (meson order_le_less_trans order_trans)+
  have "unat (st_protected_entries ?s) \<le> protected_count ?s"
    using inv1 by (simp add: store_inv_def unat_of_nat)
  then have "demote_loop hash (st_total_entries ?s) (st_protected_entries ?s) ?s =
      Some (st_total_entries ?s, ?s)"
    using pc1 lim by (subst demote_loop.simps) (simp add: word_less_nat_alt)
  moreover obtain s' where "evict_loop hash (st_total_entries ?s) ?s = Some s'"
      "find_entry hash s' h = Some e"
    using evict_loop_keeps_protected [OF inv1 f1(2) n1 _ f1(1) h(2)] pc1
      limit_le_max [OF inv1] lim False by auto
  ultimately show ?thesis using f1(1) False by (simp add: EnforceCapacity_def Let_def)
qed

end
