(* ===== verification/Store_Spec.thy ===== *)
theory Store_Spec
  imports Store_Capacity
begin

text \<open>
  What the store promises. The abstract cache is a partial map from keys to values with an
  expiry; a \<open>Set\<close> may lose entries but never invents or changes one, a \<open>Get\<close> returns the
  live entry. Histories of operations are related to the map of the last writes. The
  locales \<open>lossy_cache\<close> and \<open>lossless_cache\<close> are the interface the command layer uses.
\<close>

section \<open>Set and Get refine the abstract cache\<close>

lemma count_set_locked_le:
  assumes inv: "store_inv hash s"
  shows "entry_count (set_locked hash k v x now s) \<le> Suc (entry_count s)"
proof -
  have "\<exists>e. st_stripes (set_locked hash k v x now s) =
      (st_stripes s)[StripeIndexForKey hash s k := AList.update k e (StripeFor hash s k)]"
    by (auto simp: set_locked_def put_stripe_def split: option.splits prod.splits)
  then obtain e where "st_stripes (set_locked hash k v x now s) =
      (st_stripes s)[StripeIndexForKey hash s k := AList.update k e (StripeFor hash s k)]" ..
  from count_entries_replace [OF stripe_of_key(1) [OF inv] this, folded StripeFor_def, of "\<lambda>_. True"]
  show ?thesis by (simp add: length_update split: if_splits)
qed

lemma Store_Set_returns:
  assumes inv: "store_inv hash s"
  shows "\<exists>s'. Store_Set hash k v ttl (t0, t1, t2) s = Some s' \<and> store_inv hash s' \<and>
           contents hash s' \<subseteq>\<^sub>m (contents hash s)(k \<mapsto> (v, expiry_of ttl t0)) \<and>
           st_max_entries s' = st_max_entries s \<and>
           (st_max_entries s = 0 \<longrightarrow>
              contents hash s' = (contents hash s)(k \<mapsto> (v, expiry_of ttl t0))) \<and>
           (st_max_entries s \<noteq> 0 \<and> k \<noteq> [] \<and> find_entry hash s [] = None \<and>
            Suc (entry_count s) < 2 ^ 64 \<longrightarrow> entry_count s' \<le> unat (st_max_entries s))"
proof -
  let ?s1 = "set_locked hash k v (expiry_of ttl t0) t1 s"
  have inv1: "store_inv hash ?s1" using inv by (rule inv_pres)
  have c1: "contents hash ?s1 = (contents hash s)(k \<mapsto> (v, expiry_of ttl t0))"
    using inv by (rule contents_set_locked)
  have ne: "find_entry hash ?s1 [] = None" if "k \<noteq> []" "find_entry hash s [] = None"
    using that c1 by (metis contents_None_iff fun_upd_other)
  obtain s' where s': "EnforceCapacity hash t2 ?s1 = Some s'" "store_inv hash s'"
      "contents hash s' \<subseteq>\<^sub>m contents hash ?s1" "st_max_entries s' = st_max_entries s"
      "st_max_entries s = 0 \<or> st_total_entries ?s1 \<le> st_max_entries s \<longrightarrow> s' = ?s1"
      "st_max_entries s \<noteq> 0 \<and> find_entry hash ?s1 [] = None \<and> entry_count ?s1 < 2 ^ 64 \<longrightarrow>
        entry_count s' \<le> unat (st_max_entries s)"
    using EnforceCapacity_returns [OF inv1, of t2] by auto
  then show ?thesis using c1 ne count_set_locked_le [OF inv, of k v "expiry_of ttl t0" t1]
    by (auto simp: Store_Set_def)
qed

lemma Store_Get_eq_locked: "Store_Get hash k now s = get_locked hash k now s"
  by (simp add: Store_Get_def get_locked_def split: option.splits)

lemma store_inv_Store_Get [inv_pres]: "store_inv hash s \<Longrightarrow> store_inv hash (snd (Store_Get hash k now s))"
  by (simp add: Store_Get_eq_locked inv_pres)

lemma Store_Get_refines:
  assumes inv: "store_inv hash s"
  shows "fst (Store_Get hash k now s) = map_option fst (drop_expired now (contents hash s) k)"
    and "contents hash (snd (Store_Get hash k now s)) =
           (contents hash s)(k := drop_expired now (contents hash s) k)"
proof -
  have "fst (get_locked hash k now s) = map_option fst (drop_expired now (contents hash s) k) \<and>
      contents hash (snd (get_locked hash k now s)) =
        (contents hash s)(k := drop_expired now (contents hash s) k)"
  proof (cases "find_entry hash s k")
    case None
    then show ?thesis
      by (auto simp: get_locked_def find_entry_def contents_def drop_expired_def)
  next
    case (Some e)
    show ?thesis
    proof (cases "IsExpired e now")
      case True
      with find_get_locked_expired [OF inv Some True] Some show ?thesis
        by (auto simp: contents_def drop_expired_def dead_at_core)
    next
      case False
      from find_get_locked_live [OF inv Some False] obtain e' where
        "fst (get_locked hash k now s) = Some (ve_value e)"
        "find_entry hash (snd (get_locked hash k now s)) = (find_entry hash s)(k \<mapsto> e')"
        "core e' = core e" by (metis core_def)
      moreover have "fst (core e) = ve_value e" by (simp add: core_def)
      ultimately show ?thesis using False Some
        by (auto simp: contents_def drop_expired_def dead_at_core)
    qed
  qed
  then show "fst (Store_Get hash k now s) = map_option fst (drop_expired now (contents hash s) k)"
    and "contents hash (snd (Store_Get hash k now s)) =
           (contents hash s)(k := drop_expired now (contents hash s) k)"
    by (simp_all add: Store_Get_eq_locked)
qed

lemma frame_Store_Get [simp]:
  "st_max_entries (snd (Store_Get hash k now s)) = st_max_entries s"
  by (auto simp: Store_Get_eq_locked get_locked_def put_stripe_def split: option.splits prod.splits)

lemma entries_new_store [simp]: "entries (new_store n m) = []"
  by (simp add: entries_def new_store_def)

lemma store_inv_new_store [inv_pres]: "store_inv hash (new_store n m)"
  by (auto simp: store_inv_def placed_def umap_inv_def count_entries_def entries_def new_store_def
      nth_replicate unat_gt_0)

lemma contents_new_store [simp]: "contents hash (new_store n m) = Map.empty"
proof
  fix k
  have "find_entry hash (new_store n m) k = None"
    using entries_iff_find [OF store_inv_new_store [of hash n m], of k] by fastforce
  then show "contents hash (new_store n m) k = None" by (simp add: contents_def)
qed

section \<open>Histories\<close>

datatype store_op =
    OpSet string string "milliseconds option" "time_point \<times> time_point \<times> time_point"
  | OpGet string time_point

fun run_op :: "hasher \<Rightarrow> store_op \<Rightarrow> ConcurrentStore \<Rightarrow> ConcurrentStore option" where
  "run_op hash (OpSet k v ttl clock) s = Store_Set hash k v ttl clock s"
| "run_op hash (OpGet k now) s = Some (snd (Store_Get hash k now s))"

fun run_ops :: "hasher \<Rightarrow> store_op list \<Rightarrow> ConcurrentStore \<Rightarrow> ConcurrentStore option" where
  "run_ops hash [] s = Some s"
| "run_ops hash (op # ops) s =
     (case run_op hash op s of None \<Rightarrow> None | Some s' \<Rightarrow> run_ops hash ops s')"

text \<open>The last write of every key of a history, the reference the store is compared with.\<close>

fun note_write ::
  "store_op \<Rightarrow> (string \<rightharpoonup> string \<times> time_point option) \<Rightarrow> string \<rightharpoonup> string \<times> time_point option" where
  "note_write (OpSet k v ttl (t0, t1, t2)) W = W(k \<mapsto> (v, expiry_of ttl t0))"
| "note_write (OpGet k now) W = W"

definition last_writes :: "store_op list \<Rightarrow> string \<rightharpoonup> string \<times> time_point option" where
  "last_writes ops = fold note_write ops Map.empty"

lemma map_le_upd: "A \<subseteq>\<^sub>m B \<Longrightarrow> A(k \<mapsto> v) \<subseteq>\<^sub>m B(k \<mapsto> v)"
  by (auto simp: map_le_def)

lemma run_op_sound:
  assumes "store_inv hash s" and "contents hash s \<subseteq>\<^sub>m W"
  shows "\<exists>s'. run_op hash op s = Some s' \<and> store_inv hash s' \<and>
           contents hash s' \<subseteq>\<^sub>m note_write op W \<and> st_max_entries s' = st_max_entries s"
proof (cases op)
  case (OpSet k v ttl clock)
  obtain t0 t1 t2 where clock: "clock = (t0, t1, t2)" by (cases clock)
  from Store_Set_returns [OF assms(1), of k v ttl t0 t1 t2] obtain s' where
    "Store_Set hash k v ttl (t0, t1, t2) s = Some s'" "store_inv hash s'"
    "contents hash s' \<subseteq>\<^sub>m (contents hash s)(k \<mapsto> (v, expiry_of ttl t0))"
    "st_max_entries s' = st_max_entries s" by blast
  moreover note map_le_upd [OF assms(2), of k "(v, expiry_of ttl t0)"]
  ultimately show ?thesis by (auto simp: OpSet clock intro: map_le_trans)
next
  case (OpGet k now)
  have "(contents hash s)(k := drop_expired now (contents hash s) k) \<subseteq>\<^sub>m W"
    by (rule map_le_trans [OF _ assms(2)])
       (auto simp: map_le_def drop_expired_def split: option.splits if_splits)
  with assms(1) show ?thesis by (simp add: OpGet Store_Get_refines inv_pres)
qed

lemma run_ops_sound:
  assumes "store_inv hash s" and "contents hash s \<subseteq>\<^sub>m W"
  shows "\<exists>s'. run_ops hash ops s = Some s' \<and> store_inv hash s' \<and>
           contents hash s' \<subseteq>\<^sub>m fold note_write ops W \<and> st_max_entries s' = st_max_entries s"
  using assms
proof (induction ops arbitrary: s W)
  case Nil
  then show ?case by simp
next
  case (Cons op ops)
  from run_op_sound [OF Cons.prems] obtain s1 where s1: "run_op hash op s = Some s1"
    "store_inv hash s1" "contents hash s1 \<subseteq>\<^sub>m note_write op W" "st_max_entries s1 = st_max_entries s"
    by blast
  from Cons.IH [OF s1(2,3)] s1(1,4) show ?case by simp
qed

lemma run_ops_inv: "run_ops hash ops (new_store n m) = Some s \<Longrightarrow> store_inv hash s"
  using run_ops_sound [OF store_inv_new_store, of hash n m Map.empty ops] by auto

text \<open>Dropping what is dead at a later time hides an earlier removal of a dead entry.\<close>

lemma dead_at_mono: "dead_at t c \<Longrightarrow> t \<le> t' \<Longrightarrow> dead_at t' c"
  by (auto simp: dead_at_def split: option.splits)

lemma drop_expired_upd:
  "drop_expired now (C(k \<mapsto> c)) = (drop_expired now C)(k := if dead_at now c then None else Some c)"
  by (auto simp: drop_expired_def)

lemma drop_expired_absorb:
  "t \<le> now \<Longrightarrow> drop_expired now (C(k := drop_expired t C k)) = drop_expired now C"
  by (rule ext) (auto simp: drop_expired_def dead_at_mono split: option.splits)

fun read_time_le :: "time_point \<Rightarrow> store_op \<Rightarrow> bool" where
  "read_time_le now (OpSet k v ttl clock) = True"
| "read_time_le now (OpGet k t) = (t \<le> now)"

section \<open>Interface to the command layer\<close>

text \<open>
  The command layer stores without expiry. It relies on this much: a write returns, may
  forget other keys, but never makes a key hold a value that was not written to it; a read
  returns what is held and changes nothing that a later read can see.
\<close>

locale lossy_cache =
  fixes c_set :: "'clk \<Rightarrow> string \<Rightarrow> string \<Rightarrow> 's \<Rightarrow> 's option"
    and c_get :: "'t \<Rightarrow> string \<Rightarrow> 's \<Rightarrow> string option \<times> 's"
    and c_inv :: "'s \<Rightarrow> bool"
    and c_vals :: "'s \<Rightarrow> string \<rightharpoonup> string"
  assumes set_returns:
      "c_inv s \<Longrightarrow> \<exists>s'. c_set clk k v s = Some s' \<and> c_inv s' \<and> c_vals s' \<subseteq>\<^sub>m (c_vals s)(k \<mapsto> v)"
    and get_value: "c_inv s \<Longrightarrow> fst (c_get t k s) = c_vals s k"
    and get_inv: "c_inv s \<Longrightarrow> c_inv (snd (c_get t k s))"
    and get_vals: "c_inv s \<Longrightarrow> c_vals (snd (c_get t k s)) = c_vals s"
begin

lemma set_sound:
  "c_inv s \<Longrightarrow> c_set clk k v s = Some s' \<Longrightarrow> c_inv s' \<and> c_vals s' \<subseteq>\<^sub>m (c_vals s)(k \<mapsto> v)"
  using set_returns [of s clk k v] by auto

lemma set_then_get:
  assumes "c_inv s" and "c_set clk k v s = Some s'"
  shows "fst (c_get t k s') \<in> {None, Some v}"
    and "k' \<noteq> k \<Longrightarrow> fst (c_get t k' s') \<in> {None, c_vals s k'}"
  using set_sound [OF assms]
  by (auto simp: get_value map_le_def dom_def)

end

text \<open>A cache without a capacity bound forgets nothing.\<close>

locale lossless_cache = lossy_cache +
  assumes set_exact: "c_inv s \<Longrightarrow> c_set clk k v s = Some s' \<Longrightarrow> c_vals s' = (c_vals s)(k \<mapsto> v)"
begin

lemma set_total:
  "c_inv s \<Longrightarrow> \<exists>s'. c_set clk k v s = Some s' \<and> c_inv s' \<and> c_vals s' = (c_vals s)(k \<mapsto> v)"
  using set_returns [of s clk k v] set_exact by blast

lemma read_own_write: "c_inv s \<Longrightarrow> c_set clk k v s = Some s' \<Longrightarrow> fst (c_get t k s') = Some v"
  using set_total [of s clk k v] by (auto simp: get_value)

end

definition untimed :: "hasher \<Rightarrow> ConcurrentStore \<Rightarrow> bool" where
  "untimed hash s \<longleftrightarrow> (\<forall>k c. contents hash s k = Some c \<longrightarrow> snd c = None)"

definition held :: "hasher \<Rightarrow> ConcurrentStore \<Rightarrow> string \<rightharpoonup> string" where
  "held hash s = map_option fst \<circ> contents hash s"

definition server_store_inv :: "hasher \<Rightarrow> ConcurrentStore \<Rightarrow> bool" where
  "server_store_inv hash s \<longleftrightarrow> store_inv hash s \<and> untimed hash s"

lemma untimed_drop_expired: "untimed hash s \<Longrightarrow> drop_expired now (contents hash s) = contents hash s"
  by (rule ext) (auto simp: untimed_def drop_expired_def dead_at_def split: option.splits)

lemma held_le:
  assumes "contents hash s' \<subseteq>\<^sub>m (contents hash s)(k \<mapsto> (v, x))"
  shows "held hash s' \<subseteq>\<^sub>m (held hash s)(k \<mapsto> v)"
  unfolding map_le_def
proof
  fix a
  assume "a \<in> dom (held hash s')"
  then have "contents hash s' a = ((contents hash s)(k \<mapsto> (v, x))) a"
    using assms by (auto simp: held_def map_le_def)
  then show "held hash s' a = ((held hash s)(k \<mapsto> v)) a" by (auto simp: held_def)
qed

lemma untimed_le:
  assumes "untimed hash s" and "contents hash s' \<subseteq>\<^sub>m (contents hash s)(k \<mapsto> (v, None))"
  shows "untimed hash s'"
  unfolding untimed_def
proof (intro allI impI)
  fix a c
  assume c: "contents hash s' a = Some c"
  then have "contents hash s' a = ((contents hash s)(k \<mapsto> (v, None))) a"
    using assms(2) by (metis domI map_le_def)
  with c assms(1) show "snd c = None" by (cases c) (auto simp: untimed_def split: if_splits)
qed

interpretation bounded: lossy_cache
  "\<lambda>clock k v. Store_Set hash k v None clock" "\<lambda>now k. Store_Get hash k now"
  "server_store_inv hash" "held hash" for hash
proof
  fix s k v and clock :: "time_point \<times> time_point \<times> time_point" and now :: time_point
  assume inv: "server_store_inv hash s"
  then have si: "store_inv hash s" and un: "untimed hash s" by (auto simp: server_store_inv_def)
  obtain t0 t1 t2 where clock: "clock = (t0, t1, t2)" by (cases clock)
  from Store_Set_returns [OF si, of k v None t0 t1 t2] obtain s' where
    "Store_Set hash k v None clock s = Some s'" "store_inv hash s'"
    and le: "contents hash s' \<subseteq>\<^sub>m (contents hash s)(k \<mapsto> (v, None))"
    by (auto simp: clock expiry_of_def)
  then show "\<exists>s'. Store_Set hash k v None clock s = Some s' \<and> server_store_inv hash s' \<and>
      held hash s' \<subseteq>\<^sub>m (held hash s)(k \<mapsto> v)"
    using held_le [OF le] untimed_le [OF un le] by (auto simp: server_store_inv_def)
  have same: "contents hash (snd (Store_Get hash k now s)) = contents hash s"
    by (simp add: Store_Get_refines [OF si] untimed_drop_expired [OF un])
  show "fst (Store_Get hash k now s) = held hash s k"
    by (simp add: Store_Get_refines [OF si] untimed_drop_expired [OF un] held_def)
  show "server_store_inv hash (snd (Store_Get hash k now s))"
    using si un same by (simp add: server_store_inv_def untimed_def inv_pres)
  show "held hash (snd (Store_Get hash k now s)) = held hash s"
    by (simp add: held_def same)
qed

interpretation unbounded: lossless_cache
  "\<lambda>clock k v. Store_Set hash k v None clock" "\<lambda>now k. Store_Get hash k now"
  "\<lambda>s. server_store_inv hash s \<and> st_max_entries s = 0" "held hash" for hash
proof
  fix s k v and clock :: "time_point \<times> time_point \<times> time_point" and now :: time_point
  assume inv: "server_store_inv hash s \<and> st_max_entries s = 0"
  obtain t0 t1 t2 where clock: "clock = (t0, t1, t2)" by (cases clock)
  from Store_Set_returns [of hash s k v None t0 t1 t2] inv have frame:
    "st_max_entries s' = 0 \<and> contents hash s' = (contents hash s)(k \<mapsto> (v, None))"
    if "Store_Set hash k v None clock s = Some s'" for s'
    using that by (auto simp: clock expiry_of_def server_store_inv_def)
  from inv bounded.set_returns [of hash s k v clock] frame
  show "\<exists>s'. Store_Set hash k v None clock s = Some s' \<and>
      (server_store_inv hash s' \<and> st_max_entries s' = 0) \<and> held hash s' \<subseteq>\<^sub>m (held hash s)(k \<mapsto> v)"
    by blast
  show "held hash s' = (held hash s)(k \<mapsto> v)" if "Store_Set hash k v None clock s = Some s'" for s'
    using frame [OF that] by (auto simp: held_def)
qed (auto simp: bounded.get_value bounded.get_inv bounded.get_vals)

section \<open>Properties of the store\<close>

text \<open>
  C5: every history of \<open>Set\<close> and \<open>Get\<close> calls on a fresh store runs to its end (both loops
  of \<open>EnforceCapacity\<close> stop), and the state it reaches satisfies the representation
  invariant: keys are stored once, in the stripe their hash selects, the atomic counters are
  the numbers of entries and of protected entries modulo the counter width, and an entry is
  protected exactly when its count is at least 2.
\<close>

theorem store_histories_keep_invariant:
  "\<exists>s. run_ops hash ops (new_store stripes max_entries) = Some s \<and> store_inv hash s"
  using run_ops_sound [OF store_inv_new_store, of hash stripes max_entries Map.empty ops] by auto

text \<open>
  C4: a value returned by \<open>Get\<close> is the value of the last \<open>Set\<close> of that key in the history,
  and that write has not expired at the time of the \<open>Get\<close>: eviction and expiry lose entries
  but never resurrect or mix up values.
\<close>

theorem get_returns_last_write:
  assumes "run_ops hash ops (new_store stripes max_entries) = Some s"
    and "fst (Store_Get hash k now s) = Some v"
  shows "\<exists>x. last_writes ops k = Some (v, x) \<and> \<not> dead_at now (v, x)"
proof -
  from assms(1) have inv: "store_inv hash s" and le: "contents hash s \<subseteq>\<^sub>m last_writes ops"
    using run_ops_sound [OF store_inv_new_store, of hash stripes max_entries Map.empty ops]
    by (auto simp: last_writes_def)
  from assms(2) obtain c where c: "contents hash s k = Some c" "\<not> dead_at now c" "fst c = v"
    by (auto simp: Store_Get_refines [OF inv] drop_expired_def split: option.splits if_splits)
  with le have "last_writes ops k = Some c" by (metis domI map_le_def)
  with c show ?thesis by (cases c) auto
qed

theorem get_returns_last_write_witness:
  "run_ops (\<lambda>_. 0) [OpSet ''k'' ''v1'' None (0, 0, 0), OpSet ''k'' ''v2'' (Some 5) (1, 1, 1)]
     (new_store 2 3) \<noteq> None \<and>
   (\<exists>x. last_writes [OpSet ''k'' ''v1'' None (0, 0, 0), OpSet ''k'' ''v2'' (Some 5) (1, 1, 1)] ''k''
      = Some (''v2'', x) \<and> \<not> dead_at 7 (''v2'', x))"
proof -
  let ?ops = "[OpSet ''k'' ''v1'' None (0, 0, 0), OpSet ''k'' ''v2'' (Some 5) (1, 1, 1)]"
  let ?s = "the (run_ops (\<lambda>_. 0) ?ops (new_store 2 3))"
  have r: "run_ops (\<lambda>_. 0) ?ops (new_store 2 3) = Some ?s" by code_simp
  have g: "fst (Store_Get (\<lambda>_. 0) ''k'' 7 ?s) = Some ''v2''" by code_simp
  have "run_ops (\<lambda>_. 0) ?ops (new_store 2 3) \<noteq> None" by code_simp
  then show ?thesis using get_returns_last_write [OF r g] by (rule conjI)
qed

fun nonempty_key :: "store_op \<Rightarrow> bool" where
  "nonempty_key (OpSet k v ttl clock) = (k \<noteq> [])"
| "nonempty_key (OpGet k now) = True"

lemma count_Store_Get_le:
  assumes inv: "store_inv hash s"
  shows "entry_count (snd (Store_Get hash k now s)) \<le> entry_count s"
proof (cases "find_entry hash s k")
  case None
  then show ?thesis by (simp add: Store_Get_eq_locked get_locked_def find_entry_def)
next
  case (Some e)
  let ?m = "StripeFor hash s k"
  have mo: "map_of ?m k = Some e" using Some by (simp add: find_entry_def)
  then have k: "k \<in> fst ` set ?m" by (force dest: map_of_SomeD)
  let ?u = "if IsExpired e now then AList.delete k ?m
            else AList.update k (fst (TouchEntry e now (st_protected_entries s))) ?m"
  have "length ?u \<le> length ?m" using k by (simp add: length_update length_delete_le)
  moreover have "st_stripes (snd (get_locked hash k now s)) =
      (st_stripes s)[StripeIndexForKey hash s k := ?u]"
    using mo by (simp add: get_locked_def put_stripe_def split: prod.splits)
  ultimately obtain m where m: "st_stripes (snd (get_locked hash k now s)) =
      (st_stripes s)[StripeIndexForKey hash s k := m]" "length m \<le> length ?m" by blast
  from count_entries_replace [OF stripe_of_key(1) [OF inv] m(1), folded StripeFor_def, of "\<lambda>_. True"] m(2)
  show ?thesis by (simp add: Store_Get_eq_locked)
qed

lemma run_ops_bounded:
  assumes "store_inv hash s" and "find_entry hash s [] = None" and "list_all nonempty_key ops"
    and "st_max_entries s \<noteq> 0" and "Suc (unat (st_max_entries s)) < 2 ^ 64"
    and "entry_count s \<le> unat (st_max_entries s)"
  shows "\<exists>s'. run_ops hash ops s = Some s' \<and> entry_count s' \<le> unat (st_max_entries s)"
  using assms
proof (induction ops arbitrary: s)
  case Nil
  then show ?case by simp
next
  case (Cons op ops)
  have "\<exists>s1. run_op hash op s = Some s1 \<and> store_inv hash s1 \<and> find_entry hash s1 [] = None \<and>
      st_max_entries s1 = st_max_entries s \<and> entry_count s1 \<le> unat (st_max_entries s)"
  proof (cases op)
    case (OpSet k v ttl clock)
    obtain t0 t1 t2 where clock: "clock = (t0, t1, t2)" by (cases clock)
    from Store_Set_returns [OF Cons.prems(1), of k v ttl t0 t1 t2] Cons.prems obtain s1 where s1:
      "Store_Set hash k v ttl clock s = Some s1" "store_inv hash s1"
      "contents hash s1 \<subseteq>\<^sub>m (contents hash s)(k \<mapsto> (v, expiry_of ttl t0))"
      "st_max_entries s1 = st_max_entries s" "entry_count s1 \<le> unat (st_max_entries s)"
      by (auto simp: OpSet clock)
    have "contents hash s1 [] = None"
    proof (rule ccontr)
      assume "contents hash s1 [] \<noteq> None"
      then have "contents hash s1 [] = ((contents hash s)(k \<mapsto> (v, expiry_of ttl t0))) []"
        using s1(3) by (metis domIff map_le_def)
      with \<open>contents hash s1 [] \<noteq> None\<close> have "contents hash s [] \<noteq> None"
        using Cons.prems(3) by (auto simp: OpSet split: if_splits)
      with Cons.prems(2) show False by (simp add: contents_None_iff)
    qed
    with s1 show ?thesis by (simp add: OpSet contents_None_iff)
  next
    case (OpGet k now)
    have "contents hash (snd (Store_Get hash k now s)) [] = None"
      using Cons.prems(1,2) contents_None_iff [of hash s "[]"]
      by (auto simp: Store_Get_refines drop_expired_def)
    with Cons.prems count_Store_Get_le [OF Cons.prems(1), of k now] show ?thesis
      by (simp add: OpGet inv_pres contents_None_iff)
  qed
  with Cons.IH Cons.prems(3,4,5) show ?case by fastforce
qed

text \<open>
  C6: a bounded store never holds more than \<open>max_entries\<close> entries after a \<open>Set\<close>, provided no
  key is empty (the command layer refuses empty keys) and the bound leaves the entry counter
  room for one more entry.
\<close>

theorem capacity_is_respected:
  assumes "list_all nonempty_key ops" and "max_entries \<noteq> 0" and "max_entries < 2 ^ 64 - 1"
  shows "\<exists>s. run_ops hash ops (new_store stripes max_entries) = Some s \<and>
           entry_count s \<le> unat max_entries"
proof -
  have m: "st_max_entries (new_store stripes max_entries) = max_entries" by (simp add: new_store_def)
  have "Suc (unat max_entries) < 2 ^ 64" using assms(3) by (simp add: word_less_nat_alt)
  moreover have "find_entry hash (new_store stripes max_entries) [] = None"
    using contents_None_iff [of hash "new_store stripes max_entries"] by simp
  ultimately show ?thesis
    using run_ops_bounded [OF store_inv_new_store, of hash stripes max_entries ops] assms(1,2) m
    by (simp add: count_entries_def)
qed

theorem capacity_is_respected_witness:
  "\<exists>s. run_ops (\<lambda>_. 0) [OpSet ''a'' ''1'' None (0, 0, 0), OpSet ''b'' ''2'' None (1, 1, 1),
       OpSet ''c'' ''3'' None (2, 2, 2)] (new_store 2 2) = Some s \<and> entry_count s \<le> 2"
  using capacity_is_respected [of "[OpSet ''a'' ''1'' None (0, 0, 0), OpSet ''b'' ''2'' None (1, 1, 1),
      OpSet ''c'' ''3'' None (2, 2, 2)]" 2 "\<lambda>_. 0" 2]
  by simp

text \<open>
  The restriction to non-empty keys matters. \<open>SelectVictim\<close> answers \<open>""\<close> both for "no
  candidate" and for a victim whose key is the empty string, so \<open>EnforceCapacity\<close> gives up
  when the empty key is the least entry: a store with room for one entry ends up with two.
\<close>

theorem empty_key_defeats_capacity:
  "map_option entry_count
     (run_ops (\<lambda>_. 0) [OpSet [] ''v'' None (0, 0, 0), OpSet ''a'' ''w'' None (1, 1, 1)] (new_store 4 1))
   = Some 2"
  by code_simp

text \<open>
  Taking the victim from the probationary segment first, and from the protected segment
  only when that is empty, takes the entry of least score among all entries of the store.
\<close>

theorem eviction_takes_least_entry:
  assumes "store_inv hash s" and "find_entry hash s [] = None"
  shows "eviction_choice s = SelectVictim (map candidate_of (entries s))"
  using assms by (rule eviction_choice_least)

lemma set_locked_new_counts:
  assumes inv: "store_inv hash s" and f: "find_entry hash s k = None"
  shows "protected_count (set_locked hash k v x now s) = protected_count s"
proof -
  let ?m = "StripeFor hash s k"
  let ?e = "\<lparr>ve_value = v, ve_expires_at = x, ve_lfu_count = 1, ve_last_touch_ns = ToNs now,
     ve_in_protected_segment = False\<rparr>"
  have mo: "map_of ?m k = None" using f by (simp add: find_entry_def)
  then have "st_stripes (set_locked hash k v x now s) =
      (st_stripes s)[StripeIndexForKey hash s k := AList.update k ?e ?m]"
    by (simp add: set_locked_def put_stripe_def)
  from count_entries_replace [OF stripe_of_key(1) [OF inv] this, folded StripeFor_def,
      of ve_in_protected_segment]
    count_update_new [OF mo, of "\<lambda>(k, e). ve_in_protected_segment e" ?e]
  show ?thesis by (simp add: count_stripe_def)
qed



theorem eviction_takes_least_entry_witness:
  "eviction_choice (the (run_ops (\<lambda>_. 0) [OpSet ''a'' ''1'' None (0, 0, 0), OpSet ''b'' ''2'' None (0, 0, 0),
     OpGet ''a'' 3] (new_store 2 3))) = ''b''"
proof -
  let ?h = "\<lambda>_. 0 :: size_t"
  let ?r = "run_ops ?h [OpSet ''a'' ''1'' None (0, 0, 0), OpSet ''b'' ''2'' None (0, 0, 0),
     OpGet ''a'' 3] (new_store 2 3)"
  have r: "?r = Some (the ?r)" by code_simp
  have inv: "store_inv ?h (the ?r)"
    by (rule run_ops_inv [OF r])
  have f: "find_entry ?h (the ?r) [] = None" by code_simp
  have "SelectVictim (map candidate_of (entries (the ?r))) = ''b''" by code_simp
  with eviction_takes_least_entry [OF inv f] show ?thesis by (rule trans)
qed

end
