(* ===== verification/Store_Threads.thy ===== *)
theory Store_Threads
  imports Store_Spec
begin

text \<open>
  The store of \<open>src/core/concurrent_store.cpp\<close> used by several threads. A thread runs \<open>Set\<close> or \<open>Get\<close>
  one step at a time: a step is the change of a stripe's map under the stripe's lock, one operation on
  an atomic counter, or one shared read of a stripe. While a thread still has counter operations of a
  locked section to do it holds the stripe's lock; the map is private to it, so the order of its change
  among these operations does not matter and the model does it first. The counters are shared by all
  stripes and other threads see them in every intermediate state.

  The sections' effect on the maps is that of the definitions in \<open>Concurrent_Store\<close>. With the counter
  operations that are still due added in, every step is a whole section or no change at all, so the
  invariant of the sequential store carries over.
\<close>

section \<open>Counter operations\<close>

datatype counter_op = Add_total | Sub_total | Add_protected | Sub_protected | Load_total | Load_protected

fun op_total :: "counter_op \<Rightarrow> size_t" where
  "op_total Add_total = 1"
| "op_total Sub_total = - 1"
| "op_total _ = 0"

fun op_protected :: "counter_op \<Rightarrow> size_t" where
  "op_protected Add_protected = 1"
| "op_protected Sub_protected = - 1"
| "op_protected _ = 0"

definition due_total :: "counter_op list \<Rightarrow> size_t" where
  "due_total ops = sum_list (map op_total ops)"

definition due_protected :: "counter_op list \<Rightarrow> size_t" where
  "due_protected ops = sum_list (map op_protected ops)"

text \<open>The counter operations of the code's blocks, in the order of the code.\<close>

definition touch_ops :: "ValueEntry \<Rightarrow> counter_op list" where
  "touch_ops entry =
     (let lfu_count = (if ve_lfu_count entry < 4294967295 then ve_lfu_count entry + 1 else ve_lfu_count entry)
      in if \<not> ve_in_protected_segment entry \<and> lfu_count \<ge> 2 then [Add_protected] else [])"

definition erase_ops :: "ValueEntry \<Rightarrow> counter_op list" where
  "erase_ops entry = (if ve_in_protected_segment entry then [Sub_protected] else []) @ [Sub_total]"

definition set_ops :: "hasher \<Rightarrow> string \<Rightarrow> ConcurrentStore \<Rightarrow> counter_op list" where
  "set_ops hash key s =
     (case map_of (StripeFor hash s key) key of Some entry \<Rightarrow> touch_ops entry | None \<Rightarrow> [Add_total])"

definition get_ops :: "hasher \<Rightarrow> string \<Rightarrow> time_point \<Rightarrow> ConcurrentStore \<Rightarrow> counter_op list" where
  "get_ops hash key now s =
     (case map_of (StripeFor hash s key) key of
        None \<Rightarrow> []
      | Some entry \<Rightarrow> if IsExpired entry now then erase_ops entry else touch_ops entry)"

definition sweep_ops :: "time_point \<Rightarrow> nat \<Rightarrow> ConcurrentStore \<Rightarrow> counter_op list" where
  "sweep_ops now i s =
     concat (map (\<lambda>(key, entry). if IsExpired entry now then erase_ops entry else []) (st_stripes s ! i))"

definition demote_ops :: "hasher \<Rightarrow> string \<Rightarrow> ConcurrentStore \<Rightarrow> counter_op list" where
  "demote_ops hash victim_key s =
     (case map_of (StripeFor hash s victim_key) victim_key of
        None \<Rightarrow> []
      | Some entry \<Rightarrow> if \<not> ve_in_protected_segment entry then [] else [Sub_protected]) @
     [Load_protected, Load_total]"

definition evict_ops :: "hasher \<Rightarrow> string \<Rightarrow> ConcurrentStore \<Rightarrow> counter_op list" where
  "evict_ops hash victim_key s =
     (case map_of (StripeFor hash s victim_key) victim_key of
        None \<Rightarrow> []
      | Some entry \<Rightarrow> erase_ops entry) @ [Load_total]"

section \<open>Threads\<close>

text \<open>The three calls of \<open>SelectVictimKey\<close>: in the first loop, and the two of the second.\<close>

datatype purpose = Demoting | Evicting | Evicting_protected

fun wanted :: "purpose \<Rightarrow> bool" where
  "wanted Demoting = True"
| "wanted Evicting = False"
| "wanted Evicting_protected = True"

text \<open>
  Where a thread is. \<open>Counting i ops pc\<close> holds the lock of stripe \<open>i\<close>, has the counter operations \<open>ops\<close>
  to do and goes on at \<open>pc\<close>; all other places hold no lock.
\<close>

datatype pc =
    Idle
  | Set_Locked string string "time_point option" time_point
  | Check
  | Sweep time_point nat
  | Reload
  | Reload_protected
  | Demote
  | Scan purpose nat "EvictionCandidate list"
  | Demote_victim string
  | Evict
  | Evict_victim string
  | Get_Shared string
  | Get_Locked string
  | Counting nat "counter_op list" pc

text \<open>\<open>th_total\<close> and \<open>th_protected\<close> are the local variables of \<open>EnforceCapacity\<close>.\<close>

record thread =
  th_pc :: pc
  th_total :: size_t
  th_protected :: size_t

datatype event = Wrote string string "time_point option" | Read string time_point "string option"

record threads_state =
  sy_store :: ConcurrentStore
  sy_threads :: "thread list"
  sy_trace :: "event list"

definition new_system :: "nat \<Rightarrow> size_t \<Rightarrow> size_t \<Rightarrow> threads_state" where
  "new_system n stripes max_entries =
     \<lparr>sy_store = new_store stripes max_entries,
      sy_threads = replicate n \<lparr>th_pc = Idle, th_total = 0, th_protected = 0\<rparr>, sy_trace = []\<rparr>"

fun held_stripe :: "pc \<Rightarrow> nat option" where
  "held_stripe (Counting i ops next) = Some i"
| "held_stripe _ = None"

definition locked :: "nat \<Rightarrow> threads_state \<Rightarrow> bool" where
  "locked i sys \<longleftrightarrow> list_ex (\<lambda>t. held_stripe (th_pc t) = Some i) (sy_threads sys)"

definition goto :: "nat \<Rightarrow> pc \<Rightarrow> threads_state \<Rightarrow> threads_state" where
  "goto n pc sys = sys\<lparr>sy_threads := (sy_threads sys)[n := (sy_threads sys ! n)\<lparr>th_pc := pc\<rparr>]\<rparr>"

definition record_event :: "event \<Rightarrow> threads_state \<Rightarrow> threads_state" where
  "record_event e sys = sys\<lparr>sy_trace := sy_trace sys @ [e]\<rparr>"

text \<open>A section under the lock of stripe \<open>i\<close>: the map is changed, the counter operations follow.\<close>

definition enter_section :: "nat \<Rightarrow> nat \<Rightarrow> (ConcurrentStore \<Rightarrow> ConcurrentStore)
    \<Rightarrow> (ConcurrentStore \<Rightarrow> counter_op list) \<Rightarrow> pc \<Rightarrow> threads_state \<Rightarrow> threads_state option" where
  "enter_section n i sect ops pc sys =
     (let s = sy_store sys in
      if locked i sys then None
      else Some (goto n (Counting i (ops s) pc) (sys\<lparr>sy_store := s\<lparr>st_stripes := st_stripes (sect s)\<rparr>\<rparr>)))"

fun do_counter_op :: "counter_op \<Rightarrow> nat \<Rightarrow> threads_state \<Rightarrow> threads_state" where
  "do_counter_op Load_total n sys =
     sys\<lparr>sy_threads := (sy_threads sys)[n := (sy_threads sys ! n)\<lparr>th_total := st_total_entries (sy_store sys)\<rparr>]\<rparr>"
| "do_counter_op Load_protected n sys =
     sys\<lparr>sy_threads := (sy_threads sys)[n := (sy_threads sys ! n)\<lparr>th_protected := st_protected_entries (sy_store sys)\<rparr>]\<rparr>"
| "do_counter_op op n sys =
     (let s = sy_store sys in
      sys\<lparr>sy_store := s\<lparr>st_total_entries := st_total_entries s + op_total op,
                       st_protected_entries := st_protected_entries s + op_protected op\<rparr>\<rparr>)"

text \<open>The end of a call of \<open>SelectVictimKey\<close>.\<close>

definition victim_chosen :: "purpose \<Rightarrow> string \<Rightarrow> pc" where
  "victim_chosen p victim_key =
     (case p of
        Demoting \<Rightarrow> if victim_key = [] then Evict else Demote_victim victim_key
      | Evicting \<Rightarrow> if victim_key = [] then Scan Evicting_protected 0 [] else Evict_victim victim_key
      | Evicting_protected \<Rightarrow> if victim_key = [] then Idle else Evict_victim victim_key)"

text \<open>
  The next step of thread \<open>n\<close>, with \<open>now\<close> the clock reading if the step takes one; \<^const>\<open>None\<close> if the
  thread is idle or waits for a lock.
\<close>

definition advance :: "hasher \<Rightarrow> time_point \<Rightarrow> nat \<Rightarrow> threads_state \<Rightarrow> threads_state option" where
  "advance hash now n sys =
     (let t = sy_threads sys ! n; s = sy_store sys; index = StripeIndexForKey hash s in
      case th_pc t of
        Idle \<Rightarrow> None
      | Set_Locked key val expires_at touched \<Rightarrow>
          map_option (record_event (Wrote key val expires_at))
            (enter_section n (index key) (set_locked hash key val expires_at touched) (set_ops hash key) Check sys)
      | Check \<Rightarrow>
          Some (if st_max_entries s = 0 then goto n Idle sys
                else if st_total_entries s \<le> st_max_entries s then goto n Idle sys
                else goto n (Sweep now 0) sys)
      | Sweep time i \<Rightarrow>
          if i < length (st_stripes s)
          then enter_section n i (sweep_stripe time i) (sweep_ops time i) (Sweep time (i + 1)) sys
          else Some (goto n Reload sys)
      | Reload \<Rightarrow>
          Some (let sys = do_counter_op Load_total n sys in
                if st_total_entries s \<le> st_max_entries s then goto n Idle sys else goto n Reload_protected sys)
      | Reload_protected \<Rightarrow> Some (goto n Demote (do_counter_op Load_protected n sys))
      | Demote \<Rightarrow>
          Some (if th_total t > st_max_entries s \<and> th_protected t > st_protected_entries_limit s
                then goto n (Scan Demoting 0 []) sys else goto n Evict sys)
      | Scan p i candidates \<Rightarrow>
          if i < length (st_stripes s) then
            (if locked i sys then None
             else Some (goto n (Scan p (i + 1) (candidates @ stripe_candidates (wanted p) (st_stripes s ! i))) sys))
          else Some (goto n (victim_chosen p (SelectVictim candidates)) sys)
      | Demote_victim victim_key \<Rightarrow>
          enter_section n (index victim_key) (demote_victim hash victim_key) (demote_ops hash victim_key) Demote sys
      | Evict \<Rightarrow> Some (if th_total t > st_max_entries s then goto n (Scan Evicting 0 []) sys else goto n Idle sys)
      | Evict_victim victim_key \<Rightarrow>
          enter_section n (index victim_key) (evict_victim hash victim_key) (evict_ops hash victim_key) Evict sys
      | Get_Shared key \<Rightarrow>
          if locked (index key) sys then None
          else Some (case map_of (StripeFor hash s key) key of
                       None \<Rightarrow> record_event (Read key now None) (goto n Idle sys)
                     | Some _ \<Rightarrow> goto n (Get_Locked key) sys)
      | Get_Locked key \<Rightarrow>
          map_option (record_event (Read key now (fst (get_locked hash key now s))))
            (enter_section n (index key) (\<lambda>s. snd (get_locked hash key now s)) (get_ops hash key now) Idle sys)
      | Counting i [] next \<Rightarrow> Some (goto n next sys)
      | Counting i (op # ops) next \<Rightarrow> Some (goto n (Counting i ops next) (do_counter_op op n sys)))"

text \<open>A step of the system: an idle thread starts a call, or a thread goes on.\<close>

inductive threads_step :: "hasher \<Rightarrow> threads_state \<Rightarrow> threads_state \<Rightarrow> bool" for hash where
  call_set: "n < length (sy_threads sys) \<Longrightarrow> th_pc (sy_threads sys ! n) = Idle \<Longrightarrow>
    threads_step hash sys (goto n (Set_Locked key val (expiry_of ttl t_expiry) t_touch) sys)"
| call_get: "n < length (sy_threads sys) \<Longrightarrow> th_pc (sy_threads sys ! n) = Idle \<Longrightarrow>
    threads_step hash sys (goto n (Get_Shared key) sys)"
| go_on: "n < length (sy_threads sys) \<Longrightarrow> advance hash now n sys = Some sys' \<Longrightarrow> threads_step hash sys sys'"

inductive threads_reachable :: "hasher \<Rightarrow> nat \<Rightarrow> size_t \<Rightarrow> size_t \<Rightarrow> threads_state \<Rightarrow> bool"
  for hash n stripes max_entries where
  initial: "threads_reachable hash n stripes max_entries (new_system n stripes max_entries)"
| step: "threads_reachable hash n stripes max_entries sys \<Longrightarrow> threads_step hash sys sys' \<Longrightarrow>
    threads_reachable hash n stripes max_entries sys'"

section \<open>Sections and their counter operations\<close>

definition shift :: "size_t \<Rightarrow> size_t \<Rightarrow> ConcurrentStore \<Rightarrow> ConcurrentStore" where
  "shift a b s = s\<lparr>st_total_entries := st_total_entries s + a, st_protected_entries := st_protected_entries s + b\<rparr>"

lemma shift_simps [simp]:
  "st_stripes (shift a b s) = st_stripes s" "st_max_entries (shift a b s) = st_max_entries s"
  "st_protected_entries_limit (shift a b s) = st_protected_entries_limit s"
  "st_total_entries (shift a b s) = st_total_entries s + a"
  "st_protected_entries (shift a b s) = st_protected_entries s + b"
  "shift 0 0 s = s" "shift c d (shift a b s) = shift (a + c) (b + d) s"
  "StripeFor hash (shift a b s) key = StripeFor hash s key"
  "StripeIndexForKey hash (shift a b s) key = StripeIndexForKey hash s key"
  "put_stripe hash key m (shift a b s) = shift a b (put_stripe hash key m s)"
  by (simp_all add: shift_def StripeFor_def StripeIndexForKey_def put_stripe_def add.assoc)

text \<open>
  What a locked section promises its callers: its counter operations account for what it does to the
  counters, it treats the counters by their differences only, and it keeps the invariant.
\<close>

locale locked_section =
  fixes sect :: "ConcurrentStore \<Rightarrow> ConcurrentStore"
    and ops :: "ConcurrentStore \<Rightarrow> counter_op list"
  assumes counted: "sect s = shift (due_total (ops s)) (due_protected (ops s)) (s\<lparr>st_stripes := st_stripes (sect s)\<rparr>)"
    and uniform: "sect (shift a b s) = shift a b (sect s)"
begin

text \<open>The map changed and the counter operations due: in effect the section is done.\<close>

lemma settles:
  "shift (a + due_total (ops s)) (b + due_protected (ops s)) (s\<lparr>st_stripes := st_stripes (sect s)\<rparr>) = sect (shift a b s)"
proof -
  have "shift (a + due_total (ops s)) (b + due_protected (ops s)) (s\<lparr>st_stripes := st_stripes (sect s)\<rparr>) =
      shift a b (shift (due_total (ops s)) (due_protected (ops s)) (s\<lparr>st_stripes := st_stripes (sect s)\<rparr>))"
    by (simp add: add.commute)
  also have "\<dots> = shift a b (sect s)" by (simp flip: counted)
  finally show ?thesis by (simp add: uniform)
qed

end

lemma due_simps [simp]:
  "due_total [] = 0" "due_total (op # ops) = op_total op + due_total ops"
  "due_protected [] = 0" "due_protected (op # ops) = op_protected op + due_protected ops"
  "due_total (ops @ ops') = due_total ops + due_total ops'"
  "due_protected (ops @ ops') = due_protected ops + due_protected ops'"
  by (simp_all add: due_total_def due_protected_def)

lemma due_touch_ops [simp]: "due_total (touch_ops entry) = 0"
  by (simp add: touch_ops_def Let_def)

lemma due_erase_ops [simp]:
  "due_total (erase_ops entry) = - 1"
  "due_protected (erase_ops entry) = (if ve_in_protected_segment entry then - 1 else 0)"
  by (simp_all add: erase_ops_def)

lemma TouchEntry_shift: "TouchEntry entry now p = (fst (TouchEntry entry now 0), p + due_protected (touch_ops entry))"
  by (simp add: TouchEntry_def touch_ops_def Let_def)

lemma touch_ops_written [simp]: "touch_ops (entry\<lparr>ve_value := v, ve_expires_at := x\<rparr>) = touch_ops entry"
  by (simp add: touch_ops_def)

lemma due_sweep_ops:
  "due_total (concat (map (\<lambda>(key, entry). if IsExpired entry now then erase_ops entry else []) m)) =
    of_nat (length (filter (\<lambda>(k, e). \<not> IsExpired e now) m)) - of_nat (length m)"
  "due_protected (concat (map (\<lambda>(key, entry). if IsExpired entry now then erase_ops entry else []) m)) =
    of_nat (count_stripe ve_in_protected_segment (filter (\<lambda>(k, e). \<not> IsExpired e now) m)) -
    of_nat (count_stripe ve_in_protected_segment m)"
  by (induction m) (auto simp: count_stripe_def)

interpretation set_section: locked_section "set_locked hash key val expires_at now" "set_ops hash key"
  for hash key val expires_at now
proof
  fix s a b
  show "set_locked hash key val expires_at now s =
      shift (due_total (set_ops hash key s)) (due_protected (set_ops hash key s))
        (s\<lparr>st_stripes := st_stripes (set_locked hash key val expires_at now s)\<rparr>)"
    by (cases "map_of (StripeFor hash s key) key")
      (simp_all add: set_locked_def set_ops_def TouchEntry_shift [of _ _ "st_protected_entries s"] put_stripe_def shift_def)
  show "set_locked hash key val expires_at now (shift a b s) = shift a b (set_locked hash key val expires_at now s)"
    by (cases "map_of (StripeFor hash s key) key")
      (auto simp: set_locked_def TouchEntry_shift [of _ _ "st_protected_entries s + b"]
        TouchEntry_shift [of _ _ "st_protected_entries s"] put_stripe_def intro!: ConcurrentStore.equality)
qed

interpretation get_section: locked_section "\<lambda>s. snd (get_locked hash key now s)" "get_ops hash key now"
  for hash key now
proof
  fix s a b
  show "snd (get_locked hash key now s) =
      shift (due_total (get_ops hash key now s)) (due_protected (get_ops hash key now s))
        (s\<lparr>st_stripes := st_stripes (snd (get_locked hash key now s))\<rparr>)"
    by (cases "map_of (StripeFor hash s key) key")
      (simp_all add: get_locked_def get_ops_def TouchEntry_shift [of _ _ "st_protected_entries s"] put_stripe_def shift_def)
  show "snd (get_locked hash key now (shift a b s)) = shift a b (snd (get_locked hash key now s))"
    by (cases "map_of (StripeFor hash s key) key")
      (auto simp: get_locked_def TouchEntry_shift [of _ _ "st_protected_entries s + b"]
        TouchEntry_shift [of _ _ "st_protected_entries s"] put_stripe_def intro!: ConcurrentStore.equality)
qed

interpretation sweep_section: locked_section "sweep_stripe now i" "sweep_ops now i" for now i
  by unfold_locales (simp_all add: sweep_stripe_def sweep_ops_def expire_loop_result due_sweep_ops shift_def)

interpretation demote_section: locked_section "demote_victim hash victim" "demote_ops hash victim" for hash victim
  by unfold_locales
    (auto simp: demote_victim_def demote_ops_def put_stripe_def intro!: ConcurrentStore.equality split: option.splits)

interpretation evict_section: locked_section "evict_victim hash victim" "evict_ops hash victim" for hash victim
  by unfold_locales
    (auto simp: evict_victim_def evict_ops_def put_stripe_def intro!: ConcurrentStore.equality split: option.splits)

section \<open>The store with the due operations done\<close>

fun due_ops :: "pc \<Rightarrow> counter_op list" where
  "due_ops (Counting i ops next) = ops @ due_ops next"
| "due_ops _ = []"

definition settled :: "threads_state \<Rightarrow> ConcurrentStore" where
  "settled sys =
     shift (\<Sum>t\<leftarrow>sy_threads sys. due_total (due_ops (th_pc t))) (\<Sum>t\<leftarrow>sy_threads sys. due_protected (due_ops (th_pc t)))
       (sy_store sys)"

lemma held_due: "held_stripe pc = None \<Longrightarrow> due_ops pc = []"
  by (cases pc) auto

lemma sum_list_replaced:
  "n < length xs \<Longrightarrow> (\<Sum>x\<leftarrow>xs[n := y]. f x) = (\<Sum>x\<leftarrow>xs. f x) - f (xs ! n) + f y" for f :: "'a \<Rightarrow> 'b :: ab_group_add"
  by (induction xs arbitrary: n) (auto simp: nth_Cons split: nat.splits)

lemma goto_simps [simp]:
  "sy_store (goto n pc sys) = sy_store sys" "sy_trace (goto n pc sys) = sy_trace sys"
  "length (sy_threads (goto n pc sys)) = length (sy_threads sys)"
  by (simp_all add: goto_def)

lemma settled_goto:
  assumes "n < length (sy_threads sys)"
  shows "settled (goto n pc sys) =
    shift (due_total (due_ops pc) - due_total (due_ops (th_pc (sy_threads sys ! n))))
      (due_protected (due_ops pc) - due_protected (due_ops (th_pc (sy_threads sys ! n)))) (settled sys)"
  using assms by (simp add: settled_def goto_def sum_list_replaced algebra_simps)

lemma settled_goto_free:
  assumes "n < length (sy_threads sys)" "due_ops (th_pc (sy_threads sys ! n)) = []" "due_ops pc = []"
  shows "settled (goto n pc sys) = settled sys"
  using settled_goto [OF assms(1)] assms(2,3) by simp

lemma settled_record [simp]: "settled (record_event e sys) = settled sys" "sy_trace (record_event e sys) = sy_trace sys @ [e]"
  "sy_threads (record_event e sys) = sy_threads sys"
  by (simp_all add: settled_def record_event_def)

lemma settled_stripes [simp]: "st_stripes (settled sys) = st_stripes (sy_store sys)"
  by (simp add: settled_def)

lemma do_counter_op_frame [simp]:
  "sy_trace (do_counter_op op n sys) = sy_trace sys" "length (sy_threads (do_counter_op op n sys)) = length (sy_threads sys)"
  by (cases op; simp add: Let_def)+

lemma do_counter_op_pc:
  "n < length (sy_threads sys) \<Longrightarrow> m < length (sy_threads sys) \<Longrightarrow>
    th_pc (sy_threads (do_counter_op op n sys) ! m) = th_pc (sy_threads sys ! m)"
  by (cases op; simp add: Let_def nth_list_update)

lemma settled_counter_op:
  "n < length (sy_threads sys) \<Longrightarrow> settled (do_counter_op op n sys) = shift (op_total op) (op_protected op) (settled sys)"
  by (cases op) (simp_all add: settled_def Let_def sum_list_replaced add.commute add.left_commute flip: shift_def)

context locked_section
begin

lemma enter_settled:
  assumes "n < length (sy_threads sys)" "held_stripe (th_pc (sy_threads sys ! n)) = None"
    and "enter_section n i sect ops pc sys = Some sys'" "due_ops pc = []"
  shows "settled sys' = sect (settled sys)" "sy_trace sys' = sy_trace sys"
proof -
  let ?s = "sy_store sys"
  let ?sys = "sys\<lparr>sy_store := ?s\<lparr>st_stripes := st_stripes (sect ?s)\<rparr>\<rparr>"
  have sys': "sys' = goto n (Counting i (ops ?s) pc) ?sys"
    using assms(3) by (auto simp: enter_section_def Let_def split: if_splits)
  then show "sy_trace sys' = sy_trace sys" by simp
  have "settled sys' = shift (due_total (ops ?s)) (due_protected (ops ?s)) (settled ?sys)"
    using settled_goto [of n ?sys "Counting i (ops ?s) pc"] assms(1,4) held_due [OF assms(2)] by (simp add: sys')
  also have "\<dots> = sect (settled sys)"
    using settles unfolding settled_def by simp
  finally show "settled sys' = sect (settled sys)" .
qed

end

text \<open>The blocks of code that run under a stripe's lock, and what they return to their callers.\<close>

datatype block =
    Set_block string string "time_point option" time_point
  | Get_block string time_point
  | Sweep_block time_point nat
  | Demote_block string
  | Evict_block string

fun run_block :: "hasher \<Rightarrow> block \<Rightarrow> ConcurrentStore \<Rightarrow> ConcurrentStore" where
  "run_block hash (Set_block key val expires_at now) s = set_locked hash key val expires_at now s"
| "run_block hash (Get_block key now) s = snd (get_locked hash key now s)"
| "run_block hash (Sweep_block now i) s = sweep_stripe now i s"
| "run_block hash (Demote_block victim_key) s = demote_victim hash victim_key s"
| "run_block hash (Evict_block victim_key) s = evict_victim hash victim_key s"

fun block_events :: "hasher \<Rightarrow> block \<Rightarrow> ConcurrentStore \<Rightarrow> event list" where
  "block_events hash (Set_block key val expires_at now) s = [Wrote key val expires_at]"
| "block_events hash (Get_block key now) s = [Read key now (fst (get_locked hash key now s))]"
| "block_events hash _ s = []"

fun block_fits :: "block \<Rightarrow> ConcurrentStore \<Rightarrow> bool" where
  "block_fits (Sweep_block now i) s \<longleftrightarrow> i < length (st_stripes s)"
| "block_fits _ s \<longleftrightarrow> True"

lemma get_result_shift: "fst (get_locked hash key now (shift a b s)) = fst (get_locked hash key now s)"
  by (cases "map_of (StripeFor hash s key) key")
    (auto simp: get_locked_def TouchEntry_shift [of _ _ "st_protected_entries s + b"]
      TouchEntry_shift [of _ _ "st_protected_entries s"])

lemma get_result_settled: "fst (get_locked hash key now (settled sys)) = fst (get_locked hash key now (sy_store sys))"
  by (simp add: settled_def get_result_shift)

text \<open>Every step is silent, the miss of a read, or one whole block on the settled store.\<close>

definition silent :: "threads_state \<Rightarrow> threads_state \<Rightarrow> bool" where
  "silent sys sys' \<longleftrightarrow> settled sys' = settled sys \<and>
     (sy_trace sys' = sy_trace sys \<or> (\<exists>key now. sy_trace sys' = sy_trace sys @ [Read key now None]))"

definition one_block :: "hasher \<Rightarrow> threads_state \<Rightarrow> threads_state \<Rightarrow> bool" where
  "one_block hash sys sys' \<longleftrightarrow> (\<exists>b. block_fits b (settled sys) \<and> settled sys' = run_block hash b (settled sys) \<and>
     sy_trace sys' = sy_trace sys @ block_events hash b (settled sys))"

lemma silent_goto:
  assumes "n < length (sy_threads sys)" "due_ops (th_pc (sy_threads sys ! n)) = []" "due_ops pc = []"
  shows "silent sys (goto n pc sys)" "silent sys (record_event (Read key now None) (goto n pc sys))"
  using settled_goto_free [OF assms] by (simp_all add: silent_def)

lemma silent_counter_op:
  assumes "n < length (sy_threads sys)" "th_pc (sy_threads sys ! n) = Counting i (op # ops) next"
  shows "silent sys (goto n (Counting i ops next) (do_counter_op op n sys))"
  using assms settled_goto [of n "do_counter_op op n sys" "Counting i ops next"]
  by (simp add: silent_def settled_counter_op do_counter_op_pc)

lemma silent_load:
  assumes "n < length (sy_threads sys)" "due_ops (th_pc (sy_threads sys ! n)) = []" "due_ops pc = []"
  shows "silent sys (goto n pc (do_counter_op Load_total n sys))" "silent sys (goto n pc (do_counter_op Load_protected n sys))"
  using assms settled_goto_free [of n "do_counter_op Load_total n sys" pc]
    settled_goto_free [of n "do_counter_op Load_protected n sys" pc]
  by (simp_all add: silent_def settled_counter_op do_counter_op_pc del: do_counter_op.simps)

lemma block_step:
  assumes "locked_section (run_block hash b) ops" "n < length (sy_threads sys)"
    "held_stripe (th_pc (sy_threads sys ! n)) = None" "enter_section n i (run_block hash b) ops pc sys = Some sys'"
    "due_ops pc = []" "block_fits b (settled sys)"
  shows "block_events hash b (settled sys) = [] \<Longrightarrow> one_block hash sys sys'"
    "block_events hash b (settled sys) = [e] \<Longrightarrow> one_block hash sys (record_event e sys')"
  using locked_section.enter_settled [OF assms(1-5)] assms(6) by (auto simp: one_block_def)

lemma run_block_fun:
  "run_block hash (Set_block key val expires_at now) = set_locked hash key val expires_at now"
  "run_block hash (Get_block key now) = (\<lambda>s. snd (get_locked hash key now s))"
  "run_block hash (Sweep_block now i) = sweep_stripe now i"
  "run_block hash (Demote_block victim_key) = demote_victim hash victim_key"
  "run_block hash (Evict_block victim_key) = evict_victim hash victim_key"
  by (simp_all add: fun_eq_iff)

lemma advance_cases:
  assumes n: "n < length (sy_threads sys)" and adv: "advance hash now n sys = Some sys'"
  shows "silent sys sys' \<or> one_block hash sys sys'"
proof -
  note adv' = adv [unfolded advance_def Let_def]
  note section_step = block_step [OF _ n]
  note go = silent_goto [OF n] and load = silent_load [OF n]
  show ?thesis
  proof (cases "th_pc (sy_threads sys ! n)")
    case (Set_Locked k v x t)
    then show ?thesis
      using adv' section_step(2) [of hash "Set_block k v x t" "set_ops hash k", unfolded run_block_fun] set_section.locked_section_axioms
      by (auto simp: Set_Locked)
  next
    case (Sweep t i)
    then show ?thesis
      using adv' section_step(1) [of hash "Sweep_block t i" "sweep_ops t i", unfolded run_block_fun] sweep_section.locked_section_axioms go
      by (auto simp: Sweep split: if_splits)
  next
    case (Demote_victim v)
    then show ?thesis
      using adv' section_step(1) [of hash "Demote_block v" "demote_ops hash v", unfolded run_block_fun] demote_section.locked_section_axioms
      by (auto simp: Demote_victim)
  next
    case (Evict_victim v)
    then show ?thesis
      using adv' section_step(1) [of hash "Evict_block v" "evict_ops hash v", unfolded run_block_fun] evict_section.locked_section_axioms
      by (auto simp: Evict_victim)
  next
    case (Get_Locked k)
    then show ?thesis
      using adv' section_step(2) [of hash "Get_block k now" "get_ops hash k now", unfolded run_block_fun] get_section.locked_section_axioms
      by (auto simp: Get_Locked get_result_settled)
  next
    case (Counting i ops pc)
    show ?thesis
    proof (cases ops)
      case Nil
      then show ?thesis using adv' settled_goto [OF n, of pc] by (auto simp: Counting silent_def)
    next
      case (Cons op ops')
      then show ?thesis using adv' silent_counter_op [OF n, of i op ops' pc] by (auto simp: Counting)
    qed
  next
    case (Get_Shared k)
    then show ?thesis using adv' go by (auto simp: Get_Shared split: if_splits option.splits)
  next
    case (Scan p i cs)
    have "due_ops (victim_chosen p v) = []" for v by (simp add: victim_chosen_def split: purpose.splits)
    then show ?thesis using adv' go by (auto simp: Scan split: if_splits)
  qed (use adv' go load in \<open>auto split: if_splits simp del: do_counter_op.simps\<close>)
qed

lemma threads_step_cases:
  assumes "threads_step hash sys sys'"
  shows "silent sys sys' \<or> one_block hash sys sys'"
  using assms by cases (auto simp: silent_goto advance_cases)

section \<open>Invariant\<close>

text \<open>The last write of every key in a sequence of events.\<close>

fun note_event :: "event \<Rightarrow> (string \<rightharpoonup> string \<times> time_point option) \<Rightarrow> string \<rightharpoonup> string \<times> time_point option" where
  "note_event (Wrote k v x) W = W(k \<mapsto> (v, x))"
| "note_event (Read k now r) W = W"

definition written :: "event list \<Rightarrow> string \<rightharpoonup> string \<times> time_point option" where
  "written trace = fold note_event trace Map.empty"

text \<open>A read that hits returns the last value written before it, and that value has not expired.\<close>

definition reads_ok :: "event list \<Rightarrow> bool" where
  "reads_ok trace \<longleftrightarrow> (\<forall>before k now v after. trace = before @ Read k now (Some v) # after \<longrightarrow>
     (\<exists>x. written before k = Some (v, x) \<and> \<not> dead_at now (v, x)))"

definition threads_inv :: "hasher \<Rightarrow> threads_state \<Rightarrow> bool" where
  "threads_inv hash sys \<longleftrightarrow> store_inv hash (settled sys) \<and>
     contents hash (settled sys) \<subseteq>\<^sub>m written (sy_trace sys) \<and> reads_ok (sy_trace sys)"

lemma written_simps [simp]:
  "written [] = Map.empty" "written (trace @ [Wrote k v x]) = (written trace)(k \<mapsto> (v, x))"
  "written (trace @ [Read k now r]) = written trace"
  by (simp_all add: written_def)

lemma reads_ok_snoc:
  assumes "reads_ok trace" "\<And>k now v. e = Read k now (Some v) \<Longrightarrow> \<exists>x. written trace k = Some (v, x) \<and> \<not> dead_at now (v, x)"
  shows "reads_ok (trace @ [e])"
  unfolding reads_ok_def
proof (intro allI impI)
  fix pre k now v post
  assume split: "trace @ [e] = pre @ Read k now (Some v) # post"
  show "\<exists>x. written pre k = Some (v, x) \<and> \<not> dead_at now (v, x)"
  proof (cases post rule: rev_cases)
    case Nil
    then show ?thesis using split assms(2) by simp
  next
    case (snoc ys y)
    then have "trace = pre @ Read k now (Some v) # ys" using split by simp
    then show ?thesis using assms(1) by (auto simp: reads_ok_def)
  qed
qed

lemma store_inv_run_block [inv_pres]:
  "store_inv hash s \<Longrightarrow> block_fits b s \<Longrightarrow> store_inv hash (run_block hash b s)"
  by (cases b) (simp_all add: inv_pres)

text \<open>What the blocks do to the contents: \<open>Set\<close> writes its key, all others at most drop entries.\<close>

lemma contents_get_locked:
  assumes "store_inv hash s"
  shows "fst (get_locked hash k now s) = map_option fst (drop_expired now (contents hash s) k)"
    "contents hash (snd (get_locked hash k now s)) \<subseteq>\<^sub>m contents hash s"
  using Store_Get_refines [OF assms, of k now] unfolding Store_Get_eq_locked
  by (auto simp: map_le_def drop_expired_def split: option.splits if_splits)

lemma contents_demote:
  assumes "store_inv hash s"
  shows "contents hash (demote_victim hash k s) = contents hash s"
proof (cases "\<exists>e. find_entry hash s k = Some e \<and> ve_in_protected_segment e")
  case True
  then show ?thesis using find_demote_victim [OF assms] by (auto simp: contents_def core_def fun_eq_iff)
next
  case False
  then have "demote_victim hash k s = s"
    by (auto simp: demote_victim_def find_entry_def split: option.splits)
  then show ?thesis by simp
qed

lemma contents_run_block:
  assumes "store_inv hash s" "block_fits b s" "contents hash s \<subseteq>\<^sub>m W"
  shows "contents hash (run_block hash b s) \<subseteq>\<^sub>m fold note_event (block_events hash b s) W"
proof (cases b)
  case (Set_block k v x now)
  then show ?thesis using assms by (simp add: contents_set_locked map_le_upd)
next
  case (Get_block k now)
  then show ?thesis using contents_get_locked(2) [OF assms(1)] assms(3) by (auto intro: map_le_trans)
next
  case (Sweep_block now i)
  then have "contents hash (sweep_stripe now i s) \<subseteq>\<^sub>m contents hash s"
    using find_sweep_stripe [OF assms(1)] assms(2)
    by (auto simp: map_le_def contents_def split: option.splits if_splits)
  then show ?thesis using assms(3) Sweep_block by (auto intro: map_le_trans)
next
  case (Demote_block k)
  then show ?thesis using assms by (simp add: contents_demote)
next
  case (Evict_block k)
  then have "contents hash (evict_victim hash k s) \<subseteq>\<^sub>m contents hash s"
    using find_evict_victim [OF assms(1)] by (auto simp: map_le_def contents_def split: if_splits)
  then show ?thesis using assms(3) Evict_block by (auto intro: map_le_trans)
qed

lemma threads_inv_step:
  assumes "threads_step hash sys sys'" "threads_inv hash sys"
  shows "threads_inv hash sys'"
proof -
  have inv: "store_inv hash (settled sys)" "contents hash (settled sys) \<subseteq>\<^sub>m written (sy_trace sys)"
    "reads_ok (sy_trace sys)" using assms(2) by (simp_all add: threads_inv_def)
  consider "silent sys sys'" | "one_block hash sys sys'" using threads_step_cases [OF assms(1)] by blast
  then show ?thesis
  proof cases
    case 1
    then show ?thesis using inv reads_ok_snoc [OF inv(3)] by (fastforce simp: silent_def threads_inv_def)
  next
    case 2
    then obtain b where b: "block_fits b (settled sys)" "settled sys' = run_block hash b (settled sys)"
      "sy_trace sys' = sy_trace sys @ block_events hash b (settled sys)" by (auto simp: one_block_def)
    have "reads_ok (sy_trace sys')"
    proof (cases b)
      case (Get_block k now)
      have hit: "\<exists>x. written (sy_trace sys) k = Some (v, x) \<and> \<not> dead_at now (v, x)"
        if "fst (get_locked hash k now (settled sys)) = Some v" for v
        using that inv(2) unfolding contents_get_locked(1) [OF inv(1)]
        by (auto simp: drop_expired_def map_le_def dom_def split: option.splits if_splits)
      show ?thesis unfolding b(3) Get_block block_events.simps
        by (rule reads_ok_snoc [OF inv(3)]) (auto intro: hit)
    next
      case (Set_block k v x now)
      show ?thesis unfolding b(3) Set_block block_events.simps by (rule reads_ok_snoc [OF inv(3)]) simp
    qed (use inv(3) b(3) in simp_all)
    moreover have "contents hash (settled sys') \<subseteq>\<^sub>m written (sy_trace sys')"
      using contents_run_block [OF inv(1) b(1) inv(2)] b by (simp add: written_def)
    ultimately show ?thesis using store_inv_run_block [OF inv(1) b(1)] b(2) by (simp add: threads_inv_def)
  qed
qed

lemma settled_new [simp]: "settled (new_system n stripes m) = new_store stripes m"
  by (simp add: settled_def new_system_def sum_list_replicate)

lemma threads_inv_reachable: "threads_reachable hash n stripes m sys \<Longrightarrow> threads_inv hash sys"
proof (induction rule: threads_reachable.induct)
  case initial
  then show ?case by (simp add: threads_inv_def inv_pres reads_ok_def) (simp add: new_system_def)
qed (rule threads_inv_step)

section \<open>Locks\<close>

text \<open>A section goes on at a place that holds no lock.\<close>

fun releases :: "pc \<Rightarrow> bool" where
  "releases (Counting i ops next) \<longleftrightarrow> held_stripe next = None"
| "releases _ \<longleftrightarrow> True"

definition pcs :: "threads_state \<Rightarrow> pc list" where
  "pcs sys = map th_pc (sy_threads sys)"

definition locks_inv :: "pc list \<Rightarrow> bool" where
  "locks_inv ps \<longleftrightarrow> (\<forall>p \<in> set ps. releases p) \<and>
     (\<forall>n m i. n < length ps \<longrightarrow> m < length ps \<longrightarrow> held_stripe (ps ! n) = Some i \<longrightarrow> held_stripe (ps ! m) = Some i \<longrightarrow> n = m)"

lemma locked_iff: "locked i sys \<longleftrightarrow> (\<exists>p \<in> set (pcs sys). held_stripe p = Some i)"
  by (auto simp: locked_def pcs_def list_ex_iff)

lemma pcs_simps [simp]:
  "pcs (goto n pc sys) = (pcs sys)[n := pc]" "pcs (record_event e sys) = pcs sys" "pcs (sys\<lparr>sy_store := s\<rparr>) = pcs sys"
  by (simp_all add: pcs_def goto_def record_event_def map_update)

lemma pcs_counter_op [simp]: "pcs (do_counter_op op n sys) = pcs sys"
proof (rule nth_equalityI)
  show "length (pcs (do_counter_op op n sys)) = length (pcs sys)" by (simp add: pcs_def)
next
  fix m
  assume "m < length (pcs (do_counter_op op n sys))"
  then show "pcs (do_counter_op op n sys) ! m = pcs sys ! m"
    by (cases op; cases "n < length (sy_threads sys)"; cases "m = n"; simp add: pcs_def Let_def)
qed

lemma free_releases: "held_stripe p = None \<Longrightarrow> releases p"
  by (cases p) simp_all

text \<open>The new place of a thread that makes a step holds no lock, a free one, or the one it held.\<close>

lemma advance_pcs:
  assumes "advance hash now n sys = Some sys'" "releases (th_pc (sy_threads sys ! n))"
  shows "\<exists>p. pcs sys' = (pcs sys)[n := p] \<and> releases p \<and>
    (\<forall>i. held_stripe p = Some i \<longrightarrow> \<not> locked i sys \<or> held_stripe (th_pc (sy_threads sys ! n)) = Some i)"
proof (cases "th_pc (sy_threads sys ! n)")
  case (Counting i ops pc)
  then show ?thesis
    using assms free_releases by (cases ops) (fastforce simp: advance_def Let_def intro: exI [of _ pc])+
next
  case (Scan p i cs)
  have "held_stripe (victim_chosen p v) = None" "releases (victim_chosen p v)" for v
    by (simp_all add: victim_chosen_def split: purpose.splits)
  then show ?thesis using assms by (auto simp: advance_def Let_def Scan split: if_splits)
qed (use assms in \<open>auto simp: advance_def Let_def enter_section_def simp del: do_counter_op.simps
  split: if_splits option.splits\<close>)

lemma locks_inv_update:
  assumes "locks_inv ps" "releases p"
    and "\<And>i. held_stripe p = Some i \<Longrightarrow> (\<forall>q \<in> set ps. held_stripe q \<noteq> Some i) \<or> held_stripe (ps ! n) = Some i"
  shows "locks_inv (ps[n := p])"
proof (cases "n < length ps")
  case True
  have "releases q" if "q \<in> set (ps[n := p])" for q
    using that set_update_subset_insert [of ps n p] assms(1,2) by (auto simp: locks_inv_def)
  moreover have "a = b" if "a < length ps" "b < length ps" "held_stripe (ps[n := p] ! a) = Some i"
    "held_stripe (ps[n := p] ! b) = Some i" for a b i
    using that assms(1,3) True by (cases "a = n"; cases "b = n") (auto simp: locks_inv_def)
  ultimately show ?thesis by (auto simp: locks_inv_def)
qed (use assms(1) in \<open>simp add: list_update_beyond\<close>)

lemma locks_inv_step:
  assumes "threads_step hash sys sys'" "locks_inv (pcs sys)"
  shows "locks_inv (pcs sys')"
  using assms(1)
proof cases
  case (go_on n now)
  then have rel: "releases (th_pc (sy_threads sys ! n))" using assms(2) by (auto simp: locks_inv_def pcs_def)
  obtain p where p: "pcs sys' = (pcs sys)[n := p]" "releases p"
    "\<And>i. held_stripe p = Some i \<Longrightarrow> \<not> locked i sys \<or> held_stripe (th_pc (sy_threads sys ! n)) = Some i"
    using advance_pcs [OF go_on(2) rel] by blast
  have "locks_inv ((pcs sys)[n := p])"
    by (rule locks_inv_update [OF assms(2) p(2)]) (use p(3) go_on(1) in \<open>auto simp: locked_iff pcs_def\<close>)
  then show ?thesis by (simp add: p(1))
qed (auto intro: locks_inv_update [OF assms(2)])

lemma locks_inv_reachable: "threads_reachable hash n stripes m sys \<Longrightarrow> locks_inv (pcs sys)"
proof (induction rule: threads_reachable.induct)
  case initial
  then show ?case by (auto simp: new_system_def pcs_def locks_inv_def)
qed (rule locks_inv_step)

lemma settled_invariant: "threads_reachable hash n stripes m sys \<Longrightarrow> store_inv hash (settled sys)"
  using threads_inv_reachable by (simp add: threads_inv_def)

lemma settled_step:
  "threads_step hash sys sys' \<Longrightarrow> settled sys' = settled sys \<or> (\<exists>b. settled sys' = run_block hash b (settled sys))"
  using threads_step_cases by (force simp: silent_def one_block_def)

lemma settled_quiet:
  assumes "\<forall>t \<in> set (sy_threads sys). held_stripe (th_pc t) = None"
  shows "settled sys = sy_store sys"
proof -
  have "map (\<lambda>t. due_total (due_ops (th_pc t))) (sy_threads sys) = map (\<lambda>t. 0) (sy_threads sys)"
    "map (\<lambda>t. due_protected (due_ops (th_pc t))) (sy_threads sys) = map (\<lambda>t. 0) (sy_threads sys)"
    using assms by (auto simp: held_due)
  then show ?thesis unfolding settled_def by (simp only: sum_list_0) simp
qed

text \<open>A thread in a section never waits; any other thread waits only for a stripe that one of these holds.\<close>

lemma section_never_waits:
  "held_stripe (th_pc (sy_threads sys ! n)) = Some i \<Longrightarrow> advance hash now n sys \<noteq> None"
  by (cases "th_pc (sy_threads sys ! n)") (auto simp: advance_def Let_def split: list.splits)

lemma waits_for_holder:
  assumes "th_pc (sy_threads sys ! n) \<noteq> Idle" "advance hash now n sys = None"
  shows "\<exists>i. locked i sys"
  using assms
  by (cases "th_pc (sy_threads sys ! n)") (auto simp: advance_def Let_def enter_section_def split: if_splits list.splits)

section \<open>Schedules\<close>

text \<open>An executable form of the steps, for concrete runs.\<close>

datatype action = Call_Set string string "milliseconds option" time_point time_point | Call_Get string | Go time_point

fun act :: "hasher \<Rightarrow> nat \<times> action \<Rightarrow> threads_state \<Rightarrow> threads_state option" where
  "act hash (n, Call_Set key val ttl t_expiry t_touch) sys =
     (if n < length (sy_threads sys) \<and> th_pc (sy_threads sys ! n) = Idle
      then Some (goto n (Set_Locked key val (expiry_of ttl t_expiry) t_touch) sys) else None)"
| "act hash (n, Call_Get key) sys =
     (if n < length (sy_threads sys) \<and> th_pc (sy_threads sys ! n) = Idle then Some (goto n (Get_Shared key) sys) else None)"
| "act hash (n, Go now) sys = (if n < length (sy_threads sys) then advance hash now n sys else None)"

fun run_schedule :: "hasher \<Rightarrow> (nat \<times> action) list \<Rightarrow> threads_state \<Rightarrow> threads_state option" where
  "run_schedule hash [] sys = Some sys"
| "run_schedule hash (a # as) sys = (case act hash a sys of None \<Rightarrow> None | Some sys \<Rightarrow> run_schedule hash as sys)"

lemma act_step: "act hash a sys = Some sys' \<Longrightarrow> threads_step hash sys sys'"
  by (cases "(hash, a, sys)" rule: act.cases) (auto split: if_splits intro: threads_step.intros)

lemma run_schedule_reachable:
  "threads_reachable hash n stripes m sys \<Longrightarrow> run_schedule hash as sys = Some sys' \<Longrightarrow>
    threads_reachable hash n stripes m sys'"
proof (induction as arbitrary: sys)
  case (Cons a as)
  then obtain sys1 where sys1: "act hash a sys = Some sys1" "run_schedule hash as sys1 = Some sys'"
    by (auto split: option.splits)
  then show ?case using Cons.IH threads_reachable.step [OF Cons.prems(1) act_step] by blast
qed simp

lemmas schedule_reachable = run_schedule_reachable [OF threads_reachable.initial]

text \<open>
  A run of two threads on a store with one stripe and room for one entry: the second thread inserts
  its key while the first has its counter operation due, and evicts one of the two.
\<close>

definition sample_schedule :: "(nat \<times> action) list" where
  "sample_schedule = [(0, Call_Set ''a'' ''1'' None 0 0), (0, Go 0), (1, Call_Set ''b'' ''2'' None 1 1), (0, Go 0), (0, Go 0),
     (1, Go 0)]"

definition sample_schedule_end :: "(nat \<times> action) list" where
  "sample_schedule_end = [(0, Go 0)] @ replicate 17 (1, Go 2) @ [(0, Call_Get ''b'')] @ replicate 4 (0, Go 3)"

definition sample_state :: threads_state where
  "sample_state = the (run_schedule (\<lambda>_. 0) sample_schedule (new_system 2 1 1))"

definition sample_end :: threads_state where
  "sample_end = the (run_schedule (\<lambda>_. 0) (sample_schedule @ sample_schedule_end) (new_system 2 1 1))"

lemma sample_runs:
  "run_schedule (\<lambda>_. 0) sample_schedule (new_system 2 1 1) = Some sample_state"
  "run_schedule (\<lambda>_. 0) (sample_schedule @ sample_schedule_end) (new_system 2 1 1) = Some sample_end"
  by code_simp+

lemmas sample_reachable = sample_runs [THEN schedule_reachable]

section \<open>Properties\<close>



text \<open>
  C9: However the threads interleave, a \<open>Get\<close> that hits returns the value of the last locked write of its
  key before it, and that value has not expired at the time the read looked at.\<close>

theorem concurrent_reads_return_last_write:
  assumes "threads_reachable hash n stripes max_entries sys" "sy_trace sys = before @ Read k now (Some v) # after"
  shows "\<exists>x. written before k = Some (v, x) \<and> \<not> dead_at now (v, x)"
  using threads_inv_reachable [OF assms(1)] assms(2) by (auto simp: threads_inv_def reads_ok_def)

theorem concurrent_reads_return_last_write_witness:
  "\<exists>x. written [Wrote ''a'' ''1'' None, Wrote ''b'' ''2'' None] ''b'' = Some (''2'', x) \<and> \<not> dead_at 3 (''2'', x)"
proof -
  have "sy_trace sample_end = [Wrote ''a'' ''1'' None, Wrote ''b'' ''2'' None] @ Read ''b'' 3 (Some ''2'') # []" by code_simp
  from concurrent_reads_return_last_write [OF sample_reachable(2) this] show ?thesis .
qed

text \<open>
  C10: No deadlock: no two threads hold the same stripe, and a thread that cannot make its next step waits
  for a stripe whose holder can make one.\<close>

theorem store_never_deadlocks:
  assumes "threads_reachable hash N stripes max_entries sys" "n < length (sy_threads sys)"
    "th_pc (sy_threads sys ! n) \<noteq> Idle"
  shows "locks_inv (pcs sys) \<and> (advance hash now n sys \<noteq> None \<or>
    (\<exists>m < length (sy_threads sys). m \<noteq> n \<and> held_stripe (th_pc (sy_threads sys ! m)) \<noteq> None \<and> advance hash now m sys \<noteq> None))"
proof (cases "advance hash now n sys = None")
  case True
  then obtain i where "locked i sys" using waits_for_holder [OF assms(3)] by blast
  then obtain m where m: "m < length (sy_threads sys)" "held_stripe (th_pc (sy_threads sys ! m)) = Some i"
    by (auto simp: locked_def list_ex_iff in_set_conv_nth)
  then have "advance hash now m sys \<noteq> None" by (intro section_never_waits)
  moreover from this True have "m \<noteq> n" by auto
  moreover have "held_stripe (th_pc (sy_threads sys ! m)) \<noteq> None" by (simp add: m(2))
  ultimately show ?thesis using m(1) locks_inv_reachable [OF assms(1)] by blast
qed (use locks_inv_reachable [OF assms(1)] in blast)

definition waiting_state :: threads_state where
  "waiting_state = the (run_schedule (\<lambda>_. 0) [(0, Call_Set ''a'' ''1'' None 0 0), (0, Go 0), (1, Call_Get ''a'')] (new_system 2 1 1))"

theorem store_never_deadlocks_witness:
  "advance (\<lambda>_. 0) 0 1 waiting_state = None \<and>
   (\<exists>m < length (sy_threads waiting_state). m \<noteq> 1 \<and> held_stripe (th_pc (sy_threads waiting_state ! m)) \<noteq> None \<and>
      advance (\<lambda>_. 0) 0 m waiting_state \<noteq> None)"
proof -
  have "run_schedule (\<lambda>_. 0) [(0, Call_Set ''a'' ''1'' None 0 0), (0, Go 0), (1, Call_Get ''a'')] (new_system 2 1 1) =
    Some waiting_state" by code_simp
  note reach = schedule_reachable [OF this]
  have waits: "advance (\<lambda>_. 0) 0 1 waiting_state = None" by code_simp
  have "1 < length (sy_threads waiting_state)" "th_pc (sy_threads waiting_state ! 1) \<noteq> Idle" by code_simp+
  from store_never_deadlocks [OF reach this, of 0] waits show ?thesis by blast
qed

end
