(* ===== verification/Threads_Capacity.thy ===== *)
theory Threads_Capacity
  imports Store_Threads
begin

text \<open>
  The capacity of the store under concurrent use. While threads are inside \<open>Set\<close> the store may hold more
  entries than its limit. But as long as it does there is a thread on duty: one that will still look at
  the number of entries, or that is about to find a victim. A thread can give up only after it found no
  victim in two scans; the scans see the stripes at different times, and what they have seen may be
  outdated, but only by a thread that has inserted or demoted an entry meanwhile and so is on duty itself.
  Therefore the store is within its limit whenever all calls have returned.
\<close>

section \<open>Accounting for entries\<close>

definition subs :: "counter_op list \<Rightarrow> nat" where
  "subs ops = length (filter ((=) Sub_total) ops)"

definition due_subs :: "threads_state \<Rightarrow> nat" where
  "due_subs sys = (\<Sum>t\<leftarrow>sy_threads sys. subs (due_ops (th_pc t)))"

lemma subs_simps [simp]:
  "subs [] = 0" "subs (op # ops) = (if op = Sub_total then 1 else 0) + subs ops" "subs (ops @ ops') = subs ops + subs ops'"
  by (auto simp: subs_def)

lemma subs_block_ops [simp]: "subs (touch_ops e) = 0" "subs (erase_ops e) = 1"
  by (simp_all add: touch_ops_def erase_ops_def Let_def)

text \<open>What a section does to the number of entries: every erased entry has its decrement due.\<close>

lemma entry_count_put:
  assumes "store_inv hash s" "st_stripes s' = (st_stripes s)[StripeIndexForKey hash s k := m]"
  shows "entry_count s' + length (StripeFor hash s k) = entry_count s + length m"
  using count_entries_replace [OF stripe_of_key(1) [OF assms(1)] assms(2), of "\<lambda>_. True"] by (simp add: StripeFor_def)

lemma length_erased:
  assumes "store_inv hash s" "map_of (StripeFor hash s k) k = Some e"
  shows "length (AList.delete k (StripeFor hash s k)) + 1 = length (StripeFor hash s k)"
  using count_delete [OF stripe_of_key(2) [OF assms(1)] assms(2), of "\<lambda>_. True"] by simp

lemma length_replaced: "map_of m k = Some e \<Longrightarrow> length (AList.update k e' m) = length m"
  using count_update_old [of m k e "\<lambda>_. True" e'] by simp

lemma entry_count_set:
  assumes "store_inv hash s"
  shows "entry_count (set_locked hash k v x now s) + subs (set_ops hash k s) \<le> entry_count s + 1"
proof (cases "map_of (StripeFor hash s k) k")
  case None
  have "entry_count (set_locked hash k v x now s) + length (StripeFor hash s k) = entry_count s + (length (StripeFor hash s k) + 1)"
    using None count_update_new [OF None, of "\<lambda>_. True"]
    by (subst entry_count_put [OF assms]) (auto simp: set_locked_def put_stripe_def)
  then show ?thesis by (simp add: set_ops_def None)
next
  case (Some e)
  obtain e' p' where t: "TouchEntry (e\<lparr>ve_value := v, ve_expires_at := x\<rparr>) now (st_protected_entries s) = (e', p')" by fastforce
  have "entry_count (set_locked hash k v x now s) + length (StripeFor hash s k) =
      entry_count s + length (AList.update k e' (StripeFor hash s k))"
    using Some t by (intro entry_count_put [OF assms]) (simp add: set_locked_def put_stripe_def)
  then show ?thesis by (simp add: set_ops_def Some length_replaced [OF Some])
qed

lemma entry_count_get:
  assumes "store_inv hash s"
  shows "entry_count (snd (get_locked hash k now s)) + subs (get_ops hash k now s) = entry_count s"
proof (cases "map_of (StripeFor hash s k) k")
  case None
  then show ?thesis by (simp add: get_locked_def get_ops_def)
next
  case (Some e)
  show ?thesis
  proof (cases "IsExpired e now")
    case True
    then have "entry_count (snd (get_locked hash k now s)) + length (StripeFor hash s k) =
        entry_count s + length (AList.delete k (StripeFor hash s k))"
      using Some by (intro entry_count_put [OF assms]) (simp add: get_locked_def put_stripe_def)
    then show ?thesis using length_erased [OF assms Some] True by (simp add: get_ops_def Some)
  next
    case False
    then have "entry_count (snd (get_locked hash k now s)) + length (StripeFor hash s k) =
        entry_count s + length (AList.update k (fst (TouchEntry e now (st_protected_entries s))) (StripeFor hash s k))"
      using Some by (intro entry_count_put [OF assms]) (simp add: get_locked_def put_stripe_def split: prod.splits)
    then show ?thesis using False by (simp add: get_ops_def Some length_replaced [OF Some])
  qed
qed

lemma entry_count_evict:
  assumes "store_inv hash s"
  shows "entry_count (evict_victim hash k s) + subs (evict_ops hash k s) = entry_count s"
proof (cases "map_of (StripeFor hash s k) k")
  case (Some e)
  then have "entry_count (evict_victim hash k s) + length (StripeFor hash s k) =
      entry_count s + length (AList.delete k (StripeFor hash s k))"
    by (intro entry_count_put [OF assms]) (simp add: evict_victim_def put_stripe_def)
  then show ?thesis using length_erased [OF assms Some] by (simp add: evict_ops_def Some)
qed (simp add: evict_victim_def evict_ops_def)

lemma entry_count_demote:
  assumes "store_inv hash s"
  shows "entry_count (demote_victim hash k s) + subs (demote_ops hash k s) = entry_count s"
proof (cases "map_of (StripeFor hash s k) k")
  case (Some e)
  show ?thesis
  proof (cases "ve_in_protected_segment e")
    case True
    then have "entry_count (demote_victim hash k s) + length (StripeFor hash s k) =
        entry_count s + length (AList.update k (e\<lparr>ve_in_protected_segment := False, ve_lfu_count := 1\<rparr>) (StripeFor hash s k))"
      using Some by (intro entry_count_put [OF assms]) (simp add: demote_victim_def put_stripe_def)
    then show ?thesis using True by (simp add: demote_ops_def Some length_replaced [OF Some])
  qed (simp add: demote_victim_def demote_ops_def Some)
qed (simp add: demote_victim_def demote_ops_def)

lemma subs_sweep:
  "subs (concat (map (\<lambda>(k, e). if IsExpired e now then erase_ops e else []) m)) +
    length (filter (\<lambda>(k, e). \<not> IsExpired e now) m) = length m"
  by (induction m) auto

lemma entry_count_sweep:
  assumes "i < length (st_stripes s)"
  shows "entry_count (sweep_stripe now i s) + subs (sweep_ops now i s) = entry_count s"
proof -
  have "st_stripes (sweep_stripe now i s) = (st_stripes s)[i := filter (\<lambda>(k, e). \<not> IsExpired e now) (st_stripes s ! i)]"
    by (simp add: sweep_stripe_def expire_loop_result)
  from count_entries_replace [OF assms this, of "\<lambda>_. True"] show ?thesis
    using subs_sweep [of now "st_stripes s ! i"] by (simp add: sweep_ops_def)
qed

text \<open>The number of entries and the operations of a section do not depend on the counters.\<close>

lemma entry_count_stripes: "st_stripes s = st_stripes s' \<Longrightarrow> entry_count s = entry_count s'"
  by (simp add: count_entries_def entries_def)

lemma entry_count_shift [simp]: "entry_count (shift a b s) = entry_count s"
  by (rule entry_count_stripes) simp

lemma ops_shift [simp]:
  "set_ops hash k (shift a b s) = set_ops hash k s" "get_ops hash k now (shift a b s) = get_ops hash k now s"
  "sweep_ops now i (shift a b s) = sweep_ops now i s" "demote_ops hash k (shift a b s) = demote_ops hash k s"
  "evict_ops hash k (shift a b s) = evict_ops hash k s"
  by (simp_all add: set_ops_def get_ops_def sweep_ops_def demote_ops_def evict_ops_def)

lemma store_section_counts:
  assumes "store_inv hash (settled sys)"
  shows "entry_count (set_locked hash k v x now (sy_store sys)) + subs (set_ops hash k (sy_store sys)) \<le> entry_count (sy_store sys) + 1"
    "entry_count (snd (get_locked hash k now (sy_store sys))) + subs (get_ops hash k now (sy_store sys)) = entry_count (sy_store sys)"
    "entry_count (demote_victim hash k (sy_store sys)) + subs (demote_ops hash k (sy_store sys)) = entry_count (sy_store sys)"
    "entry_count (evict_victim hash k (sy_store sys)) + subs (evict_ops hash k (sy_store sys)) = entry_count (sy_store sys)"
  using entry_count_set [OF assms, of k v x now] entry_count_get [OF assms, of k now] entry_count_demote [OF assms, of k]
    entry_count_evict [OF assms, of k]
  unfolding settled_def
  by (simp_all add: set_section.uniform get_section.uniform demote_section.uniform evict_section.uniform)

text \<open>The entries and the decrements that are due are at most the writes so far.\<close>

definition accounted :: "threads_state \<Rightarrow> nat" where
  "accounted sys = entry_count (sy_store sys) + due_subs sys"

lemma accounted_goto:
  "n < length (sy_threads sys) \<Longrightarrow>
    accounted (goto n p sys) + subs (due_ops (th_pc (sy_threads sys ! n))) = accounted sys + subs (due_ops p)"
  using sum_list_replaced_nat [of n "sy_threads sys" "\<lambda>t. subs (due_ops (th_pc t))" "(sy_threads sys ! n)\<lparr>th_pc := p\<rparr>"]
  by (simp add: accounted_def due_subs_def goto_def)

lemma accounted_counter_op [simp]:
  assumes "n < length (sy_threads sys)"
  shows "accounted (do_counter_op op n sys) = accounted sys"
proof -
  have "map th_pc (sy_threads (do_counter_op op n sys)) = map th_pc (sy_threads sys)"
    using pcs_counter_op [of op n sys] by (simp add: pcs_def)
  then have "map (subs \<circ> due_ops) (map th_pc (sy_threads (do_counter_op op n sys))) = map (subs \<circ> due_ops) (map th_pc (sy_threads sys))"
    by (simp only:)
  moreover have "entry_count (sy_store (do_counter_op op n sys)) = entry_count (sy_store sys)"
    by (rule entry_count_stripes) (cases op; simp add: Let_def)
  ultimately show ?thesis by (simp add: accounted_def due_subs_def comp_def)
qed

lemma accounted_record [simp]: "accounted (record_event e sys) = accounted sys"
  by (simp add: accounted_def due_subs_def record_event_def)

lemma accounted_section:
  assumes "n < length (sy_threads sys)" "held_stripe (th_pc (sy_threads sys ! n)) = None" "due_ops p = []"
    and "enter_section n i sect ops p sys = Some sys'"
    and "entry_count (sect (sy_store sys)) + subs (ops (sy_store sys)) \<le> entry_count (sy_store sys) + c"
  shows "accounted sys' \<le> accounted sys + c" "sy_trace sys' = sy_trace sys"
proof -
  let ?s = "sy_store sys"
  let ?sys = "sys\<lparr>sy_store := ?s\<lparr>st_stripes := st_stripes (sect ?s)\<rparr>\<rparr>"
  have sys': "sys' = goto n (Counting i (ops ?s) p) ?sys"
    using assms(4) by (auto simp: enter_section_def Let_def split: if_splits)
  then show "sy_trace sys' = sy_trace sys" by simp
  have "entry_count (?s\<lparr>st_stripes := st_stripes (sect ?s)\<rparr>) = entry_count (sect ?s)" by (rule entry_count_stripes) simp
  then have "accounted ?sys + subs (ops ?s) \<le> accounted sys + c" using assms(5) by (simp add: accounted_def due_subs_def)
  then show "accounted sys' \<le> accounted sys + c"
    using accounted_goto [of n ?sys "Counting i (ops ?s) p"] assms(1,3) held_due [OF assms(2)] by (simp add: sys')
qed

lemma accounted_advance:
  assumes n: "n < length (sy_threads sys)" and inv: "store_inv hash (settled sys)"
    and adv: "advance hash now n sys = Some sys'"
  shows "accounted sys' + length (sy_trace sys) \<le> accounted sys + length (sy_trace sys')"
proof -
  note adv' = adv [unfolded advance_def Let_def]
  note counts = store_section_counts [OF inv]
  note sect = accounted_section [OF n] and go = accounted_goto [OF n]
  have go': "accounted (goto n p (do_counter_op op n sys)) + subs (due_ops (th_pc (sy_threads sys ! n))) =
      accounted sys + subs (due_ops p)" for p op
    using accounted_goto [of n "do_counter_op op n sys" p] n by (simp add: do_counter_op_pc)
  show ?thesis
  proof (cases "th_pc (sy_threads sys ! n)")
    case (Set_Locked k v x t)
    then obtain sys1 where e: "enter_section n (StripeIndexForKey hash (sy_store sys) k) (set_locked hash k v x t) (set_ops hash k) Check sys = Some sys1"
      "sys' = record_event (Wrote k v x) sys1" using adv' by auto
    show ?thesis using sect [OF _ _ e(1) counts(1)] by (simp add: e(2) Set_Locked)
  next
    case (Get_Locked k)
    then obtain sys1 where e: "enter_section n (StripeIndexForKey hash (sy_store sys) k) (\<lambda>s. snd (get_locked hash k now s)) (get_ops hash k now) Idle sys = Some sys1"
      "sys' = record_event (Read k now (fst (get_locked hash k now (sy_store sys)))) sys1" using adv' by auto
    show ?thesis using sect [OF _ _ e(1), of 0] counts(2) by (simp add: e(2) Get_Locked)
  next
    case (Sweep t i)
    show ?thesis
    proof (cases "i < length (st_stripes (sy_store sys))")
      case True
      then show ?thesis using adv' sect [of "Sweep t (Suc i)" i "sweep_stripe t i" "sweep_ops t i" sys' 0]
          entry_count_sweep [OF True, of t] by (simp add: Sweep)
    next
      case False
      then show ?thesis using adv' go [of Reload] by (auto simp: Sweep)
    qed
  next
    case (Demote_victim k)
    then show ?thesis using adv' sect [of Demote _ "demote_victim hash k" "demote_ops hash k" sys' 0] counts(3) by simp
  next
    case (Evict_victim k)
    then show ?thesis using adv' sect [of Evict _ "evict_victim hash k" "evict_ops hash k" sys' 0] counts(4) by simp
  next
    case (Counting i ops p)
    show ?thesis
    proof (cases ops)
      case Nil
      then show ?thesis using adv' go [of p] by (auto simp: Counting)
    next
      case (Cons op ops')
      then show ?thesis using adv' go' [of "Counting i ops' p" op] by (auto simp: Counting)
    qed
  next
    case (Scan p i cs)
    have "due_ops (victim_chosen p v) = []" for v by (simp add: victim_chosen_def split: purpose.splits)
    then show ?thesis using adv' go by (auto simp: Scan split: if_splits)
  qed (use adv' go go' in \<open>auto split: if_splits option.splits simp del: do_counter_op.simps\<close>)
qed

lemma accounted_reachable: "threads_reachable hash N stripes m sys \<Longrightarrow> accounted sys \<le> length (sy_trace sys)"
proof (induction rule: threads_reachable.induct)
  case initial
  then show ?case
    by (simp add: accounted_def due_subs_def new_system_def count_entries_def sum_list_replicate)
next
  case (step sys sys')
  from step.hyps(2) show ?case
  proof cases
    case (go_on n now)
    then show ?thesis
      using accounted_advance [OF go_on(1) settled_invariant [OF step.hyps(1)] go_on(2)] step.IH by linarith
  qed (use step.IH accounted_goto in \<open>fastforce+\<close>)
qed

section \<open>What follows a section\<close>

text \<open>Only \<open>Set\<close> increments the total, and it checks the capacity then; the two loops load the total.\<close>

fun pc_ok :: "pc \<Rightarrow> bool" where
  "pc_ok (Counting i ops next) \<longleftrightarrow>
     (Add_total \<in> set ops \<longrightarrow> next = Check) \<and> (Load_total \<in> set ops \<longrightarrow> next = Demote \<or> next = Evict) \<and> held_stripe next = None"
| "pc_ok _ \<longleftrightarrow> True"

lemma ops_have:
  "Add_total \<notin> set (touch_ops e)" "Load_total \<notin> set (touch_ops e)" "Add_total \<notin> set (erase_ops e)" "Load_total \<notin> set (erase_ops e)"
  "Load_total \<notin> set (set_ops hash k s)" "Add_total \<notin> set (get_ops hash k now s)" "Load_total \<notin> set (get_ops hash k now s)"
  "Add_total \<notin> set (sweep_ops now i s)" "Load_total \<notin> set (sweep_ops now i s)"
  "Add_total \<notin> set (demote_ops hash k s)" "Load_total \<in> set (demote_ops hash k s)"
  "Add_total \<notin> set (evict_ops hash k s)" "Load_total \<in> set (evict_ops hash k s)"
  by (auto simp: touch_ops_def erase_ops_def set_ops_def get_ops_def sweep_ops_def demote_ops_def evict_ops_def Let_def
    split: option.splits)

lemma free_pc_ok: "held_stripe p = None \<Longrightarrow> pc_ok p"
  by (cases p) simp_all

lemma advance_pc_ok:
  assumes "advance hash now n sys = Some sys'" "pc_ok (th_pc (sy_threads sys ! n))"
  shows "\<exists>p. pcs sys' = (pcs sys)[n := p] \<and> pc_ok p"
proof (cases "th_pc (sy_threads sys ! n)")
  case (Counting i ops pc)
  then show ?thesis
    using assms free_pc_ok by (cases ops) (fastforce simp: advance_def Let_def intro: exI [of _ pc])+
next
  case (Scan p i cs)
  have "pc_ok (victim_chosen p v)" for v by (simp add: victim_chosen_def split: purpose.splits)
  then show ?thesis using assms by (auto simp: advance_def Let_def Scan split: if_splits)
qed (use assms in \<open>auto simp: advance_def Let_def enter_section_def ops_have simp del: do_counter_op.simps
  split: if_splits option.splits\<close>)

lemma pc_ok_reachable: "threads_reachable hash N stripes m sys \<Longrightarrow> list_all pc_ok (pcs sys)"
proof (induction rule: threads_reachable.induct)
  case initial
  then show ?case by (auto simp: new_system_def pcs_def list_all_iff)
next
  case (step sys sys')
  have upd: "list_all pc_ok ((pcs sys)[n := p])" if "pc_ok p" for n p
    using step.IH that set_update_subset_insert [of "pcs sys" n p] by (auto simp: list_all_iff)
  from step.hyps(2) show ?case
  proof cases
    case (go_on n now)
    then have "pc_ok (th_pc (sy_threads sys ! n))" using step.IH by (auto simp: pcs_def list_all_iff)
    from advance_pc_ok [OF go_on(2) this] upd show ?thesis by auto
  qed (simp_all add: upd)
qed

section \<open>Threads on duty\<close>

definition all_protected :: "stripe \<Rightarrow> bool" where
  "all_protected m \<longleftrightarrow> (\<forall>(k, e) \<in> set m. ve_in_protected_segment e)"

text \<open>What the scans for a victim have found: a candidate, or a reason why there is none.\<close>

definition scan_sound :: "stripe list \<Rightarrow> purpose \<Rightarrow> nat \<Rightarrow> EvictionCandidate list \<Rightarrow> bool" where
  "scan_sound ss p i cs \<longleftrightarrow> cs \<noteq> [] \<and> [] \<notin> ec_key ` set cs \<or>
     cs = [] \<and> (case p of
        Demoting \<Rightarrow> True
      | Evicting \<Rightarrow> \<forall>j < length ss. j < i \<longrightarrow> all_protected (ss ! j)
      | Evicting_protected \<Rightarrow> \<forall>j < length ss. all_protected (ss ! j) \<and> (j < i \<longrightarrow> ss ! j = []))"

text \<open>\<open>over\<close> tells whether the total that the thread has loaded exceeds the limit.\<close>

fun on_duty :: "stripe list \<Rightarrow> bool \<Rightarrow> pc \<Rightarrow> bool" where
  "on_duty ss over Check = True"
| "on_duty ss over (Sweep time i) = True"
| "on_duty ss over Reload = True"
| "on_duty ss over Reload_protected = over"
| "on_duty ss over Demote = over"
| "on_duty ss over (Scan p i cs) = (over \<and> (p = Demoting \<or> scan_sound ss p i cs))"
| "on_duty ss over (Demote_victim k) = True"
| "on_duty ss over Evict = over"
| "on_duty ss over (Evict_victim k) = True"
| "on_duty ss over (Counting i ops next) = (Load_total \<in> set ops \<or> on_duty ss over next)"
| "on_duty ss over _ = False"

definition duty :: "threads_state \<Rightarrow> thread \<Rightarrow> bool" where
  "duty sys t \<longleftrightarrow> on_duty (st_stripes (sy_store sys)) (st_max_entries (sy_store sys) < th_total t) (th_pc t)"

definition watched :: "threads_state \<Rightarrow> bool" where
  "watched sys \<longleftrightarrow> (\<exists>t \<in> set (sy_threads sys). duty sys t)"

definition crowded :: "threads_state \<Rightarrow> bool" where
  "crowded sys \<longleftrightarrow> unat (st_max_entries (sy_store sys)) < entry_count (sy_store sys)"

text \<open>A thread that finds the total within the limit of a crowded store has overlooked an increment that is due.\<close>

lemma due_total_negative:
  "Add_total \<notin> set ops \<Longrightarrow> due_total ops = - of_nat (subs ops)"
proof (induction ops)
  case (Cons op ops)
  then show ?case by (cases op) auto
qed simp

lemma sum_due_negative:
  "\<forall>t \<in> set ts. Add_total \<notin> set (due_ops (th_pc t)) \<Longrightarrow>
    (\<Sum>t\<leftarrow>ts. due_total (due_ops (th_pc t))) = - of_nat (\<Sum>t\<leftarrow>ts. subs (due_ops (th_pc t)))"
  by (induction ts) (simp_all add: due_total_negative)

lemma overlooked_increment:
  assumes reach: "threads_reachable hash N stripes m sys" and short: "length (sy_trace sys) < 2 ^ 64"
    and crowded: "crowded sys" and within: "st_total_entries (sy_store sys) \<le> st_max_entries (sy_store sys)"
  shows "\<exists>t \<in> set (sy_threads sys). Add_total \<in> set (due_ops (th_pc t)) \<and> duty sys t"
proof -
  let ?s = "sy_store sys" and ?c = "entry_count (sy_store sys)"
  have "\<exists>t \<in> set (sy_threads sys). Add_total \<in> set (due_ops (th_pc t))"
  proof (rule ccontr)
    assume "\<not> ?thesis"
    then have "st_total_entries (settled sys) = st_total_entries ?s - of_nat (due_subs sys)"
      using sum_due_negative [of "sy_threads sys"] by (simp add: settled_def due_subs_def)
    moreover have "st_total_entries (settled sys) = of_nat ?c"
      using settled_invariant [OF reach] by (simp add: store_inv_def) (simp add: settled_def)
    ultimately have "st_total_entries ?s = of_nat (accounted sys)"
      by (simp add: accounted_def algebra_simps)
    moreover have "accounted sys < 2 ^ 64" using accounted_reachable [OF reach] short by linarith
    ultimately have "unat (st_total_entries ?s) = accounted sys" by (simp add: unat_of_nat take_bit_nat_eq_self)
    then show False using within crowded by (simp add: word_le_nat_alt crowded_def accounted_def)
  qed
  then obtain t where t: "t \<in> set (sy_threads sys)" "Add_total \<in> set (due_ops (th_pc t))" by blast
  moreover have "pc_ok (th_pc t)" using pc_ok_reachable [OF reach] t(1) by (auto simp: list_all_iff pcs_def)
  moreover have "due_ops p = []" if "held_stripe p = None" for p using held_due [OF that] .
  ultimately have "duty sys t" by (cases "th_pc t") (auto simp: duty_def)
  with t show ?thesis by blast
qed

section \<open>A crowded store is watched\<close>

text \<open>Threads that stand still stay on duty when no stripe changes, and under the changes of \<open>Get\<close>.\<close>

definition gentle :: "stripe list \<Rightarrow> stripe list \<Rightarrow> bool" where
  "gentle ss ss' \<longleftrightarrow> length ss' = length ss \<and> (\<forall>j < length ss. \<forall>(k, e') \<in> set (ss' ! j).
     \<exists>e. (k, e) \<in> set (ss ! j) \<and> (ve_in_protected_segment e \<longrightarrow> ve_in_protected_segment e'))"

lemma gentle_length: "gentle ss ss' \<Longrightarrow> length ss' = length ss"
  by (simp add: gentle_def)

lemma gentle_all_protected: "gentle ss ss' \<Longrightarrow> j < length ss \<Longrightarrow> all_protected (ss ! j) \<Longrightarrow> all_protected (ss' ! j)"
  by (fastforce simp: gentle_def all_protected_def)

lemma gentle_empty: "gentle ss ss' \<Longrightarrow> j < length ss \<Longrightarrow> ss ! j = [] \<Longrightarrow> ss' ! j = []"
  by (cases "ss' ! j") (fastforce simp: gentle_def)+

lemma gentle_scan: "gentle ss ss' \<Longrightarrow> scan_sound ss p i cs \<Longrightarrow> scan_sound ss' p i cs"
  using gentle_all_protected [of ss ss'] gentle_empty [of ss ss']
  by (cases p) (auto simp: scan_sound_def gentle_length)

lemma gentle_duty: "gentle ss ss' \<Longrightarrow> on_duty ss over p \<Longrightarrow> on_duty ss' over p"
  by (induction p) (auto intro: gentle_scan)

lemma gentle_refl: "gentle ss ss"
  by (auto simp: gentle_def)

lemma gentle_put:
  assumes "i < length ss" "\<And>k e'. (k, e') \<in> set m \<Longrightarrow> \<exists>e. (k, e) \<in> set (ss ! i) \<and> (ve_in_protected_segment e \<longrightarrow> ve_in_protected_segment e')"
  shows "gentle ss (ss[i := m])"
  unfolding gentle_def
proof (intro conjI allI impI ballI)
  fix j x
  assume "j < length ss" "x \<in> set (ss[i := m] ! j)"
  then show "case x of (k, e') \<Rightarrow> \<exists>e. (k, e) \<in> set (ss ! j) \<and> (ve_in_protected_segment e \<longrightarrow> ve_in_protected_segment e')"
    using assms by (cases x; cases "j = i") auto
qed simp

lemma gentle_get:
  assumes "store_inv hash s"
  shows "gentle (st_stripes s) (st_stripes (snd (get_locked hash k now s)))"
proof (cases "map_of (StripeFor hash s k) k")
  case None
  then show ?thesis by (simp add: get_locked_def gentle_refl)
next
  case (Some e)
  let ?m = "StripeFor hash s k" and ?i = "StripeIndexForKey hash s k"
  have e: "(k, e) \<in> set ?m" using Some by (rule map_of_SomeD)
  have d: "distinct (map fst ?m)" by (rule stripe_of_key(2) [OF assms])
  obtain e' p' where t: "TouchEntry e now (st_protected_entries s) = (e', p')" by fastforce
  then have "ve_in_protected_segment e \<longrightarrow> ve_in_protected_segment e'"
    by (auto simp: TouchEntry_def Let_def split: if_splits)
  moreover have "(k', f) \<in> set (AList.update k e' ?m) \<Longrightarrow> (k', f) = (k, e') \<or> (k', f) \<in> set ?m" for k' f
    by (auto simp: set_update_distinct [OF d])
  ultimately have "gentle (st_stripes s) ((st_stripes s)[?i := AList.update k e' ?m])"
    using e by (intro gentle_put [OF stripe_of_key(1) [OF assms]]) (fastforce simp: StripeFor_def)
  moreover have "gentle (st_stripes s) ((st_stripes s)[?i := AList.delete k ?m])"
    by (rule gentle_put [OF stripe_of_key(1) [OF assms]]) (auto simp: StripeFor_def set_delete)
  ultimately show ?thesis using Some t by (simp add: get_locked_def put_stripe_def)
qed

lemma watched_here:
  "n < length (sy_threads sys) \<Longrightarrow>
    on_duty (st_stripes (sy_store sys)) (st_max_entries (sy_store sys) < th_total (sy_threads sys ! n)) p \<Longrightarrow>
    watched (goto n p sys)"
  by (auto simp: watched_def duty_def goto_def set_update_memI intro!: bexI [of _ "(sy_threads sys ! n)\<lparr>th_pc := p\<rparr>"])

text \<open>A step of thread \<open>n\<close> that is gentle with the stripes: the other threads stay on duty.\<close>

definition gentle_step :: "nat \<Rightarrow> threads_state \<Rightarrow> threads_state \<Rightarrow> bool" where
  "gentle_step n sys sys' \<longleftrightarrow> gentle (st_stripes (sy_store sys)) (st_stripes (sy_store sys')) \<and>
     st_max_entries (sy_store sys') = st_max_entries (sy_store sys) \<and>
     length (sy_threads sys') = length (sy_threads sys) \<and>
     (\<forall>m < length (sy_threads sys). m \<noteq> n \<longrightarrow> sy_threads sys' ! m = sy_threads sys ! m)"

lemma other_on_duty:
  assumes "gentle_step n sys sys'" "t \<in> set (sy_threads sys)" "duty sys t" "t \<noteq> sy_threads sys ! n"
  shows "watched sys'"
proof -
  obtain m where m: "m < length (sy_threads sys)" "sy_threads sys ! m = t" using assms(2) by (auto simp: in_set_conv_nth)
  with assms(4) have "m \<noteq> n" by auto
  then have "t \<in> set (sy_threads sys')" using assms(1) m by (auto simp: gentle_step_def in_set_conv_nth)
  moreover have "duty sys' t" using assms(1,3) by (auto simp: gentle_step_def duty_def intro: gentle_duty)
  ultimately show ?thesis by (auto simp: watched_def)
qed

lemma watched_stays:
  assumes "gentle_step n sys sys'" "watched sys" "duty sys (sy_threads sys ! n) \<Longrightarrow> watched sys'"
  shows "watched sys'"
  using assms other_on_duty unfolding watched_def by metis

lemma gentle_step_goto: "gentle_step n sys (goto n p sys)" "gentle_step n sys (record_event e (goto n p sys))"
  by (simp_all add: gentle_step_def gentle_refl goto_def record_event_def)

lemma gentle_step_counter: "gentle_step n sys (goto n p (do_counter_op op n sys))"
  by (cases op) (simp_all add: gentle_step_def gentle_refl goto_def Let_def)

lemma candidates_none: "stripe_candidates False m = [] \<Longrightarrow> all_protected m"
  by (auto simp: stripe_candidates_def all_protected_def filter_empty_conv)

lemma candidates_none_protected: "stripe_candidates True m = [] \<Longrightarrow> all_protected m \<Longrightarrow> m = []"
  by (cases m) (auto simp: stripe_candidates_def all_protected_def filter_empty_conv)

lemma candidates_keys: "ec_key ` set (stripe_candidates b m) \<subseteq> fst ` set m"
  by (force simp: stripe_candidates_def)

lemma scan_next:
  assumes "scan_sound ss p i cs" "i < length ss" "[] \<notin> fst ` set (ss ! i)"
  shows "scan_sound ss p (i + 1) (cs @ stripe_candidates (wanted p) (ss ! i))"
proof (cases "cs @ stripe_candidates (wanted p) (ss ! i) = []")
  case False
  moreover have "[] \<notin> ec_key ` set (cs @ stripe_candidates (wanted p) (ss ! i))"
    using assms(1,3) candidates_keys [of "wanted p" "ss ! i"] by (auto simp: scan_sound_def)
  ultimately show ?thesis by (simp add: scan_sound_def)
next
  case True
  then show ?thesis
    using assms candidates_none [of "ss ! i"] candidates_none_protected [of "ss ! i"]
    by (cases p) (auto simp: scan_sound_def less_Suc_eq)
qed

lemma entry_count_empty: "\<forall>j < length (st_stripes s). st_stripes s ! j = [] \<Longrightarrow> entry_count s = 0"
  by (auto simp: count_entries_def entries_def in_set_conv_nth)

lemma scan_end:
  assumes "scan_sound (st_stripes s) p i cs" "length (st_stripes s) \<le> i" "0 < entry_count s"
  shows "on_duty (st_stripes s) True (victim_chosen p (SelectVictim cs))"
proof (cases "cs = []")
  case True
  then show ?thesis using assms entry_count_empty [of s]
    by (cases p) (auto simp: victim_chosen_def scan_sound_def)
next
  case False
  then have "SelectVictim cs \<noteq> []" using assms(1) slru.pick_null_iff [of cs] by (auto simp: scan_sound_def)
  then show ?thesis by (cases p) (auto simp: victim_chosen_def)
qed

lemma enter_section_pc:
  assumes "enter_section n i sect ops p sys = Some sys'" "n < length (sy_threads sys)"
    and "on_duty (st_stripes (sy_store sys')) (st_max_entries (sy_store sys) < th_total (sy_threads sys ! n))
      (Counting i (ops (sy_store sys)) p)"
  shows "watched sys'"
  using assms watched_here [of n "sys\<lparr>sy_store := (sy_store sys)\<lparr>st_stripes := st_stripes (sect (sy_store sys))\<rparr>\<rparr>"]
  by (auto simp: enter_section_def Let_def split: if_splits)

lemma watched_record [simp]: "watched (record_event e sys) = watched sys"
  by (simp add: watched_def duty_def record_event_def)

lemma watched_load:
  assumes reach: "threads_reachable hash N stripes m sys" and short: "length (sy_trace sys) < 2 ^ 64"
    and crowded: "crowded sys" and n: "n < length (sy_threads sys)" and add: "Add_total \<notin> set (due_ops (th_pc (sy_threads sys ! n)))"
    and over: "on_duty (st_stripes (sy_store sys)) True p"
  shows "st_total_entries (sy_store sys) \<le> st_max_entries (sy_store sys) \<Longrightarrow> watched (goto n q sys)"
    and "st_total_entries (sy_store sys) \<le> st_max_entries (sy_store sys) \<Longrightarrow> watched (goto n q (do_counter_op Load_total n sys))"
    and "\<not> st_total_entries (sy_store sys) \<le> st_max_entries (sy_store sys) \<Longrightarrow> watched (goto n p (do_counter_op Load_total n sys))"
proof -
  assume "st_total_entries (sy_store sys) \<le> st_max_entries (sy_store sys)"
  then obtain t where t: "t \<in> set (sy_threads sys)" "Add_total \<in> set (due_ops (th_pc t))" "duty sys t"
    using overlooked_increment [OF reach short crowded] by blast
  then have "t \<noteq> sy_threads sys ! n" using add by auto
  then show "watched (goto n q sys)" "watched (goto n q (do_counter_op Load_total n sys))"
    using other_on_duty [OF gentle_step_goto(1) t(1,3)] other_on_duty [OF gentle_step_counter t(1,3)] by blast+
next
  assume "\<not> st_total_entries (sy_store sys) \<le> st_max_entries (sy_store sys)"
  then show "watched (goto n p (do_counter_op Load_total n sys))"
    using n over by (intro watched_here) (simp_all add: not_le)
qed

text \<open>
  The cases of a step of the thread \<open>n\<close>: a move that keeps the duty it had, a round of a scan, the
  exclusive section of \<open>Get\<close>, and an operation on a counter.
\<close>

lemma watched_goto:
  assumes "n < length (sy_threads sys)" "crowded sys \<Longrightarrow> watched sys" "crowded (goto n p sys)"
    and "duty sys (sy_threads sys ! n) \<Longrightarrow>
      on_duty (st_stripes (sy_store sys)) (st_max_entries (sy_store sys) < th_total (sy_threads sys ! n)) p"
  shows "watched (goto n p sys)"
proof -
  have "watched sys" using assms(2,3) by (simp add: crowded_def)
  then show ?thesis using watched_stays [OF gentle_step_goto(1)] watched_here [OF assms(1)] assms(4) by blast
qed

lemma watched_scan:
  assumes keys: "\<forall>j < length (st_stripes (sy_store sys)). [] \<notin> fst ` set (st_stripes (sy_store sys) ! j)"
    and n: "n < length (sy_threads sys)" and adv: "advance hash now n sys = Some sys'"
    and IH: "crowded sys \<Longrightarrow> watched sys" and crowded: "crowded sys'" and pc: "th_pc (sy_threads sys ! n) = Scan p i cs"
  shows "watched sys'"
proof -
  note adv' = adv [unfolded advance_def Let_def]
  let ?ss = "st_stripes (sy_store sys)"
  show ?thesis
  proof (cases "i < length ?ss")
    case True
    then have sys': "sys' = goto n (Scan p (i + 1) (cs @ stripe_candidates (wanted p) (?ss ! i))) sys"
      using adv' by (auto simp: pc split: if_splits)
    show ?thesis unfolding sys'
      by (rule watched_goto [OF n IH crowded [unfolded sys']])
        (use scan_next [of ?ss p i cs] True keys in \<open>auto simp: duty_def pc\<close>)
  next
    case False
    then have sys': "sys' = goto n (victim_chosen p (SelectVictim cs)) sys" using adv' by (simp add: pc)
    have "0 < entry_count (sy_store sys)" using crowded by (auto simp: crowded_def sys')
    moreover have "on_duty ?ss True (victim_chosen Demoting v)" for v by (simp add: victim_chosen_def)
    ultimately have "on_duty ?ss True (victim_chosen p (SelectVictim cs))" if "p = Demoting \<or> scan_sound ?ss p i cs"
      using that scan_end [of "sy_store sys" p i cs] False by auto
    then show ?thesis unfolding sys' by (intro watched_goto [OF n IH crowded [unfolded sys']]) (auto simp: duty_def pc)
  qed
qed

lemma watched_get_locked:
  assumes reach: "threads_reachable hash N stripes m sys" and adv: "advance hash now n sys = Some sys'"
    and IH: "crowded sys \<Longrightarrow> watched sys" and crowded: "crowded sys'" and pc: "th_pc (sy_threads sys ! n) = Get_Locked k"
  shows "watched sys'"
proof -
  let ?s' = "snd (get_locked hash k now (sy_store sys))"
  obtain p where sys': "sys' = record_event (Read k now (fst (get_locked hash k now (sy_store sys))))
      (goto n p (sys\<lparr>sy_store := (sy_store sys)\<lparr>st_stripes := st_stripes ?s'\<rparr>\<rparr>))"
    using adv [unfolded advance_def Let_def] by (auto simp: pc enter_section_def Let_def split: if_splits)
  have "gentle (st_stripes (sy_store sys)) (st_stripes ?s')"
    using gentle_get [OF settled_invariant [OF reach], of k now] unfolding settled_def by (simp add: get_section.uniform)
  then have "gentle_step n sys sys'" by (simp add: sys' gentle_step_def goto_def record_event_def)
  moreover have "entry_count (sy_store sys') \<le> entry_count (sy_store sys)"
    using store_section_counts(2) [OF settled_invariant [OF reach], of k now]
      entry_count_stripes [of "sy_store sys'" ?s'] by (simp add: sys' record_event_def)
  then have "crowded sys" using crowded by (simp add: crowded_def sys' record_event_def)
  ultimately show ?thesis using watched_stays IH by (fastforce simp: duty_def pc)
qed

lemma watched_counting:
  assumes reach: "threads_reachable hash N stripes m sys" and short: "length (sy_trace sys) < 2 ^ 64"
    and n: "n < length (sy_threads sys)" and adv: "advance hash now n sys = Some sys'"
    and IH: "crowded sys \<Longrightarrow> watched sys" and crowded: "crowded sys'" and pc: "th_pc (sy_threads sys ! n) = Counting i ops p"
  shows "watched sys'"
proof (cases ops)
  case Nil
  then have sys': "sys' = goto n p sys" using adv by (simp add: advance_def Let_def pc)
  show ?thesis unfolding sys' by (rule watched_goto [OF n]) (use IH crowded sys' in \<open>simp_all add: duty_def pc Nil\<close>)
next
  case (Cons op ops')
  let ?ss = "st_stripes (sy_store sys)"
  have sys': "sys' = goto n (Counting i ops' p) (do_counter_op op n sys)" using adv Cons by (simp add: advance_def Let_def pc)
  have "st_stripes (sy_store sys') = ?ss" "st_max_entries (sy_store sys') = st_max_entries (sy_store sys)"
    by (cases op; simp add: sys' Let_def)+
  then have crowded': "crowded sys" using crowded entry_count_stripes by (metis crowded_def)
  show ?thesis
  proof (cases "op = Load_total")
    case True
    have "pc_ok (th_pc (sy_threads sys ! n))" using pc_ok_reachable [OF reach] n by (auto simp: list_all_iff pcs_def)
    then have p: "p = Demote \<or> p = Evict" "Add_total \<notin> set (due_ops (th_pc (sy_threads sys ! n)))"
      using True by (auto simp: pc Cons held_due)
    then have "on_duty ?ss True (Counting i ops' p)" by auto
    note load = watched_load [OF reach short crowded' n p(2) this]
    show ?thesis using load(2,3) unfolding sys' True by blast
  next
    case False
    show ?thesis unfolding sys'
      by (rule watched_stays [OF gentle_step_counter IH [OF crowded']], rule watched_here)
        (use n False in \<open>cases op; simp add: duty_def pc Cons Let_def\<close>)+
  qed
qed

lemma watched_advance:
  assumes reach: "threads_reachable hash N stripes m sys" and short: "length (sy_trace sys) < 2 ^ 64"
    and limit: "st_max_entries (sy_store sys) \<noteq> 0" and keys: "\<forall>j < length (st_stripes (sy_store sys)). [] \<notin> fst ` set (st_stripes (sy_store sys) ! j)"
    and n: "n < length (sy_threads sys)" and adv: "advance hash now n sys = Some sys'"
    and IH: "crowded sys \<Longrightarrow> watched sys" and crowded: "crowded sys'"
  shows "watched sys'"
proof -
  note adv' = adv [unfolded advance_def Let_def]
  let ?t = "sy_threads sys ! n" and ?ss = "st_stripes (sy_store sys)"
  have same: "crowded sys" if "sys' = goto n p sys" for p using that crowded by (simp add: crowded_def)
  have stays: "watched (goto n p sys)" if "crowded sys"
    "duty sys ?t \<Longrightarrow> on_duty ?ss (st_max_entries (sy_store sys) < th_total ?t) p" for p
    by (rule watched_goto [OF n _ _ that(2)]) (use IH that(1) in \<open>simp_all add: crowded_def\<close>)
  show ?thesis
  proof (cases "th_pc ?t")
    case Idle
    then show ?thesis using adv' by simp
  next
    case (Set_Locked k v x t)
    then obtain sys1 where "enter_section n (StripeIndexForKey hash (sy_store sys) k) (set_locked hash k v x t) (set_ops hash k) Check sys = Some sys1"
      "sys' = record_event (Wrote k v x) sys1" using adv' by auto
    then show ?thesis using enter_section_pc [OF _ n] by simp
  next
    case Check
    have "crowded sys" using adv' crowded by (auto simp: Check crowded_def split: if_splits)
    note load = watched_load [OF reach short this n, of Reload]
    show ?thesis using adv' limit load(1) watched_here [OF n, of "Sweep now 0"] by (auto simp: Check split: if_splits)
  next
    case (Sweep t i)
    then show ?thesis using adv' enter_section_pc [OF _ n] watched_here [OF n, of Reload]
      by (fastforce simp: Sweep split: if_splits)
  next
    case Reload
    have "crowded sys" using adv' crowded by (auto simp: Reload crowded_def split: if_splits)
    note load = watched_load [OF reach short this n, of Reload_protected]
    show ?thesis using adv' load(2,3) by (auto simp: Reload simp del: do_counter_op.simps split: if_splits)
  next
    case Reload_protected
    then have sys': "sys' = goto n Demote (do_counter_op Load_protected n sys)" using adv' by simp
    then have "crowded sys" using crowded by (simp add: crowded_def)
    from IH [OF this] show ?thesis unfolding sys'
      by (rule watched_stays [OF gentle_step_counter], intro watched_here) (use n in \<open>simp_all add: duty_def Reload_protected\<close>)
  next
    case Demote
    then show ?thesis using adv' stays same by (auto simp: Demote duty_def split: if_splits)
  next
    case (Scan p i cs)
    then show ?thesis using watched_scan [OF keys n adv IH crowded] by blast
  next
    case (Demote_victim k)
    then show ?thesis using adv' enter_section_pc [OF _ n] ops_have by fastforce
  next
    case Evict
    then show ?thesis using adv' stays same by (auto simp: duty_def scan_sound_def split: if_splits)
  next
    case (Evict_victim k)
    then show ?thesis using adv' enter_section_pc [OF _ n] ops_have by fastforce
  next
    case (Get_Shared k)
    have "crowded (record_event e sys0) = crowded sys0" for e sys0 by (simp add: crowded_def record_event_def)
    then have "crowded sys" using adv' crowded by (auto simp: Get_Shared crowded_def split: if_splits option.splits)
    then show ?thesis using adv' stays by (auto simp: duty_def Get_Shared split: if_splits option.splits)
  next
    case (Get_Locked k)
    then show ?thesis using watched_get_locked [OF reach adv IH crowded] by blast
  next
    case (Counting i ops p)
    then show ?thesis using watched_counting [OF reach short n adv IH crowded] by blast
  qed
qed

lemma threads_step_trace: "threads_step hash sys sys' \<Longrightarrow> \<exists>es. sy_trace sys' = sy_trace sys @ es"
  using threads_step_cases by (fastforce simp: silent_def one_block_def)

lemma run_block_limit: "st_max_entries (run_block hash b s) = st_max_entries s"
  by (cases b) (auto simp: set_locked_def get_locked_def sweep_stripe_def demote_victim_def evict_victim_def put_stripe_def
    split: option.splits prod.splits)

lemma reachable_limit: "threads_reachable hash N stripes m sys \<Longrightarrow> st_max_entries (sy_store sys) = m"
proof (induction rule: threads_reachable.induct)
  case initial
  then show ?case by (simp add: new_system_def new_store_def)
next
  case (step sys sys')
  have "st_max_entries (settled sys') = st_max_entries (settled sys)"
    using settled_step [OF step.hyps(2)] run_block_limit by metis
  then show ?case using step.IH by (simp add: settled_def)
qed

lemma written_source: "written trace k = Some c \<Longrightarrow> \<exists>v x. Wrote k v x \<in> set trace"
proof (induction trace arbitrary: c rule: rev_induct)
  case (snoc e trace)
  then show ?case by (cases e) (auto split: if_splits)
qed simp

text \<open>No call writes the empty key.\<close>

definition keys_nonempty :: "event list \<Rightarrow> bool" where
  "keys_nonempty trace \<longleftrightarrow> (\<forall>v x. Wrote [] v x \<notin> set trace)"

lemma stripes_without_empty_key:
  assumes "threads_reachable hash N stripes m sys" "keys_nonempty (sy_trace sys)" "j < length (st_stripes (sy_store sys))"
  shows "[] \<notin> fst ` set (st_stripes (sy_store sys) ! j)"
proof
  assume "[] \<in> fst ` set (st_stripes (sy_store sys) ! j)"
  then obtain e where "([], e) \<in> set (entries (settled sys))" using assms(3) by (force simp: entries_def)
  then have "contents hash (settled sys) [] = Some (core e)"
    using entries_iff_find [OF settled_invariant [OF assms(1)]] by (simp add: contents_def)
  then have "written (sy_trace sys) [] = Some (core e)"
    using threads_inv_reachable [OF assms(1)] by (metis threads_inv_def map_le_def domI)
  from written_source [OF this] show False using assms(2) by (simp add: keys_nonempty_def)
qed

lemma crowded_is_watched:
  "threads_reachable hash N stripes m sys \<Longrightarrow> m \<noteq> 0 \<Longrightarrow> length (sy_trace sys) < 2 ^ 64 \<Longrightarrow> keys_nonempty (sy_trace sys) \<Longrightarrow>
    crowded sys \<Longrightarrow> watched sys"
proof (induction rule: threads_reachable.induct)
  case initial
  then show ?case by (simp add: crowded_def new_system_def count_entries_def)
next
  case (step sys sys')
  obtain es where es: "sy_trace sys' = sy_trace sys @ es" using threads_step_trace [OF step.hyps(2)] by blast
  then have short: "length (sy_trace sys) < 2 ^ 64" and keys: "keys_nonempty (sy_trace sys)"
    using step.prems(2,3) by (auto simp: keys_nonempty_def)
  note IH = step.IH [OF step.prems(1) short keys]
  from step.hyps(2) show ?case
  proof cases
    case (call_set n)
    then have "watched sys" using IH step.prems(4) by (simp add: crowded_def)
    then show ?thesis unfolding call_set(1)
      by (rule watched_stays [OF gentle_step_goto(1)]) (simp add: duty_def call_set(3))
  next
    case (call_get n)
    then have "watched sys" using IH step.prems(4) by (simp add: crowded_def)
    then show ?thesis unfolding call_get(1)
      by (rule watched_stays [OF gentle_step_goto(1)]) (simp add: duty_def call_get(3))
  next
    case (go_on n now)
    then show ?thesis
      using watched_advance [OF step.hyps(1) short _ _ go_on IH step.prems(4)] step.prems(1) reachable_limit [OF step.hyps(1)]
        stripes_without_empty_key [OF step.hyps(1) keys] by auto
  qed
qed

section \<open>Properties\<close>

text \<open>
  C7: However many threads call \<open>Set\<close> and \<open>Get\<close> on a store with a limit and however they interleave,
  whenever all calls have returned the store holds at most as many entries as its limit allows (no call
  having used the empty key).\<close>

theorem capacity_holds_when_quiet:
  assumes "threads_reachable hash N stripes max_entries sys" "max_entries \<noteq> 0"
    and "\<forall>t \<in> set (sy_threads sys). th_pc t = Idle"
    and "keys_nonempty (sy_trace sys)" "length (sy_trace sys) < 2 ^ 64"
  shows "entry_count (sy_store sys) \<le> unat max_entries"
proof (rule ccontr)
  assume "\<not> ?thesis"
  then have "crowded sys" using reachable_limit [OF assms(1)] by (simp add: crowded_def)
  then have "watched sys" by (rule crowded_is_watched [OF assms(1,2,5,4)])
  then show False using assms(3) by (auto simp: watched_def duty_def)
qed

theorem capacity_holds_when_quiet_witness:
  "entry_count (sy_store sample_end) \<le> unat (1 :: size_t) \<and> length (sy_trace sample_end) = 3"
proof -
  have trace: "sy_trace sample_end = [Wrote ''a'' ''1'' None, Wrote ''b'' ''2'' None, Read ''b'' 3 (Some ''2'')]" by code_simp
  have idle: "\<forall>t \<in> set (sy_threads sample_end). th_pc t = Idle" by code_simp
  have "entry_count (sy_store sample_end) \<le> unat (1 :: size_t)"
    by (rule capacity_holds_when_quiet [OF sample_reachable(2) _ idle]) (simp_all add: trace keys_nonempty_def)
  then show ?thesis by (simp add: trace)
qed

end
