(* ===== verification/Replication.thy ===== *)
theory Replication
  imports Cache_Prelude
begin

text \<open>
  Write-ahead log, replica progress and acknowledgement policy:
  \<open>src/replication/wal_writer.{hpp,cpp}\<close>, \<open>src/replication/replica_stream.{hpp,cpp}\<close> and
  \<open>src/replication/ack_policy.hpp\<close>. Log indices and counts are lengths of vectors, so they
  are natural numbers here: none of them can reach the width of \<open>size_t\<close>. A throwing
  operation returns the state it leaves behind beside the exception.
\<close>

section \<open>Write-ahead log\<close>

record Mutation =
  mu_key :: string
  mu_value :: string

record WalWriter =
  wal_entries :: "Mutation list"
  wal_commit_index :: nat

definition new_wal :: WalWriter where
  "new_wal = \<lparr>wal_entries = [], wal_commit_index = 0\<rparr>"

definition Append :: "Mutation \<Rightarrow> WalWriter \<Rightarrow> nat \<times> WalWriter" where
  "Append mutation w =
     (let entries = wal_entries w @ [mutation];
          w' = w\<lparr>wal_entries := entries, wal_commit_index := length entries\<rparr>
      in (wal_commit_index w', w'))"

definition CommitIndex :: "WalWriter \<Rightarrow> nat" where
  "CommitIndex w = wal_commit_index w"

definition Wal_Size :: "WalWriter \<Rightarrow> nat" where
  "Wal_Size w = length (wal_entries w)"

definition EntryAt :: "nat \<Rightarrow> WalWriter \<Rightarrow> cpp_exception + Mutation" where
  "EntryAt log_index w =
     (if log_index = 0 \<or> log_index > length (wal_entries w)
      then Inl (out_of_range ''log_index out of range'')
      else Inr (wal_entries w ! (log_index - 1)))"

section \<open>Replica progress\<close>

record ReplicaStream =
  rs_replica_count :: nat
  rs_quorum_size :: nat
  rs_replica_progress :: "nat list"

definition new_replica_stream :: "nat \<Rightarrow> ReplicaStream" where
  "new_replica_stream replica_count =
     \<lparr>rs_replica_count = replica_count,
      rs_quorum_size = (if replica_count = 0 then 0 else replica_count div 2 + 1),
      rs_replica_progress = replicate replica_count 0\<rparr>"

definition AckReplica ::
  "nat \<Rightarrow> nat \<Rightarrow> ReplicaStream \<Rightarrow> (cpp_exception + unit) \<times> ReplicaStream" where
  "AckReplica replica_id log_index r =
     (if replica_id \<ge> rs_replica_count r
      then (Inl (out_of_range ''replica_id out of range''), r)
      else if log_index > rs_replica_progress r ! replica_id
           then (Inr (), r\<lparr>rs_replica_progress :=
                             (rs_replica_progress r)[replica_id := log_index]\<rparr>)
           else (Inr (), r))"

fun ack_count_loop :: "nat \<Rightarrow> nat list \<Rightarrow> nat \<Rightarrow> nat" where
  "ack_count_loop log_index [] acks = acks"
| "ack_count_loop log_index (progress # ps) acks =
     ack_count_loop log_index ps (if progress \<ge> log_index then acks + 1 else acks)"

definition AckCount :: "nat \<Rightarrow> ReplicaStream \<Rightarrow> nat" where
  "AckCount log_index r = ack_count_loop log_index (rs_replica_progress r) 0"

definition QuorumSize :: "ReplicaStream \<Rightarrow> nat" where
  "QuorumSize r = rs_quorum_size r"

definition HasQuorum :: "nat \<Rightarrow> ReplicaStream \<Rightarrow> bool" where
  "HasQuorum log_index r \<longleftrightarrow> AckCount log_index r \<ge> rs_quorum_size r"

section \<open>Acknowledgement policy\<close>

datatype WriteAckMode = kFastLeaderCommit | kStrongReplicaQuorum

record WriteResult =
  wr_log_index :: nat
  wr_acked :: bool
  wr_leader_commit_index :: nat
  wr_replica_acks :: nat
  wr_required_replica_quorum :: nat

record AckPolicy =
  ap_wal :: WalWriter
  ap_replica_stream :: ReplicaStream
  ap_write_modes :: "(nat, WriteAckMode) unordered_map"
  ap_acked :: "(nat, bool) unordered_map"

definition new_ack_policy :: "nat \<Rightarrow> AckPolicy" where
  "new_ack_policy replica_count =
     \<lparr>ap_wal = new_wal, ap_replica_stream = new_replica_stream replica_count,
      ap_write_modes = [], ap_acked = []\<rparr>"

definition BuildResult :: "nat \<Rightarrow> AckPolicy \<Rightarrow> WriteResult" where
  "BuildResult log_index p =
     \<lparr>wr_log_index = log_index,
      wr_acked = (case map_of (ap_acked p) log_index of None \<Rightarrow> False | Some b \<Rightarrow> b),
      wr_leader_commit_index = CommitIndex (ap_wal p),
      wr_replica_acks = AckCount log_index (ap_replica_stream p),
      wr_required_replica_quorum = QuorumSize (ap_replica_stream p)\<rparr>"

definition has_replica_quorum :: "nat \<Rightarrow> ReplicaStream \<Rightarrow> bool" where
  "has_replica_quorum log_index r \<longleftrightarrow> QuorumSize r > 0 \<and> HasQuorum log_index r"

definition ApplyWrite :: "Mutation \<Rightarrow> WriteAckMode \<Rightarrow> AckPolicy \<Rightarrow> WriteResult \<times> AckPolicy" where
  "ApplyWrite mutation mode p =
     (case Append mutation (ap_wal p) of
        (log_index, wal) \<Rightarrow>
          (let leader_committed = (CommitIndex wal \<ge> log_index);
               quorum = has_replica_quorum log_index (ap_replica_stream p);
               acked = (leader_committed \<and>
                 (mode = kFastLeaderCommit \<or> (mode = kStrongReplicaQuorum \<and> quorum)));
               p' = p\<lparr>ap_wal := wal,
                      ap_write_modes := AList.update log_index mode (ap_write_modes p),
                      ap_acked := AList.update log_index acked (ap_acked p)\<rparr>
           in (BuildResult log_index p', p')))"

definition ObserveReplicaAck ::
  "nat \<Rightarrow> nat \<Rightarrow> AckPolicy \<Rightarrow> (cpp_exception + WriteResult) \<times> AckPolicy" where
  "ObserveReplicaAck replica_id log_index p =
     (case map_of (ap_write_modes p) log_index of
        None \<Rightarrow> (Inl (invalid_argument ''unknown log index''), p)
      | Some mode \<Rightarrow>
          (case AckReplica replica_id log_index (ap_replica_stream p) of
             (Inl e, r) \<Rightarrow> (Inl e, p\<lparr>ap_replica_stream := r\<rparr>)
           | (Inr _, r) \<Rightarrow>
               (let p1 = p\<lparr>ap_replica_stream := r\<rparr>;
                    p2 = (if mode = kStrongReplicaQuorum
                          then p1\<lparr>ap_acked :=
                                 AList.update log_index
                                   (CommitIndex (ap_wal p1) \<ge> log_index \<and>
                                    has_replica_quorum log_index r)
                                   (ap_acked p1)\<rparr>
                          else p1)
                in (Inr (BuildResult log_index p2), p2))))"

section \<open>Quorums\<close>

text \<open>
  What a replication protocol needs of its quorums: any two of them meet, and adding members
  to one gives another. The lemmas hold for every such family of sets.
\<close>

locale quorum_system =
  fixes is_quorum :: "'a set \<Rightarrow> bool"
  assumes quorums_meet: "is_quorum A \<Longrightarrow> is_quorum B \<Longrightarrow> A \<inter> B \<noteq> {}"
begin

lemma quorum_nonempty: "is_quorum A \<Longrightarrow> A \<noteq> {}"
  using quorums_meet [of A A] by auto

lemma quorum_reader:
  "is_quorum W \<Longrightarrow> is_quorum R \<Longrightarrow> (\<And>r. r \<in> W \<Longrightarrow> P r) \<Longrightarrow> \<exists>r \<in> R. P r"
  using quorums_meet by blast

end

definition majority :: "nat \<Rightarrow> nat set \<Rightarrow> bool" where
  "majority n A \<longleftrightarrow> A \<subseteq> {..<n} \<and> n div 2 + 1 \<le> card A"

lemma majorities_meet:
  assumes "majority n A" and "majority n B"
  shows "A \<inter> B \<noteq> {}"
proof
  assume "A \<inter> B = {}"
  moreover have "finite A" "finite B" using assms by (auto simp: majority_def intro: finite_subset)
  ultimately have "card (A \<union> B) = card A + card B" by (simp add: card_Un_disjoint)
  moreover have "card (A \<union> B) \<le> card {..<n}"
    using assms by (intro card_mono) (auto simp: majority_def)
  ultimately have "card A + card B \<le> n" by simp
  moreover have "n div 2 + 1 \<le> card A" "n div 2 + 1 \<le> card B"
    using assms by (simp_all add: majority_def)
  ultimately show False by arith
qed

interpretation maj: quorum_system "majority n" for n
  by unfold_locales (rule majorities_meet)

text \<open>The replicas that have acknowledged an index.\<close>

definition ackers :: "nat \<Rightarrow> ReplicaStream \<Rightarrow> nat set" where
  "ackers log_index r = {i. i < length (rs_replica_progress r) \<and> rs_replica_progress r ! i \<ge> log_index}"

lemma ack_count_loop_eq: "ack_count_loop i ps c = c + length (filter (\<lambda>p. i \<le> p) ps)"
  by (induction ps arbitrary: c) auto

lemma AckCount_ackers: "AckCount i r = card (ackers i r)"
  by (simp add: AckCount_def ack_count_loop_eq ackers_def length_filter_conv_card)

lemma AckCount_le: "AckCount i r \<le> length (rs_replica_progress r)"
  by (simp add: AckCount_def ack_count_loop_eq)

lemma ackers_AckReplica:
  "rs_replica_count r = length (rs_replica_progress r) \<Longrightarrow> AckReplica k j r = (Inr u, r') \<Longrightarrow>
   ackers i r' = ackers i r \<union> (if i \<le> j then {k} else {})"
  by (auto simp: AckReplica_def ackers_def nth_list_update split: if_splits)

section \<open>Reachable states\<close>

text \<open>Any number of writes and acknowledgements, failed ones included, in any order.\<close>

inductive ack_step :: "AckPolicy \<Rightarrow> AckPolicy \<Rightarrow> bool" where
  apply_write: "ack_step p (snd (ApplyWrite mutation mode p))"
| observe_ack: "ack_step p (snd (ObserveReplicaAck replica_id log_index p))"

inductive ack_reachable :: "nat \<Rightarrow> AckPolicy \<Rightarrow> bool" where
  start: "ack_reachable n (new_ack_policy n)"
| step: "ack_reachable n p \<Longrightarrow> ack_step p p' \<Longrightarrow> ack_reachable n p'"

definition log_length :: "AckPolicy \<Rightarrow> nat" where
  "log_length p = length (wal_entries (ap_wal p))"

definition ack_inv :: "nat \<Rightarrow> AckPolicy \<Rightarrow> bool" where
  "ack_inv n p \<longleftrightarrow>
     wal_commit_index (ap_wal p) = log_length p \<and>
     rs_replica_count (ap_replica_stream p) = n \<and>
     rs_quorum_size (ap_replica_stream p) = (if n = 0 then 0 else n div 2 + 1) \<and>
     length (rs_replica_progress (ap_replica_stream p)) = n \<and>
     (\<forall>x \<in> set (rs_replica_progress (ap_replica_stream p)). x \<le> log_length p) \<and>
     dom (map_of (ap_write_modes p)) = {1..log_length p} \<and>
     dom (map_of (ap_acked p)) = {1..log_length p} \<and>
     (\<forall>i. map_of (ap_write_modes p) i = Some kFastLeaderCommit \<longrightarrow> map_of (ap_acked p) i = Some True) \<and>
     (\<forall>i. map_of (ap_write_modes p) i = Some kStrongReplicaQuorum \<longrightarrow> map_of (ap_acked p) i = Some True \<longrightarrow>
          has_replica_quorum i (ap_replica_stream p))"

lemma ack_inv_new: "ack_inv n (new_ack_policy n)"
  by (simp add: ack_inv_def new_ack_policy_def new_wal_def new_replica_stream_def log_length_def)

lemma has_replica_quorum_iff:
  "ack_inv n p \<Longrightarrow>
   has_replica_quorum i (ap_replica_stream p) \<longleftrightarrow> n > 0 \<and> n div 2 + 1 \<le> card (ackers i (ap_replica_stream p))"
  by (auto simp: has_replica_quorum_def QuorumSize_def HasQuorum_def AckCount_ackers ack_inv_def)

text \<open>No replica has acknowledged an index beyond the log.\<close>

lemma ackers_beyond:
  assumes "ack_inv n p" and "i > log_length p"
  shows "ackers i (ap_replica_stream p) = {}"
proof -
  let ?ps = "rs_replica_progress (ap_replica_stream p)"
  have all: "\<forall>x \<in> set ?ps. x \<le> log_length p" using assms(1) by (simp add: ack_inv_def)
  have "\<not> i \<le> ?ps ! j" if "j < length ?ps" for j
    using bspec [OF all nth_mem [OF that]] assms(2) by simp
  then show ?thesis by (simp add: ackers_def)
qed

lemma no_quorum_beyond:
  "ack_inv n p \<Longrightarrow> i > log_length p \<Longrightarrow> \<not> has_replica_quorum i (ap_replica_stream p)"
  by (simp add: has_replica_quorum_iff ackers_beyond)

lemma ApplyWrite_state:
  "snd (ApplyWrite m mode p) =
     p\<lparr>ap_wal := \<lparr>wal_entries = wal_entries (ap_wal p) @ [m], wal_commit_index = Suc (log_length p)\<rparr>,
       ap_write_modes := AList.update (Suc (log_length p)) mode (ap_write_modes p),
       ap_acked := AList.update (Suc (log_length p))
         (mode = kFastLeaderCommit \<or>
          mode = kStrongReplicaQuorum \<and> has_replica_quorum (Suc (log_length p)) (ap_replica_stream p))
         (ap_acked p)\<rparr>"
  by (simp add: ApplyWrite_def Append_def Let_def CommitIndex_def log_length_def)

lemma ack_inv_ApplyWrite [inv_pres]:
  assumes inv: "ack_inv n p"
  shows "ack_inv n (snd (ApplyWrite m mode p))"
proof -
  let ?p = "snd (ApplyWrite m mode p)" and ?i = "Suc (log_length p)"
  have len: "log_length ?p = ?i" and commit: "wal_commit_index (ap_wal ?p) = ?i"
    and rs: "ap_replica_stream ?p = ap_replica_stream p"
    by (simp_all add: ApplyWrite_state log_length_def)
  have modes: "map_of (ap_write_modes ?p) = (map_of (ap_write_modes p))(?i \<mapsto> mode)"
    and acked: "map_of (ap_acked ?p) = (map_of (ap_acked p))(?i \<mapsto> (mode = kFastLeaderCommit))"
    using no_quorum_beyond [OF inv, of ?i] by (simp_all add: ApplyWrite_state update_conv')
  have upto: "{1..?i} = insert ?i {1..log_length p}" by auto
  have prog: "\<forall>x \<in> set (rs_replica_progress (ap_replica_stream p)). x \<le> ?i"
    using inv by (auto simp: ack_inv_def intro: le_SucI)
  show ?thesis
    unfolding ack_inv_def len commit rs modes acked upto dom_fun_upd
    using inv prog by (simp add: ack_inv_def)
qed

lemma AckReplica_Inl: "AckReplica k i r = (Inl e, r') \<Longrightarrow> r' = r"
  by (auto simp: AckReplica_def split: if_splits)

lemma AckReplica_frame:
  "AckReplica k i r = (Inr u, r') \<Longrightarrow>
     rs_replica_count r' = rs_replica_count r \<and> rs_quorum_size r' = rs_quorum_size r \<and>
     length (rs_replica_progress r') = length (rs_replica_progress r) \<and>
     set (rs_replica_progress r') \<subseteq> insert i (set (rs_replica_progress r))"
  using set_update_subset_insert [of "rs_replica_progress r" k i]
  by (auto simp: AckReplica_def split: if_splits)

text \<open>Acknowledgements accumulate, so a quorum once reached stays.\<close>

lemma quorum_grows:
  assumes "rs_replica_count r = length (rs_replica_progress r)" and "AckReplica k j r = (Inr u, r')"
    and "has_replica_quorum i r"
  shows "has_replica_quorum i r'"
proof -
  have "ackers i r \<subseteq> ackers i r'" by (simp add: ackers_AckReplica [OF assms(1,2)])
  then have "card (ackers i r) \<le> card (ackers i r')"
    by (rule card_mono [rotated]) (simp add: ackers_def)
  with assms(3) AckReplica_frame [OF assms(2)] show ?thesis
    by (auto simp: has_replica_quorum_def HasQuorum_def QuorumSize_def AckCount_ackers)
qed

lemma ObserveReplicaAck_cases:
  assumes "ObserveReplicaAck k i p = (res, p')"
  obtains (unknown) "map_of (ap_write_modes p) i = None"
      "res = Inl (invalid_argument ''unknown log index'')" "p' = p"
  | (no_replica) mode where "map_of (ap_write_modes p) i = Some mode"
      "k \<ge> rs_replica_count (ap_replica_stream p)"
      "res = Inl (out_of_range ''replica_id out of range'')" "p' = p"
  | (accepted) mode r where "map_of (ap_write_modes p) i = Some mode"
      "k < rs_replica_count (ap_replica_stream p)"
      "AckReplica k i (ap_replica_stream p) = (Inr (), r)"
      "p' = (if mode = kStrongReplicaQuorum
             then p\<lparr>ap_replica_stream := r, ap_acked := AList.update i
                     (CommitIndex (ap_wal p) \<ge> i \<and> has_replica_quorum i r) (ap_acked p)\<rparr>
             else p\<lparr>ap_replica_stream := r\<rparr>)"
      "res = Inr (BuildResult i p')"
proof (cases "map_of (ap_write_modes p) i")
  case None
  with assms have "res = Inl (invalid_argument ''unknown log index'')" "p' = p"
    by (simp_all add: ObserveReplicaAck_def)
  with None show thesis by (rule unknown)
next
  case (Some mode)
  show thesis
  proof (cases "k < rs_replica_count (ap_replica_stream p)")
    case True
    obtain r where r: "AckReplica k i (ap_replica_stream p) = (Inr (), r)"
      using True by (cases "i > rs_replica_progress (ap_replica_stream p) ! k") (auto simp: AckReplica_def)
    show thesis
      by (rule accepted [OF Some True r])
         (use assms Some r in \<open>auto simp: ObserveReplicaAck_def Let_def split: if_splits\<close>)
  next
    case False
    then have k: "k \<ge> rs_replica_count (ap_replica_stream p)" by simp
    with assms Some have "res = Inl (out_of_range ''replica_id out of range'')" "p' = p"
      by (auto simp: ObserveReplicaAck_def AckReplica_def)
    with Some k show thesis by (rule no_replica)
  qed
qed

lemma ack_inv_ObserveReplicaAck [inv_pres]:
  assumes inv: "ack_inv n p"
  shows "ack_inv n (snd (ObserveReplicaAck k i p))"
proof -
  obtain res p' where o: "ObserveReplicaAck k i p = (res, p')" by fastforce
  from o show ?thesis
  proof (cases rule: ObserveReplicaAck_cases)
    case (accepted mode r)
    note fr = AckReplica_frame [OF accepted(3)]
    have rc: "rs_replica_count (ap_replica_stream p) = length (rs_replica_progress (ap_replica_stream p))"
      using inv by (simp add: ack_inv_def)
    have i: "i \<in> {1..log_length p}" using inv accepted(1) by (auto simp: ack_inv_def)
    have len: "log_length p' = log_length p" "ap_wal p' = ap_wal p" "ap_write_modes p' = ap_write_modes p"
      and rs: "ap_replica_stream p' = r"
      by (simp_all add: accepted(4) log_length_def)
    have acked: "map_of (ap_acked p') = (if mode = kStrongReplicaQuorum
        then (map_of (ap_acked p))(i \<mapsto> has_replica_quorum i r) else map_of (ap_acked p))"
      using inv i by (simp add: accepted(4) update_conv' ack_inv_def CommitIndex_def)
    have "\<forall>x \<in> set (rs_replica_progress r). x \<le> log_length p"
      using inv fr i by (auto simp: ack_inv_def)
    moreover have "dom (map_of (ap_acked p')) = {1..log_length p}"
      using inv i by (auto simp: acked ack_inv_def)
    moreover have "map_of (ap_acked p') j = Some True"
      if "map_of (ap_write_modes p) j = Some kFastLeaderCommit" for j
      using inv that accepted(1) by (auto simp: acked ack_inv_def)
    moreover have "has_replica_quorum j r" if "map_of (ap_write_modes p) j = Some kStrongReplicaQuorum"
      "map_of (ap_acked p') j = Some True" for j
      using inv that quorum_grows [OF rc accepted(3), of j] by (auto simp: acked ack_inv_def split: if_splits)
    ultimately show ?thesis using inv fr by (simp add: o ack_inv_def len rs)
  qed (use inv in \<open>simp_all add: o\<close>)
qed

lemma ack_step_inv: "ack_step p p' \<Longrightarrow> ack_inv n p \<Longrightarrow> ack_inv n p'"
  by (induction rule: ack_step.induct) (auto intro: inv_pres)

lemma ack_reachable_inv: "ack_reachable n p \<Longrightarrow> ack_inv n p"
  by (induction rule: ack_reachable.induct) (auto intro: ack_inv_new ack_step_inv)

section \<open>Properties of replication\<close>

text \<open>
  C13: durability of strong writes. In every reachable state, a strong write that is recorded
  as acknowledged has been confirmed by a majority of the replicas, so every other majority
  of replicas (what is left after losing a minority) contains one that holds the log up to
  that write.
\<close>

theorem strong_ack_survives_minority_loss:
  assumes "ack_reachable n p"
    and "map_of (ap_write_modes p) i = Some kStrongReplicaQuorum"
    and "map_of (ap_acked p) i = Some True"
    and "survivors \<subseteq> {..<n}" and "n div 2 + 1 \<le> card survivors"
  shows "\<exists>k \<in> survivors. i \<le> rs_replica_progress (ap_replica_stream p) ! k"
proof -
  have inv: "ack_inv n p" using assms(1) by (rule ack_reachable_inv)
  with assms(2,3) have "has_replica_quorum i (ap_replica_stream p)" by (simp add: ack_inv_def)
  then have "n div 2 + 1 \<le> card (ackers i (ap_replica_stream p))"
    by (simp add: has_replica_quorum_iff [OF inv])
  moreover have "ackers i (ap_replica_stream p) \<subseteq> {..<n}"
    using inv by (auto simp: ackers_def ack_inv_def)
  ultimately have "majority n (ackers i (ap_replica_stream p))" by (simp add: majority_def)
  moreover have "majority n survivors" using assms(4,5) by (simp add: majority_def)
  ultimately show ?thesis by (rule maj.quorum_reader) (simp add: ackers_def)
qed

text \<open>
  The reply to a replica acknowledgement reports the write as acknowledged exactly when
  the policy of the write says so: a fast write always, a strong write when a majority of a
  non-empty replica set has progressed to it; the reported count is the number of those
  replicas.
\<close>

theorem observed_ack_is_exact:
  assumes "ack_reachable n p" and "ObserveReplicaAck k i p = (Inr res, p')"
  shows "wr_log_index res = i \<and> wr_leader_commit_index res = log_length p \<and>
         wr_replica_acks res = card {j. j < n \<and> i \<le> rs_replica_progress (ap_replica_stream p') ! j} \<and>
         (wr_acked res \<longleftrightarrow> map_of (ap_write_modes p) i = Some kFastLeaderCommit \<or>
                          n > 0 \<and> n div 2 + 1 \<le> wr_replica_acks res)"
proof -
  have inv: "ack_inv n p" using assms(1) by (rule ack_reachable_inv)
  have inv': "ack_inv n p'" using ack_inv_ObserveReplicaAck [OF inv, of k i] assms(2) by simp
  from assms(2) show ?thesis
  proof (cases rule: ObserveReplicaAck_cases)
    case (accepted mode r)
    have i: "i \<in> {1..log_length p}" using inv accepted(1) by (auto simp: ack_inv_def)
    have rs: "ap_replica_stream p' = r" and wal: "ap_wal p' = ap_wal p"
      by (simp_all add: accepted(4))
    have ac: "ackers i r = {j. j < n \<and> i \<le> rs_replica_progress r ! j}"
      using inv' by (simp add: ackers_def ack_inv_def rs)
    have ci: "CommitIndex (ap_wal p) = log_length p" using inv by (simp add: ack_inv_def CommitIndex_def)
    have "wr_acked res \<longleftrightarrow> mode = kFastLeaderCommit \<or> has_replica_quorum i r"
    proof (cases mode)
      case kFastLeaderCommit
      then have "map_of (ap_acked p') i = Some True" using inv accepted(1,4) by (simp add: ack_inv_def)
      with kFastLeaderCommit show ?thesis using accepted(5) by (simp add: BuildResult_def)
    next
      case kStrongReplicaQuorum
      then show ?thesis using accepted(4,5) i ci by (simp add: BuildResult_def update_conv')
    qed
    moreover have "has_replica_quorum i r \<longleftrightarrow> n > 0 \<and> n div 2 + 1 \<le> card (ackers i r)"
      using has_replica_quorum_iff [OF inv', of i] by (simp add: rs)
    ultimately show ?thesis using accepted(1,5) ac ci
      by (simp add: BuildResult_def AckCount_ackers rs wal)
  qed simp_all
qed

text \<open>
  A new write gets the next log index and is committed by the leader at once; it is
  acknowledged at once exactly in the fast mode, since no replica can have acknowledged an
  index that was not in the log. The mutation is found at that index.
\<close>

theorem fresh_write_result:
  assumes "ack_reachable n p"
  shows "fst (ApplyWrite m mode p) =
           \<lparr>wr_log_index = Suc (log_length p), wr_acked = (mode = kFastLeaderCommit),
            wr_leader_commit_index = Suc (log_length p), wr_replica_acks = 0,
            wr_required_replica_quorum = (if n = 0 then 0 else n div 2 + 1)\<rparr> \<and>
         EntryAt (Suc (log_length p)) (ap_wal (snd (ApplyWrite m mode p))) = Inr m \<and>
         (j \<in> {1..log_length p} \<longrightarrow>
            EntryAt j (ap_wal (snd (ApplyWrite m mode p))) = EntryAt j (ap_wal p))"
proof -
  have inv: "ack_inv n p" using assms by (rule ack_reachable_inv)
  let ?i = "Suc (log_length p)"
  have nq: "\<not> has_replica_quorum ?i (ap_replica_stream p)" using inv by (rule no_quorum_beyond) simp
  have "fst (ApplyWrite m mode p) = BuildResult ?i (snd (ApplyWrite m mode p))"
    by (simp add: ApplyWrite_def Append_def Let_def log_length_def)
  then show ?thesis using inv nq ackers_beyond [OF inv, of ?i]
    by (auto simp: ApplyWrite_state BuildResult_def update_conv' CommitIndex_def AckCount_ackers
        QuorumSize_def ack_inv_def EntryAt_def log_length_def nth_append)
qed

lemma ack_step_keeps_acked:
  assumes inv: "ack_inv n p" and a: "map_of (ap_acked p) i = Some True" and st: "ack_step p p'"
  shows "map_of (ap_acked p') i = Some True"
  using st
proof cases
  case (apply_write m mode)
  have "i \<in> {1..log_length p}" using inv domI [of "map_of (ap_acked p)", OF a] by (simp add: ack_inv_def)
  then have "i \<noteq> Suc (log_length p)" by simp
  with a show ?thesis by (simp add: apply_write ApplyWrite_state update_conv')
next
  case (observe_ack k j)
  obtain res q where o: "ObserveReplicaAck k j p = (res, q)" by fastforce
  from o show ?thesis
  proof (cases rule: ObserveReplicaAck_cases)
    case (accepted mode r)
    have "j \<le> log_length p" using inv accepted(1) by (auto simp: ack_inv_def)
    moreover have "has_replica_quorum i r" if "mode = kStrongReplicaQuorum" "i = j"
      using inv a that accepted(1) quorum_grows [OF _ accepted(3), of i] by (simp add: ack_inv_def)
    ultimately show ?thesis using inv a
      by (auto simp: observe_ack o accepted(4) update_conv' ack_inv_def CommitIndex_def)
  qed (use a in \<open>simp_all add: observe_ack o\<close>)
qed

inductive ack_steps :: "AckPolicy \<Rightarrow> AckPolicy \<Rightarrow> bool" where
  refl: "ack_steps p p"
| trans: "ack_steps p q \<Longrightarrow> ack_step q r \<Longrightarrow> ack_steps p r"

lemma ack_steps_keep:
  "ack_steps p q \<Longrightarrow> ack_inv n p \<Longrightarrow> map_of (ap_acked p) i = Some True \<Longrightarrow>
   ack_inv n q \<and> map_of (ap_acked q) i = Some True"
  by (induction rule: ack_steps.induct) (auto intro: ack_step_keeps_acked ack_step_inv)

text \<open>
  C14: an acknowledgement, once given, is never withdrawn: whatever writes and replica
  acknowledgements follow, the write stays acknowledged.
\<close>

theorem acks_are_never_withdrawn:
  assumes "ack_reachable n p" and "map_of (ap_acked p) i = Some True" and "ack_steps p q"
  shows "map_of (ap_acked q) i = Some True"
  using ack_steps_keep [OF assms(3) ack_reachable_inv [OF assms(1)] assms(2)] by simp

text \<open>
  A call of \<open>ObserveReplicaAck\<close> that throws changes nothing: an unknown log index is
  refused before the replica's progress is touched, and so is an unknown replica.
\<close>

theorem refused_ack_changes_nothing:
  "fst (ObserveReplicaAck k i p) = Inl e \<Longrightarrow> snd (ObserveReplicaAck k i p) = p"
proof -
  assume e: "fst (ObserveReplicaAck k i p) = Inl e"
  obtain res q where o: "ObserveReplicaAck k i p = (res, q)" by fastforce
  from o show "snd (ObserveReplicaAck k i p) = p"
    by (cases rule: ObserveReplicaAck_cases) (use e o in auto)
qed

section \<open>A concrete run\<close>

text \<open>A strong write on three replicas, confirmed by replicas 0 and 1.\<close>

definition sample_write :: AckPolicy where
  "sample_write = snd (ApplyWrite \<lparr>mu_key = ''k'', mu_value = ''v''\<rparr> kStrongReplicaQuorum (new_ack_policy 3))"

definition sample_one_ack :: AckPolicy where
  "sample_one_ack = snd (ObserveReplicaAck 0 1 sample_write)"

definition sample_acked :: AckPolicy where
  "sample_acked = snd (ObserveReplicaAck 1 1 sample_one_ack)"

lemma sample_reachable:
  "ack_reachable 3 sample_write" "ack_reachable 3 sample_one_ack" "ack_reachable 3 sample_acked"
  unfolding sample_write_def sample_one_ack_def sample_acked_def
  by (blast intro: ack_reachable.intros ack_step.intros)+

theorem strong_ack_survives_minority_loss_witness:
  "\<exists>k \<in> {1, 2 :: nat}. 1 \<le> rs_replica_progress (ap_replica_stream sample_acked) ! k"
proof -
  have a: "map_of (ap_write_modes sample_acked) 1 = Some kStrongReplicaQuorum"
    "map_of (ap_acked sample_acked) 1 = Some True" by code_simp+
  show ?thesis
    by (rule strong_ack_survives_minority_loss [OF sample_reachable(3) a]) auto
qed

theorem observed_ack_is_exact_witness:
  "\<exists>res p'. ObserveReplicaAck 1 1 sample_one_ack = (Inr res, p') \<and> wr_acked res \<and> wr_log_index res = 1"
proof -
  let ?r = "ObserveReplicaAck 1 1 sample_one_ack"
  have r: "?r = (Inr (projr (fst ?r)), snd ?r)" by code_simp
  have "3 div 2 + 1 \<le> wr_replica_acks (projr (fst ?r))" by code_simp
  with observed_ack_is_exact [OF sample_reachable(2) r] have
    "wr_acked (projr (fst ?r)) \<and> wr_log_index (projr (fst ?r)) = 1" by simp
  with r show ?thesis by blast
qed

theorem fresh_write_result_witness:
  "wr_log_index (fst (ApplyWrite \<lparr>mu_key = ''a'', mu_value = ''b''\<rparr> kFastLeaderCommit sample_acked)) = 2 \<and>
   EntryAt 1 (ap_wal (snd (ApplyWrite \<lparr>mu_key = ''a'', mu_value = ''b''\<rparr> kFastLeaderCommit sample_acked))) =
     EntryAt 1 (ap_wal sample_acked)"
proof -
  have n: "log_length sample_acked = 1" by code_simp
  from fresh_write_result [OF sample_reachable(3), of "\<lparr>mu_key = ''a'', mu_value = ''b''\<rparr>"
      kFastLeaderCommit 1] show ?thesis by (simp add: n)
qed

theorem acks_are_never_withdrawn_witness:
  "map_of (ap_acked (snd (ObserveReplicaAck 2 1 sample_acked))) 1 = Some True"
proof -
  have a: "map_of (ap_acked sample_acked) 1 = Some True" by code_simp
  have "ack_steps sample_acked (snd (ObserveReplicaAck 2 1 sample_acked))"
    by (blast intro: ack_steps.intros ack_step.intros)
  with acks_are_never_withdrawn [OF sample_reachable(3) a] show ?thesis by simp
qed

theorem refused_ack_changes_nothing_witness:
  "snd (ObserveReplicaAck 0 2 sample_write) = sample_write \<and>
   snd (ObserveReplicaAck 7 1 sample_write) = sample_write"
proof -
  have "fst (ObserveReplicaAck 0 2 sample_write) = Inl (invalid_argument ''unknown log index'')"
    "fst (ObserveReplicaAck 7 1 sample_write) = Inl (out_of_range ''replica_id out of range'')"
    by code_simp+
  then show ?thesis by (simp add: refused_ack_changes_nothing)
qed

end
