(* ===== verification/Heartbeat_Manager.thy ===== *)
theory Heartbeat_Manager
  imports Cache_Prelude
begin

text \<open>
  Node liveness, \<open>src/control/heartbeat_manager.{hpp,cpp}\<close>: last-observation timestamps
  decide which reports about a node count, and gossip merges the views of other nodes. Each
  method runs under the manager's mutex, so a method is one atomic function of the state.
\<close>

section \<open>The heartbeat manager\<close>

record NodeHealth =
  nh_node_id :: string
  nh_alive :: bool
  nh_last_heartbeat_ms :: u64

text \<open>What \<open>nodes_[id]\<close> inserts for a node not seen before.\<close>

definition default_health :: NodeHealth where
  "default_health = \<lparr>nh_node_id = [], nh_alive = False, nh_last_heartbeat_ms = 0\<rparr>"

record HeartbeatManager =
  hm_nodes :: "(string, NodeHealth) unordered_map"
  hm_last_observation_ms :: "(string, u64) unordered_map"

definition new_heartbeat_manager :: HeartbeatManager where
  "new_heartbeat_manager = \<lparr>hm_nodes = [], hm_last_observation_ms = []\<rparr>"

definition HM_RegisterNode :: "string \<Rightarrow> u64 \<Rightarrow> HeartbeatManager \<Rightarrow> HeartbeatManager" where
  "HM_RegisterNode node_id heartbeat_ms h =
     (case subscript default_health node_id (hm_nodes h) of (entry, nodes) \<Rightarrow>
      case subscript 0 node_id (hm_last_observation_ms h) of (last_observed, observations) \<Rightarrow>
        if nh_node_id entry \<noteq> [] \<and> heartbeat_ms < last_observed
        then \<lparr>hm_nodes = nodes, hm_last_observation_ms = observations\<rparr>
        else \<lparr>hm_nodes = AList.update node_id
                \<lparr>nh_node_id = node_id, nh_alive = True, nh_last_heartbeat_ms = heartbeat_ms\<rparr> nodes,
              hm_last_observation_ms = AList.update node_id heartbeat_ms observations\<rparr>)"

definition HM_RecordHeartbeat :: "string \<Rightarrow> u64 \<Rightarrow> HeartbeatManager \<Rightarrow> HeartbeatManager" where
  "HM_RecordHeartbeat node_id heartbeat_ms h =
     (case subscript default_health node_id (hm_nodes h) of (entry, nodes) \<Rightarrow>
      case subscript 0 node_id (hm_last_observation_ms h) of (last_observed, observations) \<Rightarrow>
        if nh_node_id entry \<noteq> [] \<and> heartbeat_ms < last_observed
        then \<lparr>hm_nodes = nodes, hm_last_observation_ms = observations\<rparr>
        else \<lparr>hm_nodes = AList.update node_id
                \<lparr>nh_node_id = node_id, nh_alive = True, nh_last_heartbeat_ms = heartbeat_ms\<rparr> nodes,
              hm_last_observation_ms = AList.update node_id heartbeat_ms observations\<rparr>)"

definition HM_OnHeartbeatTimeout :: "string \<Rightarrow> u64 \<Rightarrow> HeartbeatManager \<Rightarrow> HeartbeatManager" where
  "HM_OnHeartbeatTimeout node_id timeout_ms h =
     (case subscript default_health node_id (hm_nodes h) of (entry, nodes) \<Rightarrow>
      case subscript 0 node_id (hm_last_observation_ms h) of (last_observed, observations) \<Rightarrow>
        if nh_node_id entry \<noteq> [] \<and> timeout_ms < last_observed
        then \<lparr>hm_nodes = nodes, hm_last_observation_ms = observations\<rparr>
        else \<lparr>hm_nodes = AList.update node_id (entry\<lparr>nh_node_id := node_id, nh_alive := False\<rparr>) nodes,
              hm_last_observation_ms =
                (if timeout_ms > last_observed then AList.update node_id timeout_ms observations
                 else observations)\<rparr>)"

definition ingest_one :: "NodeHealth \<Rightarrow> HeartbeatManager \<Rightarrow> HeartbeatManager" where
  "ingest_one obs h =
     (case subscript default_health (nh_node_id obs) (hm_nodes h) of (entry, nodes) \<Rightarrow>
      case subscript 0 (nh_node_id obs) (hm_last_observation_ms h) of (last_observed, observations) \<Rightarrow>
        if nh_node_id entry \<noteq> [] \<and>
           (nh_last_heartbeat_ms obs < last_observed \<or>
            nh_last_heartbeat_ms obs = last_observed \<and> \<not> nh_alive entry \<and> nh_alive obs)
        then \<lparr>hm_nodes = nodes, hm_last_observation_ms = observations\<rparr>
        else \<lparr>hm_nodes = AList.update (nh_node_id obs)
                (entry\<lparr>nh_node_id := nh_node_id obs, nh_alive := nh_alive obs,
                       nh_last_heartbeat_ms := nh_last_heartbeat_ms obs\<rparr>) nodes,
              hm_last_observation_ms =
                AList.update (nh_node_id obs) (nh_last_heartbeat_ms obs) observations\<rparr>)"

definition HM_IngestGossip :: "NodeHealth list \<Rightarrow> HeartbeatManager \<Rightarrow> HeartbeatManager" where
  "HM_IngestGossip observations h = fold ingest_one observations h"

definition HM_GetNodeHealth :: "string \<Rightarrow> HeartbeatManager \<Rightarrow> NodeHealth option" where
  "HM_GetNodeHealth node_id h = map_of (hm_nodes h) node_id"

definition Snapshot :: "HeartbeatManager \<Rightarrow> NodeHealth list" where
  "Snapshot h = map snd (hm_nodes h)"

definition IsAlive :: "string \<Rightarrow> HeartbeatManager \<Rightarrow> bool" where
  "IsAlive node_id h =
     (case map_of (hm_nodes h) node_id of None \<Rightarrow> False | Some health \<Rightarrow> nh_alive health)"

section \<open>The view of a node\<close>

text \<open>
  What the manager knows of a node: whether it is alive, its last heartbeat and the time of
  the last observation that counted.
\<close>

type_synonym node_view = "bool \<times> u64 \<times> u64"

definition view :: "HeartbeatManager \<Rightarrow> string \<rightharpoonup> node_view" where
  "view h node = (case map_of (hm_nodes h) node of None \<Rightarrow> None
     | Some e \<Rightarrow> Some (nh_alive e, nh_last_heartbeat_ms e,
                       (case map_of (hm_last_observation_ms h) node of None \<Rightarrow> 0 | Some t \<Rightarrow> t)))"

definition hb_inv :: "HeartbeatManager \<Rightarrow> bool" where
  "hb_inv h \<longleftrightarrow>
     umap_inv (hm_nodes h) \<and> umap_inv (hm_last_observation_ms h) \<and>
     dom (map_of (hm_nodes h)) = dom (map_of (hm_last_observation_ms h)) \<and>
     (\<forall>node e. map_of (hm_nodes h) node = Some e \<longrightarrow> nh_node_id e = node) \<and>
     (\<forall>node alive hb t. view h node = Some (alive, hb, t) \<longrightarrow> hb \<le> t)"

text \<open>The effect of a report on the view, for a node with a non-empty id.\<close>

fun merge_alive :: "u64 \<Rightarrow> node_view option \<Rightarrow> node_view option" where
  "merge_alive t None = Some (True, t, t)"
| "merge_alive t (Some (alive, hb, seen)) = Some (if t < seen then (alive, hb, seen) else (True, t, t))"

fun merge_timeout :: "u64 \<Rightarrow> node_view option \<Rightarrow> node_view option" where
  "merge_timeout t None = Some (False, 0, t)"
| "merge_timeout t (Some (alive, hb, seen)) =
     Some (if t < seen then (alive, hb, seen) else (False, hb, t))"

fun merge_gossip :: "bool \<Rightarrow> u64 \<Rightarrow> node_view option \<Rightarrow> node_view option" where
  "merge_gossip up t None = Some (up, t, t)"
| "merge_gossip up t (Some (alive, hb, seen)) =
     Some (if t < seen \<or> t = seen \<and> \<not> alive \<and> up then (alive, hb, seen) else (up, t, t))"

lemma view_None: "hb_inv h \<Longrightarrow> view h node = None \<Longrightarrow>
    map_of (hm_nodes h) node = None \<and> map_of (hm_last_observation_ms h) node = None"
  unfolding hb_inv_def view_def by (auto split: option.splits) (metis domIff)

lemma view_Some:
  assumes "hb_inv h" and "view h node = Some (alive, hb, t)"
  shows "map_of (hm_nodes h) node =
           Some \<lparr>nh_node_id = node, nh_alive = alive, nh_last_heartbeat_ms = hb\<rparr>"
    and "map_of (hm_last_observation_ms h) node = Some t"
proof -
  from assms(2) obtain e where e: "map_of (hm_nodes h) node = Some e" "nh_alive e = alive"
    "nh_last_heartbeat_ms e = hb" by (auto simp: view_def split: option.splits)
  with assms(1) have "nh_node_id e = node" by (simp add: hb_inv_def)
  with e show "map_of (hm_nodes h) node =
      Some \<lparr>nh_node_id = node, nh_alive = alive, nh_last_heartbeat_ms = hb\<rparr>" by (cases e) simp
  from e(1) assms(1) obtain t' where "map_of (hm_last_observation_ms h) node = Some t'"
    unfolding hb_inv_def by (metis domD domI)
  with assms(2) e(1) show "map_of (hm_last_observation_ms h) node = Some t" by (simp add: view_def)
qed

text \<open>
  Each method replaces what is known of one node. The predicate says how, and the two lemmas
  after it give the view and the invariant.
\<close>

definition replaces :: "string \<Rightarrow> node_view \<Rightarrow> HeartbeatManager \<Rightarrow> HeartbeatManager \<Rightarrow> bool" where
  "replaces node v h h' \<longleftrightarrow> (case v of (alive, hb, t) \<Rightarrow>
     map_of (hm_nodes h') = (map_of (hm_nodes h))
       (node \<mapsto> \<lparr>nh_node_id = node, nh_alive = alive, nh_last_heartbeat_ms = hb\<rparr>) \<and>
     map_of (hm_last_observation_ms h') = (map_of (hm_last_observation_ms h))(node \<mapsto> t) \<and>
     umap_inv (hm_nodes h') \<and> umap_inv (hm_last_observation_ms h') \<and> hb \<le> t)"

lemma replaces_view: "replaces node v h h' \<Longrightarrow> view h' = (view h)(node \<mapsto> v)"
  by (rule ext, cases v) (auto simp: replaces_def view_def split: option.splits)

lemma replaces_inv:
  assumes "hb_inv h" and "replaces node v h h'"
  shows "hb_inv h'"
proof -
  obtain alive hb t where v: "v = (alive, hb, t)" by (cases v)
  have "x \<le> y" if "view h' n = Some (a, x, y)" for n a x y
    using that assms by (auto simp: replaces_view [OF assms(2)] hb_inv_def replaces_def v split: if_splits)
  with assms show ?thesis by (auto simp: hb_inv_def replaces_def v)
qed

text \<open>What the two subscripts at the head of every method read.\<close>

lemma subscripts:
  assumes "hb_inv h"
  shows "(case view h node of
            None \<Rightarrow> map_of (hm_nodes h) node = None \<and> map_of (hm_last_observation_ms h) node = None
          | Some (alive, hb, t) \<Rightarrow>
              map_of (hm_nodes h) node = Some \<lparr>nh_node_id = node, nh_alive = alive, nh_last_heartbeat_ms = hb\<rparr> \<and>
              map_of (hm_last_observation_ms h) node = Some t \<and> hb \<le> t)"
proof (cases "view h node")
  case None
  with view_None [OF assms] show ?thesis by simp
next
  case (Some v)
  obtain alive hb t where v: "v = (alive, hb, t)" by (cases v)
  from Some v assms have "hb \<le> t" by (simp add: hb_inv_def)
  with view_Some [OF assms Some [unfolded v]] Some v show ?thesis by simp
qed

text \<open>
  The empty id is special: its entry never has a non-empty id, so every report about it is
  taken as the first one.
\<close>

definition seen_view :: "HeartbeatManager \<Rightarrow> string \<Rightarrow> node_view option" where
  "seen_view h node = (if node = [] then None else view h node)"

lemma RecordHeartbeat_replaces:
  assumes "hb_inv h"
  shows "replaces node (the (merge_alive t (seen_view h node))) h (HM_RecordHeartbeat node t h)"
  using subscripts [OF assms, of node] assms
  by (auto simp: HM_RecordHeartbeat_def subscript_def default_health_def replaces_def seen_view_def
      update_conv' hb_inv_def umap.inv_put fun_upd_idem split: option.splits)

lemma RegisterNode_is_RecordHeartbeat: "HM_RegisterNode = HM_RecordHeartbeat"
  by (intro ext) (simp add: HM_RegisterNode_def HM_RecordHeartbeat_def)

lemma ingest_one_replaces:
  assumes "hb_inv h"
  shows "replaces (nh_node_id obs)
           (the (merge_gossip (nh_alive obs) (nh_last_heartbeat_ms obs) (seen_view h (nh_node_id obs))))
           h (ingest_one obs h)"
  using subscripts [OF assms, of "nh_node_id obs"] assms
  by (auto simp: ingest_one_def subscript_def default_health_def replaces_def seen_view_def
      update_conv' hb_inv_def umap.inv_put fun_upd_idem split: option.splits)

lemma OnHeartbeatTimeout_replaces:
  assumes "hb_inv h"
  shows "\<exists>v. replaces node v h (HM_OnHeartbeatTimeout node t h) \<and>
             (node \<noteq> [] \<longrightarrow> Some v = merge_timeout t (view h node)) \<and> (\<not> fst v \<or> node \<noteq> [])"
proof (cases "view h node")
  case None
  with subscripts [OF assms, of node] assms
  have "replaces node (False, 0, t) h (HM_OnHeartbeatTimeout node t h)"
    by (auto simp: HM_OnHeartbeatTimeout_def subscript_def default_health_def replaces_def
        update_conv' hb_inv_def umap.inv_put word_gt_0)
  with None show ?thesis by fastforce
next
  case (Some v)
  obtain alive hb seen where v: "v = (alive, hb, seen)" by (cases v)
  let ?v = "if node \<noteq> [] \<and> t < seen then (alive, hb, seen) else (False, hb, max t seen)"
  from Some v assms have "hb \<le> seen" by (simp add: hb_inv_def)
  then have "seen < t \<Longrightarrow> hb \<le> t" by (simp add: order_trans)
  with Some v subscripts [OF assms, of node] assms
  have "replaces node ?v h (HM_OnHeartbeatTimeout node t h)"
    by (auto simp: HM_OnHeartbeatTimeout_def subscript_def replaces_def max_def
        update_conv' hb_inv_def umap.inv_put fun_upd_idem)
  with Some v show ?thesis by (intro exI [of _ ?v]) (auto simp: max_def)
qed

lemma hb_inv_new: "hb_inv new_heartbeat_manager"
  by (simp add: hb_inv_def new_heartbeat_manager_def view_def umap_inv_def)

lemma hb_inv_methods [inv_pres]:
  assumes "hb_inv h"
  shows "hb_inv (HM_RegisterNode node t h)" "hb_inv (HM_RecordHeartbeat node t h)"
    "hb_inv (HM_OnHeartbeatTimeout node t h)" "hb_inv (ingest_one obs h)"
proof -
  show "hb_inv (HM_RegisterNode node t h)" "hb_inv (HM_RecordHeartbeat node t h)"
    unfolding RegisterNode_is_RecordHeartbeat
    by (rule replaces_inv [OF assms RecordHeartbeat_replaces [OF assms]])+
  show "hb_inv (ingest_one obs h)" by (rule replaces_inv [OF assms ingest_one_replaces [OF assms]])
  show "hb_inv (HM_OnHeartbeatTimeout node t h)"
    using OnHeartbeatTimeout_replaces [OF assms, of node t] replaces_inv [OF assms] by blast
qed

lemma hb_inv_IngestGossip [inv_pres]: "hb_inv h \<Longrightarrow> hb_inv (HM_IngestGossip obs h)"
  unfolding HM_IngestGossip_def by (induction obs arbitrary: h) (simp_all add: inv_pres)

lemma IsAlive_view: "IsAlive node h \<longleftrightarrow> (\<exists>hb t. view h node = Some (True, hb, t))"
  by (auto simp: IsAlive_def view_def split: option.splits)

section \<open>Gossip as a join\<close>

text \<open>
  On the views, one observation is a function of the map of views; two of them commute, since
  a later timestamp wins and, at the same time, \<open>dead\<close> wins over \<open>alive\<close>.
\<close>

definition join_obs :: "NodeHealth \<Rightarrow> (string \<rightharpoonup> node_view) \<Rightarrow> string \<rightharpoonup> node_view" where
  "join_obs obs V = V(nh_node_id obs :=
     merge_gossip (nh_alive obs) (nh_last_heartbeat_ms obs) (V (nh_node_id obs)))"

lemma merge_gossip_commute:
  "merge_gossip a s (merge_gossip b t v) = merge_gossip b t (merge_gossip a s v)"
  by (cases v) auto

lemma join_obs_commute: "join_obs a \<circ> join_obs b = join_obs b \<circ> join_obs a"
  by (auto simp: join_obs_def fun_eq_iff merge_gossip_commute)

lemma merge_gossip_Some: "merge_gossip a t v \<noteq> None"
  by (cases v) auto

lemma view_ingest_one:
  assumes "hb_inv h" and "nh_node_id obs \<noteq> []"
  shows "view (ingest_one obs h) = join_obs obs (view h)"
  using replaces_view [OF ingest_one_replaces [OF assms(1), of obs]] assms(2)
    merge_gossip_Some [of "nh_alive obs" "nh_last_heartbeat_ms obs" "view h (nh_node_id obs)"]
  by (auto simp: join_obs_def seen_view_def)

lemma view_IngestGossip:
  assumes "hb_inv h" and "\<forall>obs \<in> set os. nh_node_id obs \<noteq> []"
  shows "view (HM_IngestGossip os h) = fold join_obs os (view h)"
  using assms unfolding HM_IngestGossip_def
  by (induction os arbitrary: h) (simp_all add: view_ingest_one inv_pres)

section \<open>The failure detector a client sees\<close>

text \<open>
  The control plane elects leaders by asking which nodes are alive. It relies on this: a
  report that a node is up never takes another node, or the node itself, down; a timeout or
  gossip may change any node and must be followed by a new look at the leaders.
\<close>

locale failure_detector =
  fixes fd_inv :: "'h \<Rightarrow> bool"
    and fd_alive :: "string \<Rightarrow> 'h \<Rightarrow> bool"
    and fd_up :: "string \<Rightarrow> u64 \<Rightarrow> 'h \<Rightarrow> 'h"
  assumes up_inv: "fd_inv h \<Longrightarrow> fd_inv (fd_up node t h)"
    and up_alive: "fd_inv h \<Longrightarrow> fd_alive n h \<Longrightarrow> fd_alive n (fd_up node t h)"
begin

lemma ups_alive:
  "fd_inv h \<Longrightarrow> fd_alive n h \<Longrightarrow> fd_alive n (fold (\<lambda>(node, t). fd_up node t) reports h)"
  by (induction reports arbitrary: h) (auto simp: up_inv up_alive)

lemma alive_subset: "fd_inv h \<Longrightarrow> {n. fd_alive n h} \<subseteq> {n. fd_alive n (fd_up node t h)}"
  using up_alive by blast

end

lemma RecordHeartbeat_alive:
  assumes "hb_inv h" and "IsAlive n h"
  shows "IsAlive n (HM_RecordHeartbeat node t h)"
proof -
  from assms(2) obtain hb s where v: "view h n = Some (True, hb, s)" by (auto simp: IsAlive_view)
  show ?thesis
    unfolding IsAlive_view replaces_view [OF RecordHeartbeat_replaces [OF assms(1)]]
    using v by (cases "n = node"; cases "n = []") (auto simp: seen_view_def)
qed

interpretation hb_detector: failure_detector hb_inv IsAlive HM_RecordHeartbeat
  by unfold_locales (auto intro: inv_pres RecordHeartbeat_alive)

section \<open>Properties of the heartbeat manager\<close>

text \<open>
  C15: gossip converges. Two managers that start from the same state and ingest the same
  observations, in whatever order, batched or not, end with the same knowledge of every node
  (liveness, last heartbeat, last observation), as long as no observation has an empty id.
\<close>

theorem gossip_order_is_irrelevant:
  assumes "hb_inv h" and "mset observations = mset observations'"
    and "\<forall>obs \<in> set observations. nh_node_id obs \<noteq> []"
  shows "view (HM_IngestGossip observations h) = view (HM_IngestGossip observations' h) \<and>
         (\<forall>node. HM_GetNodeHealth node (HM_IngestGossip observations h) =
                 HM_GetNodeHealth node (HM_IngestGossip observations' h))"
proof -
  have "fold join_obs observations = fold join_obs observations'"
    by (rule fold_multiset_equiv [OF _ assms(2)]) (rule join_obs_commute)
  moreover from assms(2) have "set observations = set observations'" by (rule mset_eq_setD)
  ultimately have v: "view (HM_IngestGossip observations h) = view (HM_IngestGossip observations' h)"
    using assms(1,3) by (simp add: view_IngestGossip)
  have "map_of (hm_nodes x) node = map_of (hm_nodes y) node"
    if "hb_inv x" "hb_inv y" "view x = view y" for x y node
    using subscripts [OF that(1), of node] subscripts [OF that(2), of node] that(3)
    by (auto split: option.splits)
  with v assms(1) show ?thesis by (simp add: HM_GetNodeHealth_def inv_pres)
qed

theorem gossip_order_is_irrelevant_witness:
  "IsAlive ''a'' (HM_IngestGossip [\<lparr>nh_node_id = ''a'', nh_alive = True, nh_last_heartbeat_ms = 5\<rparr>,
       \<lparr>nh_node_id = ''a'', nh_alive = False, nh_last_heartbeat_ms = 5\<rparr>] new_heartbeat_manager) = False \<and>
   view (HM_IngestGossip [\<lparr>nh_node_id = ''a'', nh_alive = True, nh_last_heartbeat_ms = 5\<rparr>,
       \<lparr>nh_node_id = ''a'', nh_alive = False, nh_last_heartbeat_ms = 5\<rparr>] new_heartbeat_manager) =
   view (HM_IngestGossip [\<lparr>nh_node_id = ''a'', nh_alive = False, nh_last_heartbeat_ms = 5\<rparr>,
       \<lparr>nh_node_id = ''a'', nh_alive = True, nh_last_heartbeat_ms = 5\<rparr>] new_heartbeat_manager)"
proof
  let ?up = "\<lparr>nh_node_id = ''a'', nh_alive = True, nh_last_heartbeat_ms = 5\<rparr>"
  let ?down = "\<lparr>nh_node_id = ''a'', nh_alive = False, nh_last_heartbeat_ms = 5\<rparr>"
  show "IsAlive ''a'' (HM_IngestGossip [?up, ?down] new_heartbeat_manager) = False" by code_simp
  have "mset [?up, ?down] = mset [?down, ?up]" by simp
  from gossip_order_is_irrelevant [OF hb_inv_new this] show
    "view (HM_IngestGossip [?up, ?down] new_heartbeat_manager) =
     view (HM_IngestGossip [?down, ?up] new_heartbeat_manager)" by simp
qed

datatype report = Up string u64 | Down string u64 | Gossip NodeHealth

fun report_node :: "report \<Rightarrow> string" where
  "report_node (Up n t) = n" | "report_node (Down n t) = n" | "report_node (Gossip obs) = nh_node_id obs"

fun report_time :: "report \<Rightarrow> u64" where
  "report_time (Up n t) = t" | "report_time (Down n t) = t"
| "report_time (Gossip obs) = nh_last_heartbeat_ms obs"

fun deliver :: "report \<Rightarrow> HeartbeatManager \<Rightarrow> HeartbeatManager" where
  "deliver (Up n t) h = HM_RecordHeartbeat n t h"
| "deliver (Down n t) h = HM_OnHeartbeatTimeout n t h"
| "deliver (Gossip obs) h = HM_IngestGossip [obs] h"

lemma deliver_view:
  assumes "hb_inv h" and "report_node r \<noteq> []" and "view h (report_node r) = Some (alive, hb, seen)"
  obtains v where "view (deliver r h) = (view h)(report_node r \<mapsto> v)"
    and "report_time r < seen \<longrightarrow> v = (alive, hb, seen)" and "seen \<le> snd (snd v)"
proof (cases r)
  case (Up n t)
  with assms(2,3) replaces_view [OF RecordHeartbeat_replaces [OF assms(1), of n t]] show thesis
    by (intro that [of "the (merge_alive t (view h n))"]) (auto simp: seen_view_def)
next
  case (Down n t)
  from OnHeartbeatTimeout_replaces [OF assms(1), of n t] assms(2) obtain v where
    "replaces n v h (HM_OnHeartbeatTimeout n t h)" "Some v = merge_timeout t (view h n)"
    by (auto simp: Down)
  with assms(3) replaces_view show thesis
    by (intro that [of v]) (auto simp: Down split: if_splits)
next
  case (Gossip obs)
  with assms(2,3) replaces_view [OF ingest_one_replaces [OF assms(1), of obs]] show thesis
    by (intro that [of "the (merge_gossip (nh_alive obs) (nh_last_heartbeat_ms obs) (view h (nh_node_id obs)))"])
       (auto simp: seen_view_def HM_IngestGossip_def)
qed

text \<open>
  Stale reports are ignored. A heartbeat, registration, timeout or gossip entry about a
  known node that is older than the last observation of it leaves the knowledge of every node
  as it was; and no report at all makes a node's last observation go back.
\<close>

theorem stale_reports_are_ignored:
  assumes "hb_inv h" and "report_node r \<noteq> []" and "view h (report_node r) = Some (alive, hb, seen)"
  shows "(report_time r < seen \<longrightarrow> view (deliver r h) = view h) \<and>
         (\<exists>alive' hb' seen'. view (deliver r h) (report_node r) = Some (alive', hb', seen') \<and> seen \<le> seen')"
proof -
  obtain v where v: "view (deliver r h) = (view h)(report_node r \<mapsto> v)"
    "report_time r < seen \<longrightarrow> v = (alive, hb, seen)" "seen \<le> snd (snd v)"
    by (rule deliver_view [OF assms])
  obtain a b c where "v = (a, b, c)" by (cases v)
  with v assms(3) show ?thesis by (auto simp: fun_upd_idem)
qed

theorem stale_reports_are_ignored_witness:
  "view (deliver (Down ''a'' 150) (deliver (Up ''a'' 200) new_heartbeat_manager)) =
   view (deliver (Up ''a'' 200) new_heartbeat_manager)"
proof -
  have inv: "hb_inv (deliver (Up ''a'' 200) new_heartbeat_manager)" by (simp add: inv_pres hb_inv_new)
  have v: "view (deliver (Up ''a'' 200) new_heartbeat_manager) (report_node (Down ''a'' 150)) =
      Some (True, 200, 200)" by code_simp
  have n: "report_node (Down ''a'' 150) \<noteq> []" by simp
  from stale_reports_are_ignored [OF inv n v] show ?thesis by simp
qed

end
