(* ===== verification/Raft_Metadata.thy ===== *)
theory Raft_Metadata
  imports Heartbeat_Manager
begin

text \<open>
  Shard leadership, \<open>src/control/raft_metadata_adapter.{hpp,cpp}\<close>: each shard has an ordered
  list of replicas and a leader (the empty string when there is none); timeouts and gossip
  trigger elections. The shard table is an \<open>unordered_map\<close>; the sweep over it updates each
  shard on its own, so its order does not matter.
\<close>

section \<open>The metadata adapter\<close>

record ShardMetadata =
  sm_replicas :: "string list"
  sm_leader :: string

record RaftMetadataAdapter =
  rm_heartbeat :: HeartbeatManager
  rm_shards :: "(string, ShardMetadata) unordered_map"

definition new_raft_adapter :: RaftMetadataAdapter where
  "new_raft_adapter = \<lparr>rm_heartbeat = new_heartbeat_manager, rm_shards = []\<rparr>"

fun elect_loop :: "HeartbeatManager \<Rightarrow> string list \<Rightarrow> ShardMetadata \<Rightarrow> ShardMetadata" where
  "elect_loop h [] shard = shard\<lparr>sm_leader := []\<rparr>"
| "elect_loop h (candidate # candidates) shard =
     (if IsAlive candidate h then shard\<lparr>sm_leader := candidate\<rparr>
      else elect_loop h candidates shard)"

definition ElectLeaderIfNeeded :: "HeartbeatManager \<Rightarrow> ShardMetadata \<Rightarrow> ShardMetadata" where
  "ElectLeaderIfNeeded h shard = elect_loop h (sm_replicas shard) shard"

definition Raft_RegisterNode :: "string \<Rightarrow> u64 \<Rightarrow> RaftMetadataAdapter \<Rightarrow> RaftMetadataAdapter" where
  "Raft_RegisterNode node_id heartbeat_ms a =
     a\<lparr>rm_heartbeat := HM_RegisterNode node_id heartbeat_ms (rm_heartbeat a)\<rparr>"

definition Raft_RecordHeartbeat :: "string \<Rightarrow> u64 \<Rightarrow> RaftMetadataAdapter \<Rightarrow> RaftMetadataAdapter" where
  "Raft_RecordHeartbeat node_id heartbeat_ms a =
     a\<lparr>rm_heartbeat := HM_RecordHeartbeat node_id heartbeat_ms (rm_heartbeat a)\<rparr>"

definition AddShard :: "string \<Rightarrow> string list \<Rightarrow> RaftMetadataAdapter \<Rightarrow> RaftMetadataAdapter" where
  "AddShard shard_id replicas a =
     a\<lparr>rm_shards := AList.update shard_id
         (ElectLeaderIfNeeded (rm_heartbeat a) \<lparr>sm_replicas = replicas, sm_leader = []\<rparr>)
         (rm_shards a)\<rparr>"

definition LeaderForShard :: "string \<Rightarrow> RaftMetadataAdapter \<Rightarrow> string" where
  "LeaderForShard shard_id a =
     (case map_of (rm_shards a) shard_id of None \<Rightarrow> [] | Some shard \<Rightarrow> sm_leader shard)"

definition refresh_shard :: "HeartbeatManager \<Rightarrow> ShardMetadata \<Rightarrow> ShardMetadata" where
  "refresh_shard h shard =
     (if sm_leader shard \<noteq> [] \<and> IsAlive (sm_leader shard) h then shard
      else ElectLeaderIfNeeded h shard)"

definition refresh_shards :: "HeartbeatManager \<Rightarrow> (string, ShardMetadata) unordered_map
    \<Rightarrow> (string, ShardMetadata) unordered_map" where
  "refresh_shards h shards = map (\<lambda>(shard_id, shard). (shard_id, refresh_shard h shard)) shards"

definition Raft_OnHeartbeatTimeout :: "string \<Rightarrow> u64 \<Rightarrow> RaftMetadataAdapter \<Rightarrow> RaftMetadataAdapter" where
  "Raft_OnHeartbeatTimeout node_id timeout_ms a =
     (let h = HM_OnHeartbeatTimeout node_id timeout_ms (rm_heartbeat a)
      in a\<lparr>rm_heartbeat := h, rm_shards := refresh_shards h (rm_shards a)\<rparr>)"

definition Raft_IngestGossip :: "NodeHealth list \<Rightarrow> RaftMetadataAdapter \<Rightarrow> RaftMetadataAdapter" where
  "Raft_IngestGossip observations a =
     (let h = HM_IngestGossip observations (rm_heartbeat a)
      in a\<lparr>rm_heartbeat := h, rm_shards := refresh_shards h (rm_shards a)\<rparr>)"

definition Raft_GetNodeHealth :: "string \<Rightarrow> RaftMetadataAdapter \<Rightarrow> NodeHealth option" where
  "Raft_GetNodeHealth node_id a = HM_GetNodeHealth node_id (rm_heartbeat a)"

section \<open>Elections\<close>

text \<open>The reference: the first live replica, or none.\<close>

definition first_live :: "HeartbeatManager \<Rightarrow> string list \<Rightarrow> string" where
  "first_live h replicas = (case find (\<lambda>r. IsAlive r h) replicas of None \<Rightarrow> [] | Some r \<Rightarrow> r)"

lemma elect_loop_first_live: "elect_loop h cs shard = shard\<lparr>sm_leader := first_live h cs\<rparr>"
  by (induction cs) (auto simp: first_live_def)

lemma ElectLeader_first_live:
  "ElectLeaderIfNeeded h shard = shard\<lparr>sm_leader := first_live h (sm_replicas shard)\<rparr>"
  by (simp add: ElectLeaderIfNeeded_def elect_loop_first_live)

lemma first_live_in:
  "first_live h rs \<noteq> [] \<Longrightarrow> first_live h rs \<in> set rs \<and> IsAlive (first_live h rs) h"
  by (induction rs) (auto simp: first_live_def split: if_splits)

lemma first_live_none: "[] \<notin> set rs \<Longrightarrow> first_live h rs = [] \<longleftrightarrow> (\<forall>r \<in> set rs. \<not> IsAlive r h)"
  by (induction rs) (auto simp: first_live_def)

lemma map_of_refresh_shards: "map_of (refresh_shards h m) = map_option (refresh_shard h) \<circ> map_of m"
  by (rule ext) (induction m, auto simp: refresh_shards_def)

lemma umap_inv_refresh_shards [inv_pres]: "umap_inv m \<Longrightarrow> umap_inv (refresh_shards h m)"
  by (simp add: umap_inv_def refresh_shards_def comp_def case_prod_unfold)

section \<open>Reachable states\<close>

inductive raft_step :: "RaftMetadataAdapter \<Rightarrow> RaftMetadataAdapter \<Rightarrow> bool" where
  register: "raft_step a (Raft_RegisterNode node t a)"
| heartbeat: "raft_step a (Raft_RecordHeartbeat node t a)"
| add_shard: "raft_step a (AddShard shard replicas a)"
| timeout: "raft_step a (Raft_OnHeartbeatTimeout node t a)"
| gossip: "raft_step a (Raft_IngestGossip observations a)"

inductive raft_reachable :: "RaftMetadataAdapter \<Rightarrow> bool" where
  start: "raft_reachable new_raft_adapter"
| step: "raft_reachable a \<Longrightarrow> raft_step a b \<Longrightarrow> raft_reachable b"

definition shard_ok :: "HeartbeatManager \<Rightarrow> ShardMetadata \<Rightarrow> bool" where
  "shard_ok h shard \<longleftrightarrow>
     (sm_leader shard \<noteq> [] \<longrightarrow> sm_leader shard \<in> set (sm_replicas shard) \<and> IsAlive (sm_leader shard) h)"

definition raft_inv :: "RaftMetadataAdapter \<Rightarrow> bool" where
  "raft_inv a \<longleftrightarrow> hb_inv (rm_heartbeat a) \<and> umap_inv (rm_shards a) \<and>
     (\<forall>shard_id shard. map_of (rm_shards a) shard_id = Some shard \<longrightarrow> shard_ok (rm_heartbeat a) shard)"

lemma shard_ok_elect: "shard_ok h (ElectLeaderIfNeeded h shard)"
  using first_live_in by (auto simp: shard_ok_def ElectLeader_first_live)

lemma shard_ok_refresh: "shard_ok g shard \<Longrightarrow> shard_ok h (refresh_shard h shard)"
  using shard_ok_elect [of h shard] by (auto simp: refresh_shard_def shard_ok_def)

lemma raft_inv_refresh:
  assumes "raft_inv a" "hb_inv h"
  shows "raft_inv (a\<lparr>rm_heartbeat := h, rm_shards := refresh_shards h (rm_shards a)\<rparr>)"
  using assms by (auto simp: raft_inv_def inv_pres map_of_refresh_shards intro: shard_ok_refresh)

lemma shard_ok_up: "hb_inv h \<Longrightarrow> shard_ok h shard \<Longrightarrow> shard_ok (HM_RecordHeartbeat node t h) shard"
  using hb_detector.up_alive by (auto simp: shard_ok_def)

lemma raft_inv_step:
  assumes "raft_step a b" and inv: "raft_inv a"
  shows "raft_inv b"
  using assms(1)
proof cases
  case (register node t)
  with inv show ?thesis
    by (auto simp: raft_inv_def Raft_RegisterNode_def RegisterNode_is_RecordHeartbeat inv_pres shard_ok_up)
next
  case (heartbeat node t)
  with inv show ?thesis by (auto simp: raft_inv_def Raft_RecordHeartbeat_def inv_pres shard_ok_up)
next
  case (add_shard shard replicas)
  have "shard_ok (rm_heartbeat a)
      (ElectLeaderIfNeeded (rm_heartbeat a) \<lparr>sm_replicas = replicas, sm_leader = []\<rparr>)"
    by (rule shard_ok_elect)
  then have "raft_inv (AddShard shard replicas a)" using inv
    by (auto simp: raft_inv_def AddShard_def umap.inv_put update_conv' shard_ok_def)
  with add_shard show ?thesis by simp
next
  case (timeout node t)
  have "hb_inv (HM_OnHeartbeatTimeout node t (rm_heartbeat a))"
    using inv by (simp add: raft_inv_def inv_pres)
  from raft_inv_refresh [OF inv this] timeout show ?thesis
    by (simp add: Raft_OnHeartbeatTimeout_def Let_def)
next
  case (gossip observations)
  have "hb_inv (HM_IngestGossip observations (rm_heartbeat a))"
    using inv by (simp add: raft_inv_def inv_pres)
  from raft_inv_refresh [OF inv this] gossip show ?thesis
    by (simp add: Raft_IngestGossip_def Let_def)
qed

lemma raft_reachable_inv: "raft_reachable a \<Longrightarrow> raft_inv a"
proof (induction rule: raft_reachable.induct)
  case start
  show ?case by (simp add: raft_inv_def new_raft_adapter_def hb_inv_new umap_inv_def)
qed (rule raft_inv_step)

section \<open>Properties\<close>

text \<open>
  The adapter of the witnesses: two nodes report at times 10 and 20, the shard is replicated on
  both (and on a node that never reported), then the first node times out.
\<close>

definition demo_start :: RaftMetadataAdapter where
  "demo_start = AddShard ''s'' [''c'', ''a'', ''b'']
     (Raft_RecordHeartbeat ''b'' 20 (Raft_RegisterNode ''a'' 10 new_raft_adapter))"

definition demo_failover :: RaftMetadataAdapter where
  "demo_failover = Raft_OnHeartbeatTimeout ''a'' 30 demo_start"

lemma demo_start_reachable: "raft_reachable demo_start"
  unfolding demo_start_def
  by (rule raft_reachable.step [OF raft_reachable.step [OF raft_reachable.step [OF raft_reachable.start
        raft_step.register] raft_step.heartbeat] raft_step.add_shard])

lemma demo_failover_reachable: "raft_reachable demo_failover"
  unfolding demo_failover_def by (rule raft_reachable.step [OF demo_start_reachable raft_step.timeout])

text \<open>
  C16: in every state the adapter's methods can reach, a shard that has a leader has one of its
  own replicas as leader, and that replica is believed alive: no sequence of registrations,
  heartbeats, timeouts, gossip and shard creations leaves a dead or foreign leader in place.
\<close>

theorem leader_is_live_replica:
  assumes "raft_reachable a" and "LeaderForShard shard_id a \<noteq> []"
  shows "IsAlive (LeaderForShard shard_id a) (rm_heartbeat a) \<and>
    (\<exists>shard. map_of (rm_shards a) shard_id = Some shard \<and>
       LeaderForShard shard_id a \<in> set (sm_replicas shard))"
  using raft_reachable_inv [OF assms(1)] assms(2)
  by (auto simp: raft_inv_def LeaderForShard_def shard_ok_def split: option.splits)

theorem leader_is_live_replica_witness:
  "LeaderForShard ''s'' demo_failover = ''b'' \<and>
   IsAlive (LeaderForShard ''s'' demo_failover) (rm_heartbeat demo_failover)"
proof -
  have leader: "LeaderForShard ''s'' demo_failover = ''b''" by code_simp
  then show ?thesis
    using leader_is_live_replica [OF demo_failover_reachable, of "''s''"] by simp
qed

lemma LeaderForShard_refresh:
  "map_of (rm_shards a) shard_id = Some shard \<Longrightarrow>
   LeaderForShard shard_id (a\<lparr>rm_heartbeat := h, rm_shards := refresh_shards h (rm_shards a)\<rparr>) =
     (if sm_leader shard \<noteq> [] \<and> IsAlive (sm_leader shard) h then sm_leader shard
      else first_live h (sm_replicas shard))"
  by (simp add: LeaderForShard_def map_of_refresh_shards refresh_shard_def ElectLeader_first_live)

text \<open>
  C17: failover after a timeout or after gossip. The sweep over the shards keeps a leader that is
  still alive (there is no needless failover), otherwise it installs the first live replica in
  the replica list's order, and it leaves a shard without leader exactly when none of its
  replicas is alive. The last part supposes that no replica has the empty name, which the
  adapter uses for ``no leader''.
\<close>

theorem failover_elects_first_live:
  assumes reach: "raft_reachable a"
    and after: "b = Raft_OnHeartbeatTimeout node t a \<or> b = Raft_IngestGossip observations a"
    and shard: "map_of (rm_shards a) shard_id = Some shard"
    and named: "[] \<notin> set (sm_replicas shard)"
  shows "LeaderForShard shard_id b =
      (if LeaderForShard shard_id a \<noteq> [] \<and> IsAlive (LeaderForShard shard_id a) (rm_heartbeat b)
       then LeaderForShard shard_id a
       else first_live (rm_heartbeat b) (sm_replicas shard)) \<and>
    (LeaderForShard shard_id b = [] \<longleftrightarrow> (\<forall>r \<in> set (sm_replicas shard). \<not> IsAlive r (rm_heartbeat b)))"
proof -
  obtain h where b: "b = a\<lparr>rm_heartbeat := h, rm_shards := refresh_shards h (rm_shards a)\<rparr>"
    using after by (auto simp: Raft_OnHeartbeatTimeout_def Raft_IngestGossip_def Let_def)
  have own: "sm_leader shard \<noteq> [] \<Longrightarrow> sm_leader shard \<in> set (sm_replicas shard)"
    using raft_reachable_inv [OF reach] shard by (auto simp: raft_inv_def shard_ok_def)
  have old: "LeaderForShard shard_id a = sm_leader shard"
    using shard by (simp add: LeaderForShard_def)
  show ?thesis
    using LeaderForShard_refresh [OF shard, of h] own first_live_none [OF named, of h]
    by (auto simp: b old)
qed

theorem failover_elects_first_live_witness:
  "LeaderForShard ''s'' demo_start = ''a'' \<and>
   LeaderForShard ''s'' (Raft_OnHeartbeatTimeout ''a'' 30 demo_start) =
     first_live (rm_heartbeat (Raft_OnHeartbeatTimeout ''a'' 30 demo_start)) [''c'', ''a'', ''b'']"
proof -
  have shard: "map_of (rm_shards demo_start) ''s'' =
      Some \<lparr>sm_replicas = [''c'', ''a'', ''b''], sm_leader = ''a''\<rparr>" by code_simp
  have dead: "\<not> IsAlive ''a'' (rm_heartbeat (Raft_OnHeartbeatTimeout ''a'' 30 demo_start))" by code_simp
  have leader: "LeaderForShard ''s'' demo_start = ''a''" by code_simp
  show ?thesis
    using failover_elects_first_live [OF demo_start_reachable disjI1 [OF refl] shard, of "''a''" 30]
      dead leader by simp
qed

text \<open>
  Elections run only on timeouts, on gossip and when a shard is added. A shard whose replicas
  had all failed stays without leader when a replica reports a heartbeat again, although that
  replica is then believed alive; only the next timeout or gossip batch, even an empty one,
  elects it.
\<close>

theorem recovered_replica_is_not_elected:
  "let down = Raft_OnHeartbeatTimeout ''b'' 40 demo_failover;
       up = Raft_RecordHeartbeat ''b'' 50 down
   in LeaderForShard ''s'' down = [] \<and>
      IsAlive ''b'' (rm_heartbeat up) \<and> LeaderForShard ''s'' up = [] \<and>
      LeaderForShard ''s'' (Raft_IngestGossip [] up) = ''b''"
  by code_simp

end
