(* ===== verification/Number_Text.thy ===== *)
theory Number_Text
  imports Cache_Prelude
begin

text \<open>
  Decimal numbers as text: \<open>std::to_string\<close>, which builds ring tokens, RESP lengths and the
  HTTP content length, and \<open>ParseNumber\<close>, defined with the same body over \<open>std::from_chars\<close>
  in \<open>src/protocol/resp/resp_parser.cpp\<close> and in \<open>src/server/main.cpp\<close>. The two are inverse
  on the range of \<open>long long\<close>.
\<close>

section \<open>Printing\<close>

definition digit_char :: "nat \<Rightarrow> char" where
  "digit_char d = char_of (48 + d)"

fun digits :: "nat \<Rightarrow> string" where
  "digits n = (if n < 10 then [digit_char n] else digits (n div 10) @ [digit_char (n mod 10)])"

declare digits.simps [simp del]

definition to_string :: "int \<Rightarrow> string" where
  "to_string i = (if i < 0 then CHR ''-'' # digits (nat (- i)) else digits (nat i))"

section \<open>Reading\<close>

definition is_digit :: "char \<Rightarrow> bool" where
  "is_digit c \<longleftrightarrow> 48 \<le> (of_char c :: nat) \<and> (of_char c :: nat) \<le> 57"

definition digits_value :: "string \<Rightarrow> int" where
  "digits_value cs = foldl (\<lambda>v c. 10 * v + (of_char c - 48)) 0 cs"

definition llong_min :: int where "llong_min = - 9223372036854775808"
definition llong_max :: int where "llong_max = 9223372036854775807"

text \<open>
  \<open>std::from_chars\<close> on a \<open>long long\<close> in base ten: an optional minus sign, then the longest run
  of digits. \<open>None\<close> is a non-zero error code (no digits, or a value out of range), otherwise the
  value and the unread rest. Neither a plus sign nor white space is accepted.
\<close>

definition from_chars :: "string \<Rightarrow> (int \<times> string) option" where
  "from_chars text =
     (let negative = (case text of c # _ \<Rightarrow> c = CHR ''-'' | [] \<Rightarrow> False);
          body = (if negative then tl text else text);
          run = takeWhile is_digit body;
          value = (if negative then - digits_value run else digits_value run)
      in if run = [] \<or> value < llong_min \<or> llong_max < value then None
         else Some (value, dropWhile is_digit body))"

definition ParseNumber :: "string \<Rightarrow> int option" where
  "ParseNumber text =
     (if text = [] then None
      else case from_chars text of
             None \<Rightarrow> None
           | Some (result, rest) \<Rightarrow> if rest \<noteq> [] then None else Some result)"

section \<open>Reading back what was printed\<close>

lemma of_char_digit_char: "d < 10 \<Longrightarrow> of_char (digit_char d) = (48 + of_nat d :: 'a :: comm_semiring_1)"
proof -
  assume d: "d < 10"
  have "(of_char (digit_char d) :: nat) = 48 + d"
    using d by (simp add: digit_char_def of_char_of)
  then have "of_nat (of_char (digit_char d) :: nat) = (48 + of_nat d :: 'a)" by simp
  then show ?thesis by (simp only: of_nat_of_char)
qed

lemma is_digit_digit_char [simp]: "d < 10 \<Longrightarrow> is_digit (digit_char d)"
  by (simp add: is_digit_def of_char_digit_char)

lemma digits_all_digits: "c \<in> set (digits n) \<Longrightarrow> is_digit c"
proof (induction n rule: digits.induct)
  case (1 n)
  then show ?case by (subst (asm) digits.simps) (auto split: if_splits)
qed

lemma digits_nonempty [simp]: "digits n \<noteq> []"
  by (subst digits.simps) simp

lemma digits_value_snoc: "digits_value (cs @ [c]) = 10 * digits_value cs + (of_char c - 48)"
  by (simp add: digits_value_def)

lemma digits_value_digits: "digits_value (digits n) = int n"
proof (induction n rule: digits.induct)
  case (1 n)
  show ?case
  proof (cases "n < 10")
    case True
    then show ?thesis
      by (subst digits.simps) (simp add: digits_value_def of_char_digit_char)
  next
    case False
    then have "digits_value (digits n) = 10 * int (n div 10) + int (n mod 10)"
      using 1 by (subst digits.simps) (simp add: digits_value_snoc of_char_digit_char)
    then show ?thesis by (simp add: zdiv_int zmod_int)
  qed
qed

lemma minus_not_digit: "\<not> is_digit CHR ''-''"
  by (simp add: is_digit_def)

lemma hd_digits: "digits n = c # cs \<Longrightarrow> c \<noteq> CHR ''-''"
  using digits_all_digits [of c n] minus_not_digit by auto

lemma takeWhile_digits [simp]: "takeWhile is_digit (digits n) = digits n"
  using digits_all_digits by (simp add: takeWhile_eq_all_conv)

lemma dropWhile_digits [simp]: "dropWhile is_digit (digits n) = []"
  using digits_all_digits by (simp add: dropWhile_eq_Nil_conv)

lemma from_chars_digits:
  "from_chars (digits n) = (if llong_max < int n then None else Some (int n, []))"
proof -
  obtain c cs where ds: "digits n = c # cs" by (cases "digits n") auto
  have "(case digits n of c # _ \<Rightarrow> c = CHR ''-'' | [] \<Rightarrow> False) = False"
    using hd_digits [OF ds] by (simp add: ds)
  then show ?thesis
    by (simp add: from_chars_def Let_def digits_value_digits llong_min_def)
qed

lemma from_chars_to_string:
  "llong_min \<le> v \<Longrightarrow> v \<le> llong_max \<Longrightarrow> from_chars (to_string v) = Some (v, [])"
  by (auto simp: to_string_def from_chars_digits)
     (simp add: from_chars_def Let_def digits_value_digits)

lemma to_string_nonempty [simp]: "to_string v \<noteq> []"
  by (simp add: to_string_def)

lemma to_string_chars: "c \<in> set (to_string v) \<Longrightarrow> is_digit c \<or> c = CHR ''-''"
  by (auto simp: to_string_def dest: digits_all_digits split: if_splits)

lemma ParseNumber_to_string:
  "llong_min \<le> v \<Longrightarrow> v \<le> llong_max \<Longrightarrow> ParseNumber (to_string v) = Some v"
  by (simp add: ParseNumber_def from_chars_to_string)

lemma ParseNumber_range: "ParseNumber text = Some v \<Longrightarrow> llong_min \<le> v \<and> v \<le> llong_max"
  by (auto simp: ParseNumber_def from_chars_def Let_def split: if_splits option.splits)

end
