(* ===== verification/Ordered_Map.thy ===== *)
theory Ordered_Map
  imports Cache_Prelude
begin

text \<open>
  \<open>std::map\<close> as the sources use it (the token ring, the metrics table): an association list
  strictly sorted by key. Iteration is the list itself, \<open>begin()\<close> its head, \<open>find\<close> is
  \<^const>\<open>map_of\<close>, \<open>erase\<close> is \<^const>\<open>AList.delete\<close>; insertion and \<open>lower_bound\<close> are defined
  here. A sorted map is determined by its lookup function.
\<close>

definition omap_inv :: "('k :: linorder, 'v) ordered_map \<Rightarrow> bool" where
  "omap_inv m \<longleftrightarrow> sorted_wrt (<) (map fst m)"

text \<open>\<open>m[k] = v\<close>, insertion at the sorted position or replacement.\<close>

fun omap_put :: "'k :: linorder \<Rightarrow> 'v \<Rightarrow> ('k, 'v) ordered_map \<Rightarrow> ('k, 'v) ordered_map" where
  "omap_put k v [] = [(k, v)]"
| "omap_put k v ((k', v') # m) =
     (if k < k' then (k, v) # (k', v') # m
      else if k = k' then (k, v) # m
      else (k', v') # omap_put k v m)"

text \<open>\<open>m.emplace(k, v)\<close>: no effect on a key that is present.\<close>

definition omap_emplace :: "'k :: linorder \<Rightarrow> 'v \<Rightarrow> ('k, 'v) ordered_map \<Rightarrow> ('k, 'v) ordered_map" where
  "omap_emplace k v m = (case map_of m k of Some _ \<Rightarrow> m | None \<Rightarrow> omap_put k v m)"

text \<open>\<open>m.lower_bound(k)\<close>: the first entry with a key not less than \<open>k\<close>, \<open>None\<close> for \<open>end()\<close>.\<close>

definition lower_bound :: "'k :: linorder \<Rightarrow> ('k, 'v) ordered_map \<Rightarrow> ('k \<times> 'v) option" where
  "lower_bound k m = find (\<lambda>(k', _). k \<le> k') m"

lemma omap_inv_Cons [simp]:
  "omap_inv ((k, v) # m) \<longleftrightarrow> (\<forall>k' \<in> fst ` set m. k < k') \<and> omap_inv m"
  by (auto simp: omap_inv_def)

lemma omap_inv_Nil [simp]: "omap_inv []"
  by (simp add: omap_inv_def)

lemma omap_inv_distinct: "omap_inv m \<Longrightarrow> distinct (map fst m)"
  by (simp add: omap_inv_def strict_sorted_iff)

lemma set_omap_put: "fst ` set (omap_put k v m) = insert k (fst ` set m)"
  by (induction k v m rule: omap_put.induct) auto

lemma omap_inv_put [inv_pres]: "omap_inv m \<Longrightarrow> omap_inv (omap_put k v m)"
  by (induction k v m rule: omap_put.induct) (auto simp: set_omap_put)

lemma map_of_omap_put [map_laws]: "omap_inv m \<Longrightarrow> map_of (omap_put k v m) = (map_of m)(k \<mapsto> v)"
  by (induction k v m rule: omap_put.induct) (auto simp: fun_upd_twist)

lemma omap_inv_delete [inv_pres]: "omap_inv m \<Longrightarrow> omap_inv (AList.delete k m)"
  by (induction m) (auto simp: set_delete image_iff)

interpretation omap: kv_map "[]" map_of omap_put AList.delete omap_inv
  by unfold_locales (auto simp: map_of_omap_put omap_inv_put omap_inv_delete delete_conv')

lemma omap_inv_emplace [inv_pres]: "omap_inv m \<Longrightarrow> omap_inv (omap_emplace k v m)"
  by (simp add: omap_emplace_def omap_inv_put split: option.split)

lemma map_of_omap_emplace_new:
  "omap_inv m \<Longrightarrow> map_of m k = None \<Longrightarrow> map_of (omap_emplace k v m) = (map_of m)(k \<mapsto> v)"
  by (simp add: omap_emplace_def map_of_omap_put)

lemma length_omap_put_new: "map_of m k = None \<Longrightarrow> length (omap_put k v m) = Suc (length m)"
  by (induction k v m rule: omap_put.induct) (auto split: if_splits)

lemma length_omap_emplace_new: "map_of m k = None \<Longrightarrow> length (omap_emplace k v m) = Suc (length m)"
  by (simp add: omap_emplace_def length_omap_put_new)

lemma omap_length_card: "omap_inv m \<Longrightarrow> length m = card (dom (map_of m))"
  by (metis distinct_card dom_map_of_conv_image_fst length_map list.set_map omap_inv_distinct)

text \<open>Two sorted maps with the same lookup function are the same map.\<close>

lemma omap_ext:
  assumes "omap_inv m" "omap_inv m'" "map_of m = map_of m'"
  shows "m = m'"
proof -
  have mem: "(k, v) \<in> set m \<longleftrightarrow> (k, v) \<in> set m'" for k v
    using assms map_of_Some_iff [OF omap_inv_distinct] by metis
  then have set: "set m = set m'" by auto
  have "inj_on fst (set m \<union> set m')"
    using omap_inv_distinct [OF assms(1)] set by (simp add: distinct_map)
  with set assms(1,2) show ?thesis
    by (intro map_sorted_distinct_set_unique [of fst]) (auto simp: omap_inv_def strict_sorted_iff)
qed

lemma lower_bound_None: "lower_bound k m = None \<longleftrightarrow> (\<forall>k' \<in> dom (map_of m). k' < k)"
  by (auto simp: lower_bound_def find_None_iff dom_map_of_conv_image_fst not_le)

lemma lower_bound_Some:
  "omap_inv m \<Longrightarrow> lower_bound k m = Some (k', v) \<Longrightarrow>
   map_of m k' = Some v \<and> k \<le> k' \<and> (\<forall>k'' \<in> dom (map_of m). k \<le> k'' \<longrightarrow> k' \<le> k'')"
proof (induction m)
  case Nil
  then show ?case by (simp add: lower_bound_def)
next
  case (Cons x m)
  obtain a b where x: "x = (a, b)" by (cases x)
  show ?case
  proof (cases "k \<le> a")
    case True
    then have "k' = a" "v = b" using Cons.prems by (auto simp: x lower_bound_def)
    then show ?thesis
      using True Cons.prems(1)
      by (fastforce simp: x split: if_splits dest!: map_of_SomeD)
  next
    case False
    then have "lower_bound k m = Some (k', v)" using Cons.prems by (auto simp: x lower_bound_def)
    with Cons have "map_of m k' = Some v \<and> k \<le> k' \<and> (\<forall>k'' \<in> dom (map_of m). k \<le> k'' \<longrightarrow> k' \<le> k'')"
      by (simp add: x)
    with False show ?thesis by (auto simp: x split: if_splits)
  qed
qed

lemma omap_begin:
  assumes "omap_inv m" "m \<noteq> []"
  shows "map_of m (fst (hd m)) = Some (snd (hd m)) \<and> (\<forall>k \<in> dom (map_of m). fst (hd m) \<le> k)"
  using assms by (cases m) (fastforce dest!: map_of_SomeD)+

end
