(* ===== verification/Hash_Ring.thy ===== *)
theory Hash_Ring
  imports Number_Text Ordered_Map
begin

unbundle bit_operations_syntax

text \<open>
  Key placement, \<open>src/cluster/hash_ring.{hpp,cpp}\<close> and \<open>src/cluster/shard_router.cpp\<close>: a
  consistent-hashing ring with virtual nodes. Tokens are 64-bit FNV-1a hashes; the ring is a
  \<open>std::map\<close> from token to node, and a second table keeps the tokens of every node.
\<close>

section \<open>The ring and its operations\<close>

definition kFnvOffset :: u64 where "kFnvOffset = 14695981039346656037"
definition kFnvPrime :: u64 where "kFnvPrime = 1099511628211"

fun fnv_loop :: "u64 \<Rightarrow> string \<Rightarrow> u64" where
  "fnv_loop hash [] = hash"
| "fnv_loop hash (ch # value) = fnv_loop ((hash XOR of_char ch) * kFnvPrime) value"

definition Fnv1a :: "string \<Rightarrow> u64" where
  "Fnv1a value = fnv_loop kFnvOffset value"

definition Hash64 :: "string \<Rightarrow> u64" where
  "Hash64 value = Fnv1a value"

record HashRing =
  hr_ring :: "(u64, string) ordered_map"
  hr_node_tokens :: "(string, u64 list) unordered_map"

definition new_ring :: HashRing where
  "new_ring = \<lparr>hr_ring = [], hr_node_tokens = []\<rparr>"

definition TokenFor :: "string \<Rightarrow> int \<Rightarrow> int \<Rightarrow> u64" where
  "TokenFor node_id vnode attempt =
     (let token = node_id @ ''#'' @ to_string vnode;
          token = (if attempt > 0 then token @ ''#'' @ to_string attempt else token)
      in Hash64 token)"

definition int_max :: int where "int_max = 2147483647"

text \<open>
  The probing loop. \<open>attempt\<close> is a C++ \<open>int\<close>: incrementing it past its maximum is undefined,
  which the model returns as \<^const>\<open>None\<close>.
\<close>

function probe_loop :: "string \<Rightarrow> int \<Rightarrow> (u64, string) ordered_map \<Rightarrow> int \<Rightarrow> u64 option" where
  "probe_loop node_id i ring attempt =
     (let token = TokenFor node_id i attempt
      in if map_of ring token = None then Some token
         else if attempt \<ge> int_max then None
         else probe_loop node_id i ring (attempt + 1))"
  by auto
termination by (relation "measure (\<lambda>(_, _, _, attempt). nat (int_max - attempt))") auto

declare probe_loop.simps [simp del]

fun add_loop :: "string \<Rightarrow> int list \<Rightarrow> (u64, string) ordered_map \<Rightarrow> u64 list
    \<Rightarrow> ((u64, string) ordered_map \<times> u64 list) option" where
  "add_loop node_id [] ring tokens = Some (ring, tokens)"
| "add_loop node_id (i # is) ring tokens =
     (case probe_loop node_id i ring 0 of
        None \<Rightarrow> None
      | Some token \<Rightarrow> add_loop node_id is (omap_emplace token node_id ring) (tokens @ [token]))"

fun remove_loop :: "string \<Rightarrow> u64 list \<Rightarrow> (u64, string) ordered_map \<Rightarrow> (u64, string) ordered_map" where
  "remove_loop node_id [] ring = ring"
| "remove_loop node_id (token # tokens) ring =
     remove_loop node_id tokens
       (case map_of ring token of
          None \<Rightarrow> ring
        | Some owner \<Rightarrow> if owner = node_id then AList.delete token ring else ring)"

definition RemoveNode :: "string \<Rightarrow> HashRing \<Rightarrow> HashRing" where
  "RemoveNode node_id r =
     (case map_of (hr_node_tokens r) node_id of
        None \<Rightarrow> r
      | Some tokens \<Rightarrow>
          r\<lparr>hr_ring := remove_loop node_id tokens (hr_ring r),
            hr_node_tokens := AList.delete node_id (hr_node_tokens r)\<rparr>)"

definition AddNode :: "string \<Rightarrow> int \<Rightarrow> HashRing \<Rightarrow> (cpp_exception + HashRing) option" where
  "AddNode node_id virtual_nodes r =
     (if virtual_nodes \<le> 0 then Some (Inl (invalid_argument ''virtual_nodes must be positive''))
      else
        let r = RemoveNode node_id r;
            (tokens, node_tokens) = subscript [] node_id (hr_node_tokens r)
        in case add_loop node_id [0..virtual_nodes - 1] (hr_ring r) tokens of
             None \<Rightarrow> None
           | Some (ring, tokens) \<Rightarrow>
               Some (Inr (r\<lparr>hr_ring := ring, hr_node_tokens := AList.update node_id tokens node_tokens\<rparr>)))"

definition OwnerForKey :: "string \<Rightarrow> HashRing \<Rightarrow> string" where
  "OwnerForKey key r =
     (if hr_ring r = [] then []
      else
        let hash = Hash64 key
        in case lower_bound hash (hr_ring r) of
             None \<Rightarrow> snd (hd (hr_ring r))
           | Some (_, owner) \<Rightarrow> owner)"

definition RouteKeyToNode :: "HashRing \<Rightarrow> string \<Rightarrow> string" where
  "RouteKeyToNode r key = OwnerForKey key r"

section \<open>Well-formed rings\<close>

text \<open>
  The ring is sorted, the token lists are duplicate-free, and the two tables say the same
  thing: a token belongs to a node in the ring exactly when it is in that node's list.
\<close>

definition ring_inv :: "HashRing \<Rightarrow> bool" where
  "ring_inv r \<longleftrightarrow> omap_inv (hr_ring r) \<and> umap_inv (hr_node_tokens r) \<and>
     (\<forall>node tokens. map_of (hr_node_tokens r) node = Some tokens \<longrightarrow> distinct tokens) \<and>
     (\<forall>token node. map_of (hr_ring r) token = Some node \<longleftrightarrow>
        (\<exists>tokens. map_of (hr_node_tokens r) node = Some tokens \<and> token \<in> set tokens))"

lemma ring_inv_new: "ring_inv new_ring"
  by (simp add: ring_inv_def new_ring_def umap_inv_def)

lemma remove_loop_inv [inv_pres]: "omap_inv ring \<Longrightarrow> omap_inv (remove_loop node tokens ring)"
  by (induction node tokens ring rule: remove_loop.induct) (auto simp: inv_pres split: option.split)

lemma map_of_remove_loop:
  "map_of (remove_loop node tokens ring) token =
     (if token \<in> set tokens \<and> map_of ring token = Some node then None else map_of ring token)"
  by (induction node tokens ring rule: remove_loop.induct)
     (auto simp: delete_conv' split: option.splits)

text \<open>Removing a node takes its tokens out of the ring and nothing else.\<close>

lemma RemoveNode_ring:
  assumes "ring_inv r"
  shows "map_of (hr_ring (RemoveNode node r)) token =
    (if map_of (hr_ring r) token = Some node then None else map_of (hr_ring r) token)"
proof (cases "map_of (hr_node_tokens r) node")
  case None
  then show ?thesis using assms by (simp add: RemoveNode_def ring_inv_def)
next
  case (Some tokens)
  then show ?thesis using assms by (auto simp: RemoveNode_def map_of_remove_loop ring_inv_def)
qed

lemma RemoveNode_tokens:
  "map_of (hr_node_tokens (RemoveNode node r)) = (map_of (hr_node_tokens r))(node := None)"
  by (auto simp: RemoveNode_def delete_conv' split: option.split)

lemma ring_inv_RemoveNode [inv_pres]: "ring_inv r \<Longrightarrow> ring_inv (RemoveNode node r)"
proof -
  assume inv: "ring_inv r"
  have "omap_inv (hr_ring (RemoveNode node r))" "umap_inv (hr_node_tokens (RemoveNode node r))"
    using inv by (auto simp: ring_inv_def RemoveNode_def inv_pres umap.inv_erase split: option.split)
  then show ?thesis
    using inv unfolding ring_inv_def [of "RemoveNode node r"]
    by (auto simp: RemoveNode_ring [OF inv] RemoveNode_tokens) (auto simp: ring_inv_def, metis option.inject)
qed

lemma probe_loop_free: "probe_loop node i ring attempt = Some token \<Longrightarrow> map_of ring token = None"
proof (induction node i ring attempt rule: probe_loop.induct)
  case (1 node i ring attempt)
  then show ?case
    by (subst (asm) (2) probe_loop.simps) (auto simp: Let_def split: if_splits)
qed

lemma probe_loop_returns:
  assumes "attempt \<le> a" "a \<le> int_max" "map_of ring (TokenFor node i a) = None"
  shows "\<exists>token. probe_loop node i ring attempt = Some token"
  using assms(1)
proof (induction "nat (a - attempt)" arbitrary: attempt)
  case 0
  then have "attempt = a" by simp
  then show ?case using assms(3) by (subst probe_loop.simps) simp
next
  case (Suc d)
  then have "d = nat (a - (attempt + 1))" "attempt + 1 \<le> a" "attempt < int_max"
    using assms(2) by auto
  from Suc.hyps(1) [OF this(1,2)] this(3) show ?case by (subst probe_loop.simps) (simp add: Let_def)
qed

lemma add_loop_effect:
  "add_loop node is ring tokens = Some (ring', tokens') \<Longrightarrow> omap_inv ring \<Longrightarrow>
   \<exists>new. tokens' = tokens @ new \<and> length new = length is \<and> distinct new \<and>
     (\<forall>token \<in> set new. map_of ring token = None) \<and> omap_inv ring' \<and>
     map_of ring' = (\<lambda>token. if token \<in> set new then Some node else map_of ring token)"
proof (induction node "is" ring tokens rule: add_loop.induct)
  case (1 node ring tokens)
  then show ?case by simp
next
  case (2 node i "is" ring tokens)
  from 2(2) obtain token where token: "probe_loop node i ring 0 = Some token"
    and rest: "add_loop node is (omap_emplace token node ring) (tokens @ [token]) = Some (ring', tokens')"
    by (auto split: option.splits)
  note free = probe_loop_free [OF token]
  note upd = map_of_omap_emplace_new [OF 2(3) free, of node]
  from 2(1) [OF token rest omap_inv_emplace [OF 2(3)]] obtain new where
    new: "tokens' = (tokens @ [token]) @ new" "length new = length is" "distinct new"
      "\<forall>t \<in> set new. map_of (omap_emplace token node ring) t = None" "omap_inv ring'"
      "map_of ring' = (\<lambda>t. if t \<in> set new then Some node else map_of (omap_emplace token node ring) t)"
    by blast
  have fresh: "token \<notin> set new" using new(4) by (auto simp: upd)
  then show ?case
    using new free by (intro exI [of _ "token # new"]) (auto simp: upd split: if_splits)
qed

text \<open>
  What a successful \<open>AddNode\<close> leaves: the ring without the node's previous tokens, extended by
  \<open>virtual_nodes\<close> distinct tokens that were free.
\<close>

lemma AddNode_effect:
  assumes add: "AddNode node n r = Some (Inr r')" and inv: "ring_inv r"
  obtains new where "length new = nat n" "distinct new" "0 < n"
    "\<And>token. token \<in> set new \<Longrightarrow> map_of (hr_ring (RemoveNode node r)) token = None"
    "map_of (hr_ring r') =
       (\<lambda>token. if token \<in> set new then Some node else map_of (hr_ring (RemoveNode node r)) token)"
    "map_of (hr_node_tokens r') = (map_of (hr_node_tokens r))(node \<mapsto> new)"
    "omap_inv (hr_ring r')" "umap_inv (hr_node_tokens r')"
proof -
  let ?r = "RemoveNode node r"
  have rinv: "ring_inv ?r" using inv by (rule ring_inv_RemoveNode)
  have sub: "subscript [] node (hr_node_tokens ?r) = ([], AList.update node [] (hr_node_tokens ?r))"
    by (simp add: subscript_def RemoveNode_tokens)
  from add have n: "0 < n" by (auto simp: AddNode_def split: if_splits)
  from add n obtain ring tokens
    where loop: "add_loop node [0..n - 1] (hr_ring ?r) [] = Some (ring, tokens)"
      and r': "r' = ?r\<lparr>hr_ring := ring, hr_node_tokens :=
        AList.update node tokens (AList.update node [] (hr_node_tokens ?r))\<rparr>"
    by (auto simp: AddNode_def sub Let_def split: option.splits)
  have "omap_inv (hr_ring ?r)" "umap_inv (hr_node_tokens ?r)" using rinv by (auto simp: ring_inv_def)
  with add_loop_effect [OF loop] that [of tokens] n r' show thesis
    by (auto simp: umap.inv_put update_conv' RemoveNode_tokens)
qed

lemma ring_inv_AddNode [inv_pres]:
  assumes "AddNode node n r = Some (Inr r')" and inv: "ring_inv r"
  shows "ring_inv r'"
proof (rule AddNode_effect [OF assms])
  fix new
  assume new: "distinct new"
    "\<And>token. token \<in> set new \<Longrightarrow> map_of (hr_ring (RemoveNode node r)) token = None"
    "map_of (hr_ring r') =
       (\<lambda>token. if token \<in> set new then Some node else map_of (hr_ring (RemoveNode node r)) token)"
    "map_of (hr_node_tokens r') = (map_of (hr_node_tokens r))(node \<mapsto> new)"
    "omap_inv (hr_ring r')" "umap_inv (hr_node_tokens r')"
  have rinv: "ring_inv (RemoveNode node r)" using inv by (rule ring_inv_RemoveNode)
  then have link: "map_of (hr_ring (RemoveNode node r)) token = Some owner \<longleftrightarrow> owner \<noteq> node \<and>
      (\<exists>tokens. map_of (hr_node_tokens r) owner = Some tokens \<and> token \<in> set tokens)" for token owner
    by (auto simp: ring_inv_def RemoveNode_tokens)
  show ?thesis
    unfolding ring_inv_def using new link inv
    by (auto simp: ring_inv_def) (metis option.distinct(1))+
qed

section \<open>Placement by clockwise distance\<close>

text \<open>
  What a client of the ring relies on: a key at position \<open>h\<close> belongs to the point nearest to
  \<open>h\<close>, by a distance that separates points. Two rings that agree away from one node then place
  almost all keys alike; the two lemmas say which keys may move.
\<close>

locale nearest_point =
  fixes points :: "'r \<Rightarrow> 't \<Rightarrow> 'n option"
    and owner_at :: "'t \<Rightarrow> 'r \<Rightarrow> 'n option"
    and dist :: "'t \<Rightarrow> 't \<Rightarrow> 'd :: linorder"
    and wf_ring :: "'r \<Rightarrow> bool"
  assumes dist_inj: "dist h t = dist h t' \<Longrightarrow> t = t'"
    and owner_at_None: "wf_ring r \<Longrightarrow> owner_at h r = None \<longleftrightarrow> points r = Map.empty"
    and owner_at_nearest: "wf_ring r \<Longrightarrow> owner_at h r = Some n \<Longrightarrow>
      \<exists>t. points r t = Some n \<and> (\<forall>t' \<in> dom (points r). dist h t \<le> dist h t')"
begin

lemma owner_atI:
  assumes "wf_ring r" "points r t = Some n" "\<And>t'. t' \<in> dom (points r) \<Longrightarrow> dist h t \<le> dist h t'"
  shows "owner_at h r = Some n"
proof -
  have "points r \<noteq> Map.empty" using assms(2) by auto
  then obtain m where m: "owner_at h r = Some m" using owner_at_None [OF assms(1)] by (metis not_None_eq)
  from owner_at_nearest [OF assms(1) m] obtain u
    where u: "points r u = Some m" "\<forall>t' \<in> dom (points r). dist h u \<le> dist h t'" by auto
  have "dist h t = dist h u" using u assms(2,3) by (force intro: order_antisym)
  then have "t = u" by (rule dist_inj)
  with u assms(2) m show ?thesis by simp
qed

text \<open>Taking the points of one node away moves only the keys of that node.\<close>

lemma owner_without:
  assumes "wf_ring r" "wf_ring r'"
    and without: "\<And>t. points r' t = (if points r t = Some x then None else points r t)"
    and other: "owner_at h r \<noteq> Some x"
  shows "owner_at h r' = owner_at h r"
proof (cases "owner_at h r")
  case None
  then have "points r' = Map.empty" using without assms(1) by (auto simp: owner_at_None)
  with None show ?thesis using assms(2) by (simp add: owner_at_None)
next
  case (Some n)
  from owner_at_nearest [OF assms(1) Some] obtain t
    where t: "points r t = Some n" "\<forall>t' \<in> dom (points r). dist h t \<le> dist h t'" by auto
  have "owner_at h r' = Some n"
  proof (rule owner_atI [OF assms(2)])
    show "points r' t = Some n" using t(1) other Some by (simp add: without)
    show "\<And>t'. t' \<in> dom (points r') \<Longrightarrow> dist h t \<le> dist h t'"
      using t(2) by (auto simp: without split: if_splits)
  qed
  with Some show ?thesis by simp
qed

text \<open>Adding points of one node moves keys to that node only.\<close>

lemma owner_with:
  assumes "wf_ring r" "wf_ring r'"
    and with_new: "\<And>t. points r' t = (if t \<in> new then Some x else points r t)"
  shows "owner_at h r' = owner_at h r \<or> owner_at h r' = Some x"
proof (cases "owner_at h r'")
  case None
  then have "points r = Map.empty"
    using with_new assms(2) by (fastforce simp: owner_at_None fun_eq_iff split: if_splits)
  then have "owner_at h r = None" using owner_at_None [OF assms(1)] by blast
  with None show ?thesis by simp
next
  case (Some n)
  from owner_at_nearest [OF assms(2) Some] obtain t
    where t: "points r' t = Some n" "\<forall>t' \<in> dom (points r'). dist h t \<le> dist h t'" by auto
  show ?thesis
  proof (cases "t \<in> new")
    case True
    then show ?thesis using t(1) Some by (simp add: with_new)
  next
    case False
    have "owner_at h r = Some n"
    proof (rule owner_atI [OF assms(1)])
      show "points r t = Some n" using t(1) False by (simp add: with_new)
      show "\<And>t'. t' \<in> dom (points r) \<Longrightarrow> dist h t \<le> dist h t'"
        using t(2) by (auto simp: with_new dom_def)
    qed
    with Some show ?thesis by simp
  qed
qed

end

text \<open>
  The ring implements this contract with the distance walked clockwise from the key's hash,
  that is subtraction modulo \<open>2\<^sup>6\<^sup>4\<close>: \<open>lower_bound\<close> finds the successor, and wrapping round to
  \<open>begin()\<close> is the case where every token is below the hash.
\<close>

definition ring_owner :: "u64 \<Rightarrow> (u64, string) ordered_map \<Rightarrow> string option" where
  "ring_owner hash ring =
     (if ring = [] then None
      else Some (case lower_bound hash ring of None \<Rightarrow> snd (hd ring) | Some (_, owner) \<Rightarrow> owner))"

definition clockwise :: "u64 \<Rightarrow> u64 \<Rightarrow> u64" where
  "clockwise hash token = token - hash"

lemma OwnerForKey_ring_owner:
  "OwnerForKey key r = (case ring_owner (Hash64 key) (hr_ring r) of None \<Rightarrow> [] | Some node \<Rightarrow> node)"
  by (simp add: OwnerForKey_def ring_owner_def Let_def)

lemma clockwise_mono: "h \<le> t \<Longrightarrow> t \<le> t' \<Longrightarrow> clockwise h t \<le> clockwise h t'"
  by (simp add: clockwise_def word_le_nat_alt unat_sub_if')

lemma clockwise_wrap: "h \<le> t \<Longrightarrow> t' < h \<Longrightarrow> clockwise h t \<le> clockwise h t'"
  using unsigned_less [of t, where 'a = nat]
  by (auto simp: clockwise_def word_le_nat_alt word_less_nat_alt unat_sub_if')

lemma clockwise_below: "t \<le> t' \<Longrightarrow> t' < h \<Longrightarrow> clockwise h t \<le> clockwise h t'"
  by (auto simp: clockwise_def word_le_nat_alt word_less_nat_alt unat_sub_if')

lemma ring_owner_nearest:
  assumes inv: "omap_inv ring" and owner: "ring_owner h ring = Some n"
  shows "\<exists>t. map_of ring t = Some n \<and> (\<forall>t' \<in> dom (map_of ring). clockwise h t \<le> clockwise h t')"
proof (cases "lower_bound h ring")
  case None
  then have below: "t' < h" if "t' \<in> dom (map_of ring)" for t'
    using that by (simp add: lower_bound_None)
  from owner have "ring \<noteq> []" "n = snd (hd ring)" using None by (auto simp: ring_owner_def split: if_splits)
  with omap_begin [OF inv] below show ?thesis
    by (intro exI [of _ "fst (hd ring)"]) (auto intro: clockwise_below)
next
  case (Some tv)
  obtain t v where tv: "tv = (t, v)" by (cases tv)
  from owner have "n = v" using Some by (auto simp: ring_owner_def tv split: if_splits)
  moreover have "map_of ring t = Some v" "h \<le> t"
    and least: "t' \<in> dom (map_of ring) \<Longrightarrow> h \<le> t' \<Longrightarrow> t \<le> t'" for t'
    using lower_bound_Some [OF inv Some [unfolded tv]] by auto
  moreover from this have "clockwise h t \<le> clockwise h t'" if "t' \<in> dom (map_of ring)" for t'
    using that by (cases "h \<le> t'") (auto intro: clockwise_mono clockwise_wrap simp: not_le)
  ultimately show ?thesis by blast
qed

interpretation ring_points: nearest_point map_of ring_owner clockwise omap_inv
proof
  show "clockwise h t = clockwise h t' \<Longrightarrow> t = t'" for h t t' by (simp add: clockwise_def)
  show "ring_owner h r = None \<longleftrightarrow> map_of r = Map.empty" for h r
    by (cases r) (auto simp: ring_owner_def fun_eq_iff)
qed (rule ring_owner_nearest)

end
