(* ===== verification/Ring_Properties.thy ===== *)
theory Ring_Properties
  imports Hash_Ring
begin

unbundle bit_operations_syntax

text \<open>
  The properties of the hash ring. The first section shows that probing for a free token ends:
  FNV-1a maps texts that differ in their last three digits to different hashes, so the attempts
  100 to 999 of one virtual node give 900 different tokens. The second states what adding and
  removing nodes does to the placement of keys.
\<close>

section \<open>Distinct tokens\<close>

lemma fnv_loop_append: "fnv_loop h (xs @ ys) = fnv_loop (fnv_loop h xs) ys"
  by (induction h xs rule: fnv_loop.induct) auto

text \<open>Multiplication by the odd prime is injective.\<close>

definition fnv_inverse :: u64 where "fnv_inverse = 14886173955864302971"

lemma fnv_prime_inverse: "kFnvPrime * fnv_inverse = 1"
  by (simp add: kFnvPrime_def fnv_inverse_def)

lemma fnv_mult_inj: "x * kFnvPrime = y * kFnvPrime \<Longrightarrow> x = y"
proof -
  assume eq: "x * kFnvPrime = y * kFnvPrime"
  have "x = x * kFnvPrime * fnv_inverse" by (simp only: mult.assoc fnv_prime_inverse mult_1_right)
  also have "\<dots> = y * kFnvPrime * fnv_inverse" by (simp only: eq)
  also have "\<dots> = y" by (simp only: mult.assoc fnv_prime_inverse mult_1_right)
  finally show "x = y" .
qed

text \<open>Two digits change only the low four bits of a hash differently.\<close>

lemma unat_digit: "d < 10 \<Longrightarrow> unat (of_char (digit_char d) :: u64) = 48 + d"
proof -
  assume d: "d < 10"
  have "(of_char (digit_char d) :: u64) = of_nat (48 + d)" by (simp add: of_char_digit_char [OF d])
  also have "unat \<dots> = 48 + d" using d by (simp only: unat_of_nat) simp
  finally show ?thesis .
qed

lemma digit_high: "d < 10 \<Longrightarrow> drop_bit 4 (of_char (digit_char d) :: u64) = 3"
  by (rule word_unat_eq_iff [THEN iffD2]) (simp only: unat_drop_bit_eq unat_digit, simp add: drop_bit_eq_div)

lemma digit_top: "d < 10 \<Longrightarrow> drop_bit 6 (of_char (digit_char d) :: u64) = 0"
  by (rule word_unat_eq_iff [THEN iffD2]) (simp only: unat_drop_bit_eq unat_digit, simp add: drop_bit_eq_div)

lemma digit_word_inj:
  "d < 10 \<Longrightarrow> e < 10 \<Longrightarrow> (of_char (digit_char d) :: u64) = of_char (digit_char e) \<Longrightarrow> d = e"
  using unat_digit [of d] unat_digit [of e] by (metis add_left_imp_eq)

lemma xor_right_cancel: "x XOR z = y XOR z \<Longrightarrow> x = (y :: u64)"
proof -
  assume "x XOR z = y XOR z"
  then have "(x XOR z) XOR z = (y XOR z) XOR z" by (rule arg_cong)
  then show "x = y" by (simp add: xor.assoc)
qed

lemma digit_xor_inj:
  "z XOR of_char (digit_char d) = (z :: u64) XOR of_char (digit_char e) \<Longrightarrow> d < 10 \<Longrightarrow> e < 10 \<Longrightarrow> d = e"
  by (rule digit_word_inj) (auto intro: xor_right_cancel [of _ z] simp: xor.commute)

lemma drop_bit_near:
  fixes x y :: u64
  assumes "drop_bit n x = drop_bit n y"
  shows "\<bar>uint x - uint y\<bar> < 2 ^ n"
proof -
  have "unat x div 2 ^ n = unat y div 2 ^ n"
    using arg_cong [OF assms, of unat] by (simp only: unat_drop_bit_eq) (simp only: drop_bit_eq_div)
  then have "int (unat x) div 2 ^ n = int (unat y) div 2 ^ n"
    by (metis of_nat_div of_nat_numeral of_nat_power)
  then have "uint x div 2 ^ n = uint y div 2 ^ n" by simp
  then have "uint x - uint y = uint x mod 2 ^ n - uint y mod 2 ^ n"
    by (metis add_diff_cancel_left mult_div_mod_eq)
  moreover have "0 \<le> uint x mod 2 ^ n" "uint x mod 2 ^ n < 2 ^ n"
    "0 \<le> uint y mod 2 ^ n" "uint y mod 2 ^ n < 2 ^ n" by simp_all
  ultimately show ?thesis by linarith
qed

lemma digits_near:
  fixes x :: u64
  assumes "d < 10" "e < 10"
  shows "\<bar>uint (x XOR of_char (digit_char d)) - uint (x XOR of_char (digit_char e))\<bar> < 16"
  using drop_bit_near [of 4 "x XOR of_char (digit_char d)" "x XOR of_char (digit_char e)"]
  by (simp add: digit_high assms)

lemma digit_step_near:
  fixes x :: u64
  assumes "d < 10"
  shows "\<bar>uint (x XOR of_char (digit_char d)) - uint x\<bar> < 64"
  using drop_bit_near [of 6 "x XOR of_char (digit_char d)" x]
  by (simp add: digit_top assms)

text \<open>
  The arithmetic of two rounds: with \<open>p = 2\<^sup>4\<^sup>0 + 435\<close>, a difference of \<open>k\<close> before the first and
  of \<open>f\<close> more before the second multiplication becomes \<open>(k p + f) p\<close>, which is close to \<open>0\<close>
  modulo \<open>2\<^sup>6\<^sup>4\<close> only for \<open>k = f = 0\<close>.
\<close>

lemma two_rounds_far:
  fixes k f e q :: int
  assumes "\<bar>k\<bar> < 16" "\<bar>f\<bar> < 128" "\<bar>e\<bar> < 16"
    and eq: "e = (k * 1099511628211 + f) * 1099511628211 + q * 18446744073709551616"
  shows "k = 0 \<and> f = 0"
proof -
  define m where "m = 870 * k + f"
  define g where "g = 189225 * k + 435 * f"
  have "e = m * 1099511627776 + g + (q + 65536 * k) * 18446744073709551616"
    using eq by (simp add: m_def g_def algebra_simps)
  then obtain q' where e: "e = m * 1099511627776 + g + q' * 18446744073709551616" by blast
  have "\<bar>m\<bar> < 13200" "\<bar>g\<bar> < 3000000" unfolding m_def g_def using assms(1,2) by linarith+
  then have "q' = 0" using e assms(3) by linarith
  then have "m = 0" using e assms(3) \<open>\<bar>g\<bar> < 3000000\<close> by linarith
  then have "f = - 870 * k" by (simp add: m_def)
  moreover have "k = 0" using calculation assms(2) by arith
  ultimately show ?thesis by simp
qed

lemma uint_mult_diff:
  fixes x y p :: u64
  shows "\<exists>q. uint (x * p) - uint (y * p) = (uint x - uint y) * uint p + q * 18446744073709551616"
proof -
  have *: "\<exists>q. uint (z * p) = uint z * uint p + q * 18446744073709551616" for z
    by (rule exI [of _ "- (uint z * uint p div 18446744073709551616)"])
       (simp add: uint_word_ariths minus_div_mult_eq_mod [symmetric])
  obtain q r where "uint (x * p) = uint x * uint p + q * 18446744073709551616"
    "uint (y * p) = uint y * uint p + r * 18446744073709551616" using * by blast
  then have "uint (x * p) - uint (y * p) = (uint x - uint y) * uint p + (q - r) * 18446744073709551616"
    by (simp add: algebra_simps)
  then show ?thesis by blast
qed

lemma three_digits_inj:
  assumes d: "d1 < 10" "d2 < 10" "d3 < 10" and e: "e1 < 10" "e2 < 10" "e3 < 10"
    and eq: "fnv_loop h [digit_char d1, digit_char d2, digit_char d3] =
             fnv_loop h [digit_char e1, digit_char e2, digit_char e3]"
  shows "d1 = e1 \<and> d2 = e2 \<and> d3 = e3"
proof -
  define A A' where "A = h XOR of_char (digit_char d1)" and "A' = h XOR of_char (digit_char e1)"
  define C C' where "C = A * kFnvPrime XOR of_char (digit_char d2)"
    and "C' = A' * kFnvPrime XOR of_char (digit_char e2)"
  have last: "C * kFnvPrime XOR of_char (digit_char d3) = C' * kFnvPrime XOR of_char (digit_char e3)"
    by (rule fnv_mult_inj) (use eq in \<open>simp add: A_def A'_def C_def C'_def\<close>)
  have prime: "uint kFnvPrime = 1099511628211" by (simp add: kFnvPrime_def)
  have k: "\<bar>uint A - uint A'\<bar> < 16" unfolding A_def A'_def by (rule digits_near [OF d(1) e(1)])
  have "drop_bit 4 (C * kFnvPrime) = drop_bit 4 (C' * kFnvPrime)"
    by (rule xor_right_cancel [of _ 3])
       (use arg_cong [OF last, of "drop_bit 4"] in \<open>simp add: digit_high d e\<close>)
  then have small: "\<bar>uint (C * kFnvPrime) - uint (C' * kFnvPrime)\<bar> < 16"
    using drop_bit_near [of 4 "C * kFnvPrime"] by simp
  have f: "\<bar>uint C - uint (A * kFnvPrime)\<bar> < 64" "\<bar>uint C' - uint (A' * kFnvPrime)\<bar> < 64"
    unfolding C_def C'_def using d(2) e(2) by (auto intro: digit_step_near)
  obtain q where q: "uint (A * kFnvPrime) - uint (A' * kFnvPrime) =
      (uint A - uint A') * 1099511628211 + q * 18446744073709551616"
    using uint_mult_diff [of A kFnvPrime A'] by (auto simp: prime)
  obtain r where r: "uint (C * kFnvPrime) - uint (C' * kFnvPrime) =
      (uint C - uint C') * 1099511628211 + r * 18446744073709551616"
    using uint_mult_diff [of C kFnvPrime C'] by (auto simp: prime)
  define g where "g = (uint C - uint (A * kFnvPrime)) - (uint C' - uint (A' * kFnvPrime))"
  have step: "uint C - uint C' = (uint A - uint A') * 1099511628211 + g + q * 18446744073709551616"
    using q by (simp add: g_def)
  have "uint (C * kFnvPrime) - uint (C' * kFnvPrime) =
      ((uint A - uint A') * 1099511628211 + g) * 1099511628211 +
      (q * 1099511628211 + r) * 18446744073709551616"
    using r step by (simp add: algebra_simps)
  moreover have "\<bar>g\<bar> < 128" using f by (simp add: g_def)
  ultimately have "uint A - uint A' = 0 \<and> g = 0" using k small by (intro two_rounds_far)
  then have A: "A = A'" and g: "g = 0" by (simp_all add: word_uint_eq_iff)
  have d1: "d1 = e1"
    by (rule digit_xor_inj [OF A [unfolded A_def A'_def] d(1) e(1)])
  have C: "C = C'" using g by (simp add: g_def A word_uint_eq_iff)
  have d2: "d2 = e2"
    by (rule digit_xor_inj [OF C [unfolded C_def C'_def A] d(2) e(2)])
  have "d3 = e3"
    by (rule digit_xor_inj [OF last [unfolded C] d(3) e(3)])
  with d1 d2 show ?thesis by simp
qed

lemma digits_three:
  assumes "100 \<le> n" "n < 1000"
  shows "digits n = [digit_char (n div 100), digit_char (n div 10 mod 10), digit_char (n mod 10)]"
proof -
  have "\<not> n < 10" "\<not> n div 10 < 10" "n div 10 div 10 < 10" "n div 10 div 10 = n div 100"
    using assms by (simp_all add: div_mult2_eq [symmetric])
  then show ?thesis
    by (simp add: digits.simps [of n] digits.simps [of "n div 10"] digits.simps [of "n div 100"])
qed

lemma TokenFor_attempt:
  assumes "a \<in> {100..999}"
  shows "TokenFor node i a = fnv_loop (fnv_loop kFnvOffset (node @ ''#'' @ to_string i @ ''#''))
    [digit_char (nat a div 100), digit_char (nat a div 10 mod 10), digit_char (nat a mod 10)]"
proof -
  have "to_string a = digits (nat a)" using assms by (simp add: to_string_def)
  moreover have "digits (nat a) =
      [digit_char (nat a div 100), digit_char (nat a div 10 mod 10), digit_char (nat a mod 10)]"
    by (rule digits_three) (use assms in auto)
  moreover have "TokenFor node i a = Fnv1a ((node @ ''#'' @ to_string i @ ''#'') @ to_string a)"
    using assms by (simp add: TokenFor_def Hash64_def)
  ultimately show ?thesis by (simp only: Fnv1a_def fnv_loop_append)
qed

lemma three_digits_determine:
  assumes "m div 100 = n div 100" "m div 10 mod 10 = n div 10 mod 10" "m mod 10 = (n mod 10 :: nat)"
  shows "m = n"
proof -
  have "m div 10 div 10 = n div 10 div 10" using assms(1) by (simp add: div_mult2_eq [symmetric])
  with assms(2) have "m div 10 = n div 10" by (metis div_mult_mod_eq)
  with assms(3) show ?thesis by (metis div_mult_mod_eq)
qed

lemma TokenFor_attempts_inj: "inj_on (TokenFor node i) {100..999}"
proof (rule inj_onI)
  fix a b :: int
  assume a: "a \<in> {100..999}" and b: "b \<in> {100..999}" and eq: "TokenFor node i a = TokenFor node i b"
  have "nat a < 1000" "nat b < 1000" using a b by auto
  then have lt: "nat a div 100 < 10" "nat b div 100 < 10" by (simp_all add: less_mult_imp_div_less)
  have "nat a div 100 = nat b div 100 \<and> nat a div 10 mod 10 = nat b div 10 mod 10 \<and>
      nat a mod 10 = nat b mod 10"
    by (rule three_digits_inj [OF lt(1) _ _ lt(2) _ _ eq [unfolded TokenFor_attempt [OF a] TokenFor_attempt [OF b]]])
       simp_all
  then have "nat a = nat b" by (blast intro: three_digits_determine)
  then show "a = b" using a b by auto
qed

text \<open>A ring with fewer than 900 tokens leaves one of the 900 attempts free.\<close>

lemma card_attempts: "card (TokenFor node i ` {100..999}) = 900"
  by (simp only: card_image [OF TokenFor_attempts_inj]) simp

lemma probe_loop_small_ring:
  assumes "length ring < 900"
  shows "\<exists>token. probe_loop node i ring 0 = Some token"
proof -
  have "card (dom (map_of ring)) \<le> length ring"
    by (metis card_length dom_map_of_conv_image_fst length_map list.set_map)
  with assms have few: "card (dom (map_of ring)) < card (TokenFor node i ` {100..999})"
    by (simp only: card_attempts)
  have "\<not> TokenFor node i ` {100..999} \<subseteq> dom (map_of ring)"
  proof
    assume "TokenFor node i ` {100..999} \<subseteq> dom (map_of ring)"
    from card_mono [OF finite_dom_map_of this] few show False by simp
  qed
  then obtain a where a: "a \<in> {100..999}" and free: "map_of ring (TokenFor node i a) = None" by blast
  show ?thesis
    by (rule probe_loop_returns [OF _ _ free]) (use a in \<open>auto simp: int_max_def\<close>)
qed

lemma add_loop_small_ring:
  "length ring + length is \<le> 900 \<Longrightarrow> \<exists>ring' tokens'. add_loop node is ring tokens = Some (ring', tokens')"
proof (induction "is" arbitrary: ring tokens)
  case (Cons i "is")
  then obtain token where token: "probe_loop node i ring 0 = Some token"
    using probe_loop_small_ring [of ring node i] by auto
  have "length (omap_emplace token node ring) = Suc (length ring)"
    by (rule length_omap_emplace_new [OF probe_loop_free [OF token]])
  with Cons token show ?case by simp
qed simp

lemma length_RemoveNode: "ring_inv r \<Longrightarrow> length (hr_ring (RemoveNode node r)) \<le> length (hr_ring r)"
proof -
  assume inv: "ring_inv r"
  have "omap_inv (hr_ring r)" "omap_inv (hr_ring (RemoveNode node r))"
    using inv ring_inv_RemoveNode [OF inv] by (auto simp: ring_inv_def)
  moreover have "dom (map_of (hr_ring (RemoveNode node r))) \<subseteq> dom (map_of (hr_ring r))"
    by (auto simp: RemoveNode_ring [OF inv] split: if_splits)
  ultimately show ?thesis by (simp add: omap_length_card card_mono finite_dom_map_of)
qed

lemma AddNode_small_ring:
  assumes "ring_inv r" "0 < n" "int (length (hr_ring r)) + n \<le> 900"
  shows "\<exists>r'. AddNode node n r = Some (Inr r')"
proof -
  have "length (hr_ring (RemoveNode node r)) + length [0..n - 1] \<le> 900"
    using length_RemoveNode [OF assms(1), of node] assms(2,3) by simp
  then obtain ring tokens where
    "add_loop node [0..n - 1] (hr_ring (RemoveNode node r))
       (fst (subscript [] node (hr_node_tokens (RemoveNode node r)))) = Some (ring, tokens)"
    using add_loop_small_ring by blast
  then show ?thesis using assms(2) by (simp add: AddNode_def Let_def case_prod_unfold)
qed

section \<open>Placement of keys\<close>

inductive ring_reachable :: "HashRing \<Rightarrow> bool" where
  start: "ring_reachable new_ring"
| add: "ring_reachable r \<Longrightarrow> AddNode node n r = Some (Inr r') \<Longrightarrow> ring_reachable r'"
| remove: "ring_reachable r \<Longrightarrow> ring_reachable (RemoveNode node r)"

lemma ring_reachable_inv: "ring_reachable r \<Longrightarrow> ring_inv r"
  by (induction rule: ring_reachable.induct) (auto intro: ring_inv_new inv_pres)

text \<open>The ring of the witnesses: two nodes with two virtual nodes each.\<close>

definition demo_ring :: HashRing where
  "demo_ring = (case AddNode ''a'' 2 new_ring of
     Some (Inr r) \<Rightarrow> (case AddNode ''b'' 2 r of Some (Inr r') \<Rightarrow> r' | _ \<Rightarrow> r)
   | _ \<Rightarrow> new_ring)"

lemma demo_ring_reachable: "ring_reachable demo_ring"
  by (auto simp: demo_ring_def split: option.split sum.split
      intro: ring_reachable.start dest: ring_reachable.add ring_reachable.add [OF ring_reachable.start])

text \<open>
  C18: on every ring that additions and removals of nodes can produce, the owner of a key is the
  node of the first token met clockwise from the key's hash: among all tokens of all nodes, the
  owner has the one with the least distance \<open>token - hash\<close> modulo \<open>2\<^sup>6\<^sup>4\<close>. In particular the owner
  is a node that was added and not removed.
\<close>

theorem owner_is_clockwise_successor:
  assumes "ring_reachable r" and "hr_ring r \<noteq> []"
  shows "\<exists>tokens token. map_of (hr_node_tokens r) (RouteKeyToNode r key) = Some tokens \<and>
    token \<in> set tokens \<and>
    (\<forall>node' tokens'. map_of (hr_node_tokens r) node' = Some tokens' \<longrightarrow>
       (\<forall>token' \<in> set tokens'. token - Hash64 key \<le> token' - Hash64 key))"
proof -
  have inv: "ring_inv r" using assms(1) by (rule ring_reachable_inv)
  then have sorted: "omap_inv (hr_ring r)"
    and link: "\<And>token node. map_of (hr_ring r) token = Some node \<longleftrightarrow>
      (\<exists>tokens. map_of (hr_node_tokens r) node = Some tokens \<and> token \<in> set tokens)"
    by (auto simp: ring_inv_def)
  have "ring_owner (Hash64 key) (hr_ring r) = Some (RouteKeyToNode r key)"
    using assms(2) by (simp add: ring_owner_def RouteKeyToNode_def OwnerForKey_def Let_def)
  from ring_owner_nearest [OF sorted this] show ?thesis
    by (auto simp: link clockwise_def dom_def) blast
qed

theorem owner_is_clockwise_successor_witness:
  "hr_ring demo_ring \<noteq> [] \<and>
   (\<exists>tokens. map_of (hr_node_tokens demo_ring) (RouteKeyToNode demo_ring ''k1'') = Some tokens)"
proof -
  have "hr_ring demo_ring \<noteq> []" by code_simp
  then show ?thesis
    using owner_is_clockwise_successor [OF demo_ring_reachable, of "''k1''"] by blast
qed

text \<open>
  C19: removing a node moves only its own keys: a key owned by another node keeps its owner.
\<close>

theorem removal_moves_only_own_keys:
  assumes "ring_reachable r" and "OwnerForKey key r \<noteq> node"
  shows "OwnerForKey key (RemoveNode node r) = OwnerForKey key r"
proof -
  have inv: "ring_inv r" using assms(1) by (rule ring_reachable_inv)
  have sorted: "omap_inv (hr_ring r)" "omap_inv (hr_ring (RemoveNode node r))"
    using inv ring_inv_RemoveNode [OF inv] by (auto simp: ring_inv_def)
  have "ring_owner (Hash64 key) (hr_ring r) \<noteq> Some node"
    using assms(2) by (auto simp: OwnerForKey_ring_owner)
  from ring_points.owner_without [OF sorted RemoveNode_ring [OF inv] this]
  show ?thesis by (simp add: OwnerForKey_ring_owner)
qed

theorem removal_moves_only_own_keys_witness:
  "OwnerForKey ''zebra'' demo_ring = ''b'' \<and> OwnerForKey ''zebra'' (RemoveNode ''a'' demo_ring) = ''b''"
proof -
  have owner: "OwnerForKey ''zebra'' demo_ring = ''b''" by code_simp
  then show ?thesis
    using removal_moves_only_own_keys [OF demo_ring_reachable, of "''zebra''" "''a''"] by simp
qed

text \<open>
  C20: adding a node, or adding it again with another number of virtual nodes, moves keys only to
  that node: a key that another node owned stays with it or moves to the added node.
\<close>

theorem addition_moves_keys_only_to_node:
  assumes reach: "ring_reachable r" and add: "AddNode node n r = Some (Inr r')"
    and other: "OwnerForKey key r \<noteq> node"
  shows "OwnerForKey key r' = OwnerForKey key r \<or> OwnerForKey key r' = node"
proof (rule AddNode_effect [OF add ring_reachable_inv [OF reach]])
  fix new
  let ?r = "RemoveNode node r"
  assume points: "map_of (hr_ring r') =
      (\<lambda>token. if token \<in> set new then Some node else map_of (hr_ring ?r) token)"
    and sorted': "omap_inv (hr_ring r')"
  have inv: "ring_inv r" using reach by (rule ring_reachable_inv)
  have sorted: "omap_inv (hr_ring r)" "omap_inv (hr_ring ?r)"
    using inv ring_inv_RemoveNode [OF inv] by (auto simp: ring_inv_def)
  have "ring_owner (Hash64 key) (hr_ring r) \<noteq> Some node"
    using other by (auto simp: OwnerForKey_ring_owner)
  then have kept: "ring_owner (Hash64 key) (hr_ring ?r) = ring_owner (Hash64 key) (hr_ring r)"
    by (rule ring_points.owner_without [OF sorted RemoveNode_ring [OF inv]])
  have "ring_owner (Hash64 key) (hr_ring r') = ring_owner (Hash64 key) (hr_ring ?r) \<or>
      ring_owner (Hash64 key) (hr_ring r') = Some node"
    by (rule ring_points.owner_with [OF sorted(2) sorted', of "set new"]) (simp add: points)
  then show ?thesis by (auto simp: kept OwnerForKey_ring_owner)
qed

theorem addition_moves_keys_only_to_node_witness:
  "\<exists>r'. AddNode ''c'' 2 demo_ring = Some (Inr r') \<and> OwnerForKey ''zebra'' r' \<in> {''b'', ''c''}"
proof -
  have small: "int (length (hr_ring demo_ring)) + 2 \<le> 900" by code_simp
  from AddNode_small_ring [OF ring_reachable_inv [OF demo_ring_reachable] _ small]
  obtain r' where add: "AddNode ''c'' 2 demo_ring = Some (Inr r')" by auto
  have owner: "OwnerForKey ''zebra'' demo_ring = ''b''" by code_simp
  then have "OwnerForKey ''zebra'' demo_ring \<noteq> ''c''" by simp
  from addition_moves_keys_only_to_node [OF demo_ring_reachable add this] owner add
  show ?thesis by auto
qed

lemma card_tokens_of_node:
  assumes "ring_inv r" "map_of (hr_node_tokens r) node = Some tokens"
  shows "{token. map_of (hr_ring r) token = Some node} = set tokens"
  using assms by (auto simp: ring_inv_def)

text \<open>
  C21: probing ends on every ring of realistic size, whatever the node is called: as long as the
  ring has at most 900 tokens after the addition, \<open>AddNode\<close> finds a free token for each virtual
  node within the range of its \<open>int\<close> attempt counter. The node then owns exactly
  \<open>virtual_nodes\<close> tokens, and every other node the tokens it had.
\<close>

theorem bounded_ring_accepts_nodes:
  assumes reach: "ring_reachable r" and n: "0 < n"
    and small: "int (length (hr_ring r)) + n \<le> 900"
  shows "\<exists>r'. AddNode node n r = Some (Inr r') \<and>
    card {token. map_of (hr_ring r') token = Some node} = nat n \<and>
    (\<forall>other. other \<noteq> node \<longrightarrow>
      {token. map_of (hr_ring r') token = Some other} = {token. map_of (hr_ring r) token = Some other})"
proof -
  have inv: "ring_inv r" using reach by (rule ring_reachable_inv)
  from AddNode_small_ring [OF inv n small] obtain r' where add: "AddNode node n r = Some (Inr r')" by blast
  show ?thesis
  proof (rule AddNode_effect [OF add inv])
    fix new
    assume len: "length new = nat n" and dist: "distinct new"
      and fresh: "\<And>token. token \<in> set new \<Longrightarrow> map_of (hr_ring (RemoveNode node r)) token = None"
      and points: "map_of (hr_ring r') =
        (\<lambda>token. if token \<in> set new then Some node else map_of (hr_ring (RemoveNode node r)) token)"
      and tokens: "map_of (hr_node_tokens r') = (map_of (hr_node_tokens r))(node \<mapsto> new)"
    have "card {token. map_of (hr_ring r') token = Some node} = nat n"
      using card_tokens_of_node [OF ring_inv_AddNode [OF add inv], of node new] len dist
      by (simp add: tokens distinct_card)
    moreover have "{token. map_of (hr_ring r') token = Some other} =
        {token. map_of (hr_ring r) token = Some other}" if "other \<noteq> node" for other
      using that fresh by (fastforce simp: points RemoveNode_ring [OF inv] split: if_splits)
    ultimately show ?thesis using add by blast
  qed
qed

theorem bounded_ring_accepts_nodes_witness:
  "\<exists>r'. AddNode ''local'' 128 new_ring = Some (Inr r') \<and>
     card {token. map_of (hr_ring r') token = Some ''local''} = 128"
proof -
  have "int (length (hr_ring new_ring)) + 128 \<le> 900" by (simp add: new_ring_def)
  from bounded_ring_accepts_nodes [OF ring_reachable.start _ this, of "''local''"] show ?thesis by auto
qed

text \<open>
  Removing a node right after it joined restores the ring: both tables are the ones from
  before the addition.
\<close>

theorem removal_undoes_addition:
  assumes reach: "ring_reachable r" and fresh: "map_of (hr_node_tokens r) node = None"
    and add: "AddNode node n r = Some (Inr r')"
  shows "hr_ring (RemoveNode node r') = hr_ring r \<and>
    map_of (hr_node_tokens (RemoveNode node r')) = map_of (hr_node_tokens r)"
proof -
  have inv: "ring_inv r" and inv': "ring_inv r'"
    using ring_reachable_inv [OF reach] ring_inv_AddNode [OF add] by auto
  have same: "RemoveNode node r = r" using fresh by (simp add: RemoveNode_def)
  show ?thesis
  proof (rule AddNode_effect [OF add inv])
    fix new
    assume points: "map_of (hr_ring r') =
        (\<lambda>token. if token \<in> set new then Some node else map_of (hr_ring (RemoveNode node r)) token)"
      and free: "\<And>token. token \<in> set new \<Longrightarrow> map_of (hr_ring (RemoveNode node r)) token = None"
      and tokens: "map_of (hr_node_tokens r') = (map_of (hr_node_tokens r))(node \<mapsto> new)"
    have absent: "map_of (hr_ring r) token \<noteq> Some node" for token
      using inv fresh by (auto simp: ring_inv_def)
    have "map_of (hr_ring (RemoveNode node r')) token = map_of (hr_ring r) token" for token
      using free [of token] absent [of token] by (simp add: RemoveNode_ring [OF inv'] points same)
    moreover have "omap_inv (hr_ring (RemoveNode node r'))" "omap_inv (hr_ring r)"
      using ring_inv_RemoveNode [OF inv', of node] inv by (simp_all add: ring_inv_def)
    ultimately have "hr_ring (RemoveNode node r') = hr_ring r" by (intro omap_ext) auto
    then show ?thesis by (simp add: RemoveNode_tokens tokens fresh fun_upd_idem)
  qed
qed

theorem removal_undoes_addition_witness:
  "\<exists>r'. AddNode ''c'' 2 demo_ring = Some (Inr r') \<and> hr_ring (RemoveNode ''c'' r') = hr_ring demo_ring"
proof -
  have small: "int (length (hr_ring demo_ring)) + 2 \<le> 900" by code_simp
  from AddNode_small_ring [OF ring_reachable_inv [OF demo_ring_reachable] _ small]
  obtain r' where add: "AddNode ''c'' 2 demo_ring = Some (Inr r')" by auto
  have fresh: "map_of (hr_node_tokens demo_ring) ''c'' = None" by code_simp
  from removal_undoes_addition [OF demo_ring_reachable fresh add] add show ?thesis by blast
qed

end
