(* ===== verification/Resp_Parser.thy ===== *)
theory Resp_Parser
  imports Number_Text
begin

text \<open>
  The RESP wire format, \<open>src/protocol/resp/resp_parser.{hpp,cpp}\<close>, and the bulk-string encoder
  of \<open>src/server/command_dispatcher.cpp\<close>. Positions and sizes (\<open>size_t\<close>) are natural numbers:
  each of them is at most the size of the frame in memory, so none can wrap.
\<close>

section \<open>The parser\<close>

record RESPCommand =
  cmd_name :: string
  cmd_args :: "string list"

record RESPParseResult =
  res_command :: RESPCommand
  bytes_consumed :: nat

definition CRLF :: string where
  "CRLF = [CHR 0x0D, CHR 0x0A]"

text \<open>\<open>frame.find("\r\n", offset)\<close>.\<close>

fun crlf_pos :: "string \<Rightarrow> nat option" where
  "crlf_pos [] = None"
| "crlf_pos (c # cs) =
     (if take 2 (c # cs) = CRLF then Some 0 else map_option Suc (crlf_pos cs))"

definition ReadLine :: "string \<Rightarrow> nat \<Rightarrow> (string \<times> nat) option" where
  "ReadLine frame offset =
     (case crlf_pos (drop offset frame) of
        None \<Rightarrow> None
      | Some n \<Rightarrow> Some (take n (drop offset frame), offset + n + 2))"

definition kMaxArrayElements :: int where "kMaxArrayElements = 1024"
definition kMaxBulkLength :: int where "kMaxBulkLength = 1024 * 1024"
definition size_max :: int where "size_max = 18446744073709551615"

text \<open>One pass of the loop body: the element at \<open>offset\<close> and the offset behind it.\<close>

definition parse_element :: "string \<Rightarrow> nat \<Rightarrow> (string \<times> nat) option" where
  "parse_element frame offset =
     (case ReadLine frame offset of
        None \<Rightarrow> None
      | Some (line, offset) \<Rightarrow>
          if line = [] \<or> hd line \<noteq> CHR ''$'' then None
          else case ParseNumber (tl line) of
                 None \<Rightarrow> None
               | Some len \<Rightarrow>
                   if len < 0 \<or> kMaxBulkLength < len then None
                   else if size_max < len then None
                   else
                     let remaining = length frame - offset; length_size = nat len
                     in if remaining < 2 \<or> remaining - 2 < length_size then None
                        else
                          let part = take length_size (drop offset frame);
                              offset = offset + length_size
                          in if take 2 (drop offset frame) \<noteq> CRLF then None
                             else Some (part, offset + 2))"

fun parse_elements :: "string \<Rightarrow> nat \<Rightarrow> nat \<Rightarrow> string list \<Rightarrow> (string list \<times> nat) option" where
  "parse_elements frame 0 offset parts = Some (parts, offset)"
| "parse_elements frame (Suc todo) offset parts =
     (case parse_element frame offset of
        None \<Rightarrow> None
      | Some (part, offset) \<Rightarrow> parse_elements frame todo offset (parts @ [part]))"

definition no_command :: RESPCommand where
  "no_command = \<lparr>cmd_name = [], cmd_args = []\<rparr>"

definition no_result :: RESPParseResult where
  "no_result = \<lparr>res_command = no_command, bytes_consumed = 0\<rparr>"

definition ParseRESP :: "string \<Rightarrow> RESPParseResult" where
  "ParseRESP frame =
     (case ReadLine frame 0 of
        None \<Rightarrow> no_result
      | Some (line, offset) \<Rightarrow>
          if line = [] \<or> hd line \<noteq> CHR ''*'' then no_result
          else case ParseNumber (tl line) of
                 None \<Rightarrow> no_result
               | Some n \<Rightarrow>
                   if n \<le> 0 \<or> kMaxArrayElements < n then no_result
                   else case parse_elements frame (nat n) offset [] of
                          None \<Rightarrow> no_result
                        | Some (parts, offset) \<Rightarrow>
                            \<lparr>res_command =
                               (if parts = [] then no_command
                                else \<lparr>cmd_name = hd parts, cmd_args = tl parts\<rparr>),
                             bytes_consumed = offset\<rparr>)"

section \<open>The encoder\<close>

definition EncodeBulkString :: "string \<Rightarrow> string" where
  "EncodeBulkString value = ''$'' @ to_string (int (length value)) @ CRLF @ value @ CRLF"

text \<open>A client's request: an array of bulk strings.\<close>

definition encode_request :: "string list \<Rightarrow> string" where
  "encode_request parts =
     ''*'' @ to_string (int (length parts)) @ CRLF @ concat (map EncodeBulkString parts)"

section \<open>Lines\<close>

lemma length_CRLF [simp]: "length CRLF = 2"
  by (simp add: CRLF_def)

lemma crlf_pos_append: "crlf_pos xs = Some n \<Longrightarrow> crlf_pos (xs @ ys) = Some n"
proof (induction xs arbitrary: n)
  case (Cons x xs)
  then show ?case
    by (cases xs) (auto simp: CRLF_def split: if_splits)
qed simp

lemma crlf_pos_bound: "crlf_pos xs = Some n \<Longrightarrow> n + 2 \<le> length xs"
proof (induction xs arbitrary: n)
  case (Cons x xs)
  show ?case
  proof (cases "take 2 (x # xs) = CRLF")
    case True
    with Cons.prems show ?thesis by (cases xs) (auto simp: CRLF_def)
  next
    case False
    with Cons show ?thesis by auto
  qed
qed simp

lemma crlf_pos_line: "CHR 0x0D \<notin> set line \<Longrightarrow> crlf_pos (line @ CRLF @ rest) = Some (length line)"
  by (induction line) (auto simp: CRLF_def)

lemma ReadLine_append: "ReadLine frame k = Some r \<Longrightarrow> ReadLine (frame @ later) k = Some r"
proof -
  assume a: "ReadLine frame k = Some r"
  then obtain n where n: "crlf_pos (drop k frame) = Some n"
    and r: "r = (take n (drop k frame), k + n + 2)"
    by (auto simp: ReadLine_def split: option.splits)
  have "k + n + 2 \<le> length frame" using crlf_pos_bound [OF n] by simp
  with r crlf_pos_append [OF n] show ?thesis by (auto simp: ReadLine_def)
qed

lemma ReadLine_bound: "ReadLine frame k = Some (line, k') \<Longrightarrow> k + 2 \<le> k' \<and> k' \<le> length frame"
  by (auto simp: ReadLine_def split: option.splits dest!: crlf_pos_bound)

lemma ReadLine_line:
  "CHR 0x0D \<notin> set line \<Longrightarrow> k = length pre \<Longrightarrow>
   ReadLine (pre @ line @ CRLF @ rest) k = Some (line, length pre + length line + 2)"
  by (simp add: ReadLine_def crlf_pos_line)

section \<open>Elements\<close>

lemma parse_elementE:
  assumes "parse_element frame k = Some (part, k')"
  obtains line off n where "ReadLine frame k = Some (line, off)" "line \<noteq> []" "hd line = CHR ''$''"
    "ParseNumber (tl line) = Some n" "0 \<le> n" "n \<le> kMaxBulkLength"
    "part = take (nat n) (drop off frame)" "k' = off + nat n + 2" "k' \<le> length frame"
    "take 2 (drop (off + nat n) frame) = CRLF"
proof -
  obtain line off where line: "ReadLine frame k = Some (line, off)"
    using assms by (auto simp: parse_element_def split: option.splits)
  have off: "off \<le> length frame" using ReadLine_bound [OF line] by simp
  obtain n where n: "ParseNumber (tl line) = Some n"
    using assms by (auto simp: parse_element_def line split: option.splits if_splits)
  show thesis
    using assms off by (intro that [OF line _ _ n])
      (auto simp: parse_element_def line n Let_def split: if_splits)
qed

lemma parse_element_append:
  assumes "parse_element frame k = Some r"
  shows "parse_element (frame @ later) k = Some r"
proof -
  obtain part k' where r: "r = (part, k')" by (cases r)
  from assms [unfolded r] obtain line off n where e: "ReadLine frame k = Some (line, off)"
    "line \<noteq> []" "hd line = CHR ''$''" "ParseNumber (tl line) = Some n" "0 \<le> n" "n \<le> kMaxBulkLength"
    "part = take (nat n) (drop off frame)" "k' = off + nat n + 2" "k' \<le> length frame"
    "take 2 (drop (off + nat n) frame) = CRLF" by (rule parse_elementE)
  note line = ReadLine_append [OF e(1), of later]
  have "\<not> size_max < n" using e(6) by (simp add: kMaxBulkLength_def size_max_def)
  moreover have "take 2 (drop (off + nat n) (frame @ later)) = CRLF"
    using e(8-10) by simp
  moreover have "\<not> length (frame @ later) - off < 2" "\<not> length (frame @ later) - off - 2 < nat n"
    using e(8,9) by auto
  ultimately show ?thesis
    using e(2-9) unfolding r by (simp add: parse_element_def line Let_def)
qed

lemma parse_element_bound:
  assumes "parse_element frame k = Some (part, k')"
  shows "k < k' \<and> k' \<le> length frame \<and> int (length part) \<le> kMaxBulkLength"
  using assms
proof (rule parse_elementE)
  fix line off n
  assume "ReadLine frame k = Some (line, off)" "k' = off + nat n + 2" "k' \<le> length frame"
    "0 \<le> n" "n \<le> kMaxBulkLength" "part = take (nat n) (drop off frame)"
  then show ?thesis using ReadLine_bound [of frame k line off] by auto
qed

lemma parse_elements_append:
  "parse_elements frame todo k parts = Some r \<Longrightarrow> parse_elements (frame @ later) todo k parts = Some r"
  by (induction frame todo k parts rule: parse_elements.induct)
     (auto simp: parse_element_append split: option.splits)

lemma parse_elements_bound:
  "parse_elements frame todo k parts = Some (parts', k') \<Longrightarrow> k \<le> length frame \<Longrightarrow>
   (\<forall>part \<in> set parts. int (length part) \<le> kMaxBulkLength) \<Longrightarrow>
   k \<le> k' \<and> k' \<le> length frame \<and> length parts' = length parts + todo \<and>
   (\<forall>part \<in> set parts'. int (length part) \<le> kMaxBulkLength)"
proof (induction frame todo k parts rule: parse_elements.induct)
  case (2 frame todo k parts)
  from 2(2) obtain part l where e: "parse_element frame k = Some (part, l)"
    and rest: "parse_elements frame todo l (parts @ [part]) = Some (parts', k')"
    by (auto split: option.splits)
  note b = parse_element_bound [OF e]
  from 2(1) [OF e refl rest] b 2(4) show ?case by auto
qed simp

lemma no_CR_number [simp]: "CHR 0x0D \<notin> set (to_string v)"
  using to_string_chars [of "CHR 0x0D" v] by (auto simp: is_digit_def)

lemma parse_element_encoded:
  assumes "int (length part) \<le> kMaxBulkLength" "k = length pre"
  shows "parse_element (pre @ EncodeBulkString part @ rest) k =
    Some (part, length pre + length (EncodeBulkString part))"
proof -
  let ?n = "to_string (int (length part))"
  define A where "A = pre @ (''$'' @ ?n) @ CRLF"
  have "ReadLine (pre @ (''$'' @ ?n) @ CRLF @ part @ CRLF @ rest) k =
      Some (''$'' @ ?n, length pre + length (''$'' @ ?n) + 2)"
    by (rule ReadLine_line) (auto simp: assms)
  then have "ReadLine (A @ part @ CRLF @ rest) k = Some (''$'' @ ?n, length A)"
    by (simp add: A_def)
  moreover have "ParseNumber ?n = Some (int (length part))"
    using assms(1)
    by (intro ParseNumber_to_string) (auto simp: kMaxBulkLength_def llong_min_def llong_max_def)
  ultimately have "parse_element (A @ part @ CRLF @ rest) k = Some (part, length A + length part + 2)"
    using assms(1) by (simp add: parse_element_def Let_def kMaxBulkLength_def size_max_def)
  then show ?thesis by (simp add: A_def EncodeBulkString_def add.commute)
qed

lemma parse_elements_encoded:
  "(\<And>part. part \<in> set todo \<Longrightarrow> int (length part) \<le> kMaxBulkLength) \<Longrightarrow> k = length pre \<Longrightarrow>
   parse_elements (pre @ concat (map EncodeBulkString todo) @ rest) (length todo) k parts =
     Some (parts @ todo, length pre + length (concat (map EncodeBulkString todo)))"
proof (induction todo arbitrary: pre k parts)
  case (Cons part todo)
  have "parse_element (pre @ EncodeBulkString part @ concat (map EncodeBulkString todo) @ rest) k =
      Some (part, length pre + length (EncodeBulkString part))"
    by (rule parse_element_encoded) (use Cons.prems in auto)
  with Cons.IH [of "length pre + length (EncodeBulkString part)" "pre @ EncodeBulkString part" "parts @ [part]"]
    Cons.prems show ?case by (simp add: add.assoc)
qed simp

section \<open>Properties\<close>

lemma ParseRESP_consumed:
  assumes "0 < bytes_consumed (ParseRESP frame)"
  obtains line off n parts k where "ReadLine frame 0 = Some (line, off)" "line \<noteq> []" "hd line = CHR ''*''"
    "ParseNumber (tl line) = Some n" "0 < n" "n \<le> kMaxArrayElements"
    "parse_elements frame (nat n) off [] = Some (parts, k)" "parts \<noteq> []"
    "ParseRESP frame = \<lparr>res_command = \<lparr>cmd_name = hd parts, cmd_args = tl parts\<rparr>, bytes_consumed = k\<rparr>"
proof -
  obtain line off where line: "ReadLine frame 0 = Some (line, off)"
    using assms by (auto simp: ParseRESP_def no_result_def split: option.splits)
  obtain n where n: "ParseNumber (tl line) = Some n"
    using assms by (auto simp: ParseRESP_def no_result_def line split: option.splits if_splits)
  obtain parts k where parts: "parse_elements frame (nat n) off [] = Some (parts, k)"
    using assms by (auto simp: ParseRESP_def no_result_def line n split: option.splits if_splits)
  have ok: "line \<noteq> []" "hd line = CHR ''*''" "0 < n" "n \<le> kMaxArrayElements"
    using assms by (auto simp: ParseRESP_def no_result_def line n split: if_splits)
  have "off \<le> length frame" using ReadLine_bound [OF line] by simp
  then have "length parts = nat n" using parse_elements_bound [OF parts] by simp
  then have "parts \<noteq> []" using ok(3) by auto
  then show thesis
    using ok by (intro that [OF line ok(1,2) n ok(3,4) parts]) (auto simp: ParseRESP_def line n parts)
qed

lemma ParseRESP_bounds:
  assumes "0 < bytes_consumed (ParseRESP frame)"
  shows "bytes_consumed (ParseRESP frame) \<le> length frame \<and>
    1 + int (length (cmd_args (res_command (ParseRESP frame)))) \<le> kMaxArrayElements \<and>
    int (length (cmd_name (res_command (ParseRESP frame)))) \<le> kMaxBulkLength \<and>
    (\<forall>arg \<in> set (cmd_args (res_command (ParseRESP frame))). int (length arg) \<le> kMaxBulkLength)"
  using assms
proof (rule ParseRESP_consumed)
  fix line off n parts k
  assume line: "ReadLine frame 0 = Some (line, off)" and n: "0 < n" "n \<le> kMaxArrayElements"
    and parts: "parse_elements frame (nat n) off [] = Some (parts, k)" "parts \<noteq> []"
    and res: "ParseRESP frame =
      \<lparr>res_command = \<lparr>cmd_name = hd parts, cmd_args = tl parts\<rparr>, bytes_consumed = k\<rparr>"
  have "off \<le> length frame" using ReadLine_bound [OF line] by simp
  from parse_elements_bound [OF parts(1) this]
  have "k \<le> length frame" "length parts = nat n" "\<forall>part \<in> set parts. int (length part) \<le> kMaxBulkLength"
    by simp_all
  then show ?thesis using parts(2) n by (cases parts) (auto simp: res)
qed

lemma ParseRESP_append:
  assumes "0 < bytes_consumed (ParseRESP frame)"
  shows "ParseRESP (frame @ later) = ParseRESP frame"
  using assms
proof (rule ParseRESP_consumed)
  fix line off n parts k
  assume "ReadLine frame 0 = Some (line, off)" "line \<noteq> []" "hd line = CHR ''*''"
    "ParseNumber (tl line) = Some n" "0 < n" "n \<le> kMaxArrayElements"
    "parse_elements frame (nat n) off [] = Some (parts, k)" "parts \<noteq> []"
    "ParseRESP frame = \<lparr>res_command = \<lparr>cmd_name = hd parts, cmd_args = tl parts\<rparr>, bytes_consumed = k\<rparr>"
  then show ?thesis
    by (simp add: ParseRESP_def [of "frame @ later"] ReadLine_append parse_elements_append)
qed

lemma ParseRESP_failed: "bytes_consumed (ParseRESP frame) = 0 \<Longrightarrow> ParseRESP frame = no_result"
proof -
  have "0 < k" if "ReadLine frame 0 = Some (line, off)" "parse_elements frame n off [] = Some (parts, k)"
    for line off n parts k
    using ReadLine_bound [OF that(1)] parse_elements_bound [OF that(2)] by simp
  then show "bytes_consumed (ParseRESP frame) = 0 \<Longrightarrow> ParseRESP frame = no_result"
    by (fastforce simp: ParseRESP_def no_result_def split: option.splits if_splits)
qed

lemma ParseRESP_encoded:
  assumes "parts \<noteq> []" and "int (length parts) \<le> kMaxArrayElements"
    and "\<forall>part \<in> set parts. int (length part) \<le> kMaxBulkLength"
  shows "ParseRESP (encode_request parts @ rest) =
    \<lparr>res_command = \<lparr>cmd_name = hd parts, cmd_args = tl parts\<rparr>,
     bytes_consumed = length (encode_request parts)\<rparr>"
proof -
  let ?n = "to_string (int (length parts))"
  let ?body = "concat (map EncodeBulkString parts)"
  have "ReadLine ([] @ (''*'' @ ?n) @ CRLF @ ?body @ rest) 0 = Some (''*'' @ ?n, length ([] :: string) + length (''*'' @ ?n) + 2)"
    by (rule ReadLine_line) auto
  then have line: "ReadLine (encode_request parts @ rest) 0 = Some (''*'' @ ?n, length (''*'' @ ?n @ CRLF))"
    by (simp add: encode_request_def)
  have number: "ParseNumber ?n = Some (int (length parts))"
    using assms(2) by (intro ParseNumber_to_string) (auto simp: kMaxArrayElements_def llong_min_def llong_max_def)
  have "parse_elements ((''*'' @ ?n @ CRLF) @ ?body @ rest) (length parts) (length (''*'' @ ?n @ CRLF)) [] =
      Some ([] @ parts, length (''*'' @ ?n @ CRLF) + length ?body)"
    by (rule parse_elements_encoded) (use assms(3) in auto)
  then have "parse_elements (encode_request parts @ rest) (length parts) (length (''*'' @ ?n @ CRLF)) [] =
      Some (parts, length (encode_request parts))"
    by (simp add: encode_request_def)
  with line number assms(1,2) show ?thesis by (simp add: ParseRESP_def)
qed

text \<open>
  C22: the parser reads back what a client encodes. A request of 1 to 1024 parts of at most 1 MiB
  each, followed by any further bytes, is parsed to exactly its parts, whatever bytes they hold
  (line breaks and protocol characters included), and exactly the bytes of the request are
  consumed.
\<close>

theorem request_roundtrip:
  assumes "parts \<noteq> []" and "int (length parts) \<le> kMaxArrayElements"
    and "\<forall>part \<in> set parts. int (length part) \<le> kMaxBulkLength"
  shows "ParseRESP (encode_request parts @ rest) =
    \<lparr>res_command = \<lparr>cmd_name = hd parts, cmd_args = tl parts\<rparr>,
     bytes_consumed = length (encode_request parts)\<rparr>"
  using assms by (rule ParseRESP_encoded)

theorem request_roundtrip_witness:
  "ParseRESP (encode_request [''SET'', CRLF, ''*1''] @ ''$'') =
    \<lparr>res_command = \<lparr>cmd_name = ''SET'', cmd_args = [CRLF, ''*1'']\<rparr>,
     bytes_consumed = length (encode_request [''SET'', CRLF, ''*1''])\<rparr>"
proof -
  have "\<forall>part \<in> set [''SET'', CRLF, ''*1'']. int (length part) \<le> kMaxBulkLength"
    by (simp add: kMaxBulkLength_def)
  then show ?thesis
    using request_roundtrip [of "[''SET'', CRLF, ''*1'']" "''$''"] by (simp add: kMaxArrayElements_def)
qed

lemma ParseRESP_prefix:
  assumes "m < bytes_consumed (ParseRESP frame)"
  shows "ParseRESP (take m frame) = no_result"
proof (rule ParseRESP_failed, rule ccontr)
  assume "bytes_consumed (ParseRESP (take m frame)) \<noteq> 0"
  then have pos: "0 < bytes_consumed (ParseRESP (take m frame))" by simp
  have "ParseRESP frame = ParseRESP (take m frame)"
    using ParseRESP_append [OF pos, of "drop m frame"] by simp
  with ParseRESP_bounds [OF pos] assms show False by simp
qed

text \<open>
  A request is recognised as soon as its last byte has arrived and not earlier. If the parser
  accepts a frame and consumes \<open>n\<close> of its bytes, it returns the same result for the first \<open>n\<close>
  bytes followed by anything else, and it accepts no shorter prefix. How a request is cut into
  segments by the network therefore cannot change what is executed.
\<close>

theorem parse_needs_whole_request:
  assumes "bytes_consumed (ParseRESP frame) = n" and "0 < n"
  shows "ParseRESP (frame @ later) = ParseRESP frame \<and>
    (\<forall>m < n. ParseRESP (take m frame) = no_result)"
  using assms ParseRESP_append ParseRESP_prefix by blast

theorem parse_needs_whole_request_witness:
  "bytes_consumed (ParseRESP (encode_request [''PING''])) = 14 \<and>
   ParseRESP (encode_request [''PING''] @ ''x'') = ParseRESP (encode_request [''PING'']) \<and>
   ParseRESP (take 13 (encode_request [''PING''])) = no_result"
proof -
  have n: "bytes_consumed (ParseRESP (encode_request [''PING''])) = 14" by code_simp
  from parse_needs_whole_request [OF n, of "''x''"] n show ?thesis by simp
qed

text \<open>
  Limits on untrusted input. Whatever bytes arrive, an accepted command has at most 1024
  parts of at most 1 MiB each, and never more bytes are consumed than the frame has.
\<close>

theorem parse_respects_limits:
  "bytes_consumed (ParseRESP frame) \<le> length frame \<and>
   1 + int (length (cmd_args (res_command (ParseRESP frame)))) \<le> kMaxArrayElements \<and>
   int (length (cmd_name (res_command (ParseRESP frame)))) \<le> kMaxBulkLength \<and>
   (\<forall>i < length (cmd_args (res_command (ParseRESP frame))).
      int (length (cmd_args (res_command (ParseRESP frame)) ! i)) \<le> kMaxBulkLength)"
proof (cases "bytes_consumed (ParseRESP frame) = 0")
  case True
  then have "ParseRESP frame = no_result" by (rule ParseRESP_failed)
  then show ?thesis by (simp add: no_result_def no_command_def kMaxArrayElements_def kMaxBulkLength_def)
next
  case False
  then show ?thesis using ParseRESP_bounds [of frame] by simp
qed

theorem parse_respects_limits_witness:
  "cmd_args (res_command (ParseRESP (encode_request [''GET'', ''k'']))) = [''k''] \<and>
   int (length (cmd_args (res_command (ParseRESP (encode_request [''GET'', ''k'']))) ! 0)) \<le> kMaxBulkLength"
proof -
  have args: "cmd_args (res_command (ParseRESP (encode_request [''GET'', ''k'']))) = [''k'']" by code_simp
  from parse_respects_limits [of "encode_request [''GET'', ''k'']"] show ?thesis by (simp add: args)
qed

end
