(* ===== verification/Command_Dispatcher.thy ===== *)
theory Command_Dispatcher
  imports Store_Spec Resp_Parser
begin

text \<open>
  Commands, \<open>src/server/command_dispatcher.{hpp,cpp}\<close>, and the gRPC service over them,
  \<open>src/protocol/grpc/cache_service.{hpp,cpp}\<close>. Both front ends call \<open>DispatchCommand\<close>, which
  calls the store. The abstract service is a map from keys to values; the dispatcher on the
  server's store refines it.

  A command may read the clock three times; the readings are its argument. \<^const>\<open>None\<close> would
  be a call of the store that does not return.
\<close>

type_synonym clock = "time_point \<times> time_point \<times> time_point"

section \<open>The dispatcher\<close>

datatype CommandStatus = kOk | kNotFound | kError | kInvalidKey | kUnknownCommand

record CommandResult =
  cr_status :: CommandStatus
  cr_value :: "string option"
  cr_message :: string

definition kEmptyKeyMessage :: string where
  "kEmptyKeyMessage = ''key must not be empty''"

text \<open>\<open>std::toupper\<close> in the \<open>"C"\<close> locale, the one a program starts in.\<close>

definition toupper :: "char \<Rightarrow> char" where
  "toupper ch = (let n = of_char ch :: nat in if 97 \<le> n \<and> n \<le> 122 then char_of (n - 32) else ch)"

definition ToUpper :: "string \<Rightarrow> string" where
  "ToUpper value = map toupper value"

definition ErrorResult :: "CommandStatus \<Rightarrow> string \<Rightarrow> CommandResult" where
  "ErrorResult status message = \<lparr>cr_status = status, cr_value = None, cr_message = message\<rparr>"

definition DispatchCommand :: "hasher \<Rightarrow> clock \<Rightarrow> string \<Rightarrow> string list \<Rightarrow> ConcurrentStore
    \<Rightarrow> (CommandResult \<times> ConcurrentStore) option" where
  "DispatchCommand hash clock command args store =
     (let name = ToUpper command
      in if name = ''SET'' then
           (if length args \<noteq> 2 then Some (ErrorResult kError ''wrong number of arguments'', store)
            else if args ! 0 = [] then Some (ErrorResult kInvalidKey kEmptyKeyMessage, store)
            else case Store_Set hash (args ! 0) (args ! 1) None clock store of
                   None \<Rightarrow> None
                 | Some store' \<Rightarrow> Some (\<lparr>cr_status = kOk, cr_value = None, cr_message = []\<rparr>, store'))
         else if name = ''GET'' then
           (if length args \<noteq> 1 then Some (ErrorResult kError ''wrong number of arguments'', store)
            else if args ! 0 = [] then Some (ErrorResult kInvalidKey kEmptyKeyMessage, store)
            else case Store_Get hash (args ! 0) (fst (snd clock)) store of
                   (None, store') \<Rightarrow> Some (\<lparr>cr_status = kNotFound, cr_value = None, cr_message = []\<rparr>, store')
                 | (Some value, store') \<Rightarrow>
                     Some (\<lparr>cr_status = kOk, cr_value = Some value, cr_message = []\<rparr>, store'))
         else Some (ErrorResult kUnknownCommand ''unknown command'', store))"

text \<open>The reply text of \<open>ExecuteCommand\<close>, and the command with its reply.\<close>

definition encode_result :: "CommandResult \<Rightarrow> string" where
  "encode_result result =
     (case cr_status result of
        kOk \<Rightarrow> (case cr_value result of Some value \<Rightarrow> EncodeBulkString value | None \<Rightarrow> ''+OK'' @ CRLF)
      | kNotFound \<Rightarrow> ''$-1'' @ CRLF
      | kError \<Rightarrow> ''-ERR '' @ cr_message result @ CRLF
      | kInvalidKey \<Rightarrow> ''-ERR '' @ cr_message result @ CRLF
      | kUnknownCommand \<Rightarrow> ''-ERR '' @ cr_message result @ CRLF)"

definition ExecuteCommand :: "hasher \<Rightarrow> clock \<Rightarrow> RESPCommand \<Rightarrow> ConcurrentStore
    \<Rightarrow> (string \<times> ConcurrentStore) option" where
  "ExecuteCommand hash clock cmd store =
     (case DispatchCommand hash clock (cmd_name cmd) (cmd_args cmd) store of
        None \<Rightarrow> None
      | Some (result, store') \<Rightarrow> Some (encode_result result, store'))"

section \<open>The gRPC service\<close>

text \<open>The messages of \<open>proto/cache.proto\<close>, with the proto3 defaults, and the returned status.\<close>

record SetResponse =
  sr_ok :: bool
  sr_error :: string

record GetResponse =
  gr_found :: bool
  gr_value :: string
  gr_error :: string

datatype GrpcStatus = StatusOK | INVALID_ARGUMENT string

definition Grpc_Set :: "hasher \<Rightarrow> clock \<Rightarrow> string \<Rightarrow> string \<Rightarrow> SetResponse \<Rightarrow> ConcurrentStore
    \<Rightarrow> (GrpcStatus \<times> SetResponse \<times> ConcurrentStore) option" where
  "Grpc_Set hash clock key val response store =
     (case DispatchCommand hash clock ''SET'' [key, val] store of
        None \<Rightarrow> None
      | Some (result, store') \<Rightarrow> Some
          (if cr_status result = kInvalidKey then
             (INVALID_ARGUMENT (cr_message result),
              response\<lparr>sr_ok := False, sr_error := cr_message result\<rparr>, store')
           else if cr_status result = kOk then
             (StatusOK, response\<lparr>sr_ok := True\<rparr>, store')
           else
             (StatusOK, response\<lparr>sr_ok := False, sr_error := cr_message result\<rparr>, store')))"

definition Grpc_Get :: "hasher \<Rightarrow> clock \<Rightarrow> string \<Rightarrow> GetResponse \<Rightarrow> ConcurrentStore
    \<Rightarrow> (GrpcStatus \<times> GetResponse \<times> ConcurrentStore) option" where
  "Grpc_Get hash clock key response store =
     (case DispatchCommand hash clock ''GET'' [key] store of
        None \<Rightarrow> None
      | Some (result, store') \<Rightarrow> Some
          (if cr_status result = kInvalidKey then
             (INVALID_ARGUMENT (cr_message result),
              response\<lparr>gr_found := False, gr_error := cr_message result\<rparr>, store')
           else case (cr_status result, cr_value result) of
             (kOk, Some value) \<Rightarrow> (StatusOK, response\<lparr>gr_found := True, gr_value := value\<rparr>, store')
           | (kNotFound, _) \<Rightarrow> (StatusOK, response\<lparr>gr_found := False\<rparr>, store')
           | _ \<Rightarrow> (StatusOK, response\<lparr>gr_found := False, gr_error := cr_message result\<rparr>, store')))"

section \<open>The abstract service\<close>

text \<open>
  A map from keys to values, commands named in upper case. What the dispatcher is to return,
  and the map after the command.
\<close>

fun spec_command :: "string \<Rightarrow> string list \<Rightarrow> (string \<rightharpoonup> string) \<Rightarrow> CommandResult \<times> (string \<rightharpoonup> string)" where
  "spec_command name args m =
     (if name = ''SET'' then
        (case args of
           [key, val] \<Rightarrow>
             if key = [] then (ErrorResult kInvalidKey kEmptyKeyMessage, m)
             else (\<lparr>cr_status = kOk, cr_value = None, cr_message = []\<rparr>, m(key \<mapsto> val))
         | _ \<Rightarrow> (ErrorResult kError ''wrong number of arguments'', m))
      else if name = ''GET'' then
        (case args of
           [key] \<Rightarrow>
             if key = [] then (ErrorResult kInvalidKey kEmptyKeyMessage, m)
             else (\<lparr>cr_status = (if key \<in> dom m then kOk else kNotFound), cr_value = m key, cr_message = []\<rparr>, m)
         | _ \<Rightarrow> (ErrorResult kError ''wrong number of arguments'', m))
      else (ErrorResult kUnknownCommand ''unknown command'', m))"

declare spec_command.simps [simp del]

text \<open>The store as the server creates it: any number of stripes, no capacity bound.\<close>

definition server_store :: "hasher \<Rightarrow> ConcurrentStore \<Rightarrow> bool" where
  "server_store hash s \<longleftrightarrow> server_store_inv hash s \<and> st_max_entries s = 0"

lemma server_store_new: "server_store hash (new_store stripes 0)"
  by (simp add: server_store_def server_store_inv_def inv_pres untimed_def) (simp add: new_store_def)

lemma held_new [simp]: "held hash (new_store stripes m) = Map.empty"
  by (simp add: held_def)

text \<open>The dispatcher, one command at a time.\<close>

lemma DispatchCommand_SET:
  assumes "ToUpper command = ''SET''"
  shows "DispatchCommand hash clock command args s =
    (case args of
       [k, v] \<Rightarrow>
         if k = [] then Some (ErrorResult kInvalidKey kEmptyKeyMessage, s)
         else map_option (\<lambda>s'. (\<lparr>cr_status = kOk, cr_value = None, cr_message = []\<rparr>, s'))
                (Store_Set hash k v None clock s)
     | _ \<Rightarrow> Some (ErrorResult kError ''wrong number of arguments'', s))"
  using assms by (simp add: DispatchCommand_def map_option_case split: list.split)

lemma DispatchCommand_GET:
  assumes "ToUpper command = ''GET''"
  shows "DispatchCommand hash clock command args s =
    (case args of
       [k] \<Rightarrow>
         if k = [] then Some (ErrorResult kInvalidKey kEmptyKeyMessage, s)
         else (case Store_Get hash k (fst (snd clock)) s of (v, s') \<Rightarrow>
                 Some (\<lparr>cr_status = (if v = None then kNotFound else kOk), cr_value = v, cr_message = []\<rparr>, s'))
     | _ \<Rightarrow> Some (ErrorResult kError ''wrong number of arguments'', s))"
  using assms by (simp add: DispatchCommand_def split: list.split prod.split option.split)

lemma DispatchCommand_other:
  "ToUpper command \<noteq> ''SET'' \<Longrightarrow> ToUpper command \<noteq> ''GET'' \<Longrightarrow>
   DispatchCommand hash clock command args s = Some (ErrorResult kUnknownCommand ''unknown command'', s)"
  by (simp add: DispatchCommand_def)

lemmas dispatch_defs = DispatchCommand_SET DispatchCommand_GET DispatchCommand_other

lemma DispatchCommand_refines:
  assumes "server_store hash s"
  shows "\<exists>result s'. DispatchCommand hash clock command args s = Some (result, s') \<and>
    server_store hash s' \<and> (result, held hash s') = spec_command (ToUpper command) args (held hash s)"
proof -
  have inv: "server_store_inv hash s \<and> st_max_entries s = 0" using assms by (simp add: server_store_def)
  consider "ToUpper command = ''SET''" | "ToUpper command = ''GET''"
    | "ToUpper command \<noteq> ''SET''" "ToUpper command \<noteq> ''GET''" by blast
  then show ?thesis
  proof cases
    case 1
    have "\<exists>s'. Store_Set hash k v None clock s = Some s' \<and> server_store hash s' \<and>
        held hash s' = (held hash s)(k \<mapsto> v)" for k v
      using unbounded.set_total [OF inv, of k v clock] by (auto simp: server_store_def)
    then show ?thesis
      using assms by (fastforce simp: DispatchCommand_SET 1 spec_command.simps split: list.split)
  next
    case 2
    have "fst (Store_Get hash k t s) = held hash s k" "server_store hash (snd (Store_Get hash k t s))"
      "held hash (snd (Store_Get hash k t s)) = held hash s" for k t
      using unbounded.get_value [OF inv] unbounded.get_inv [OF inv] unbounded.get_vals [OF inv]
      by (auto simp: server_store_def)
    then show ?thesis
      using assms
      by (auto simp: DispatchCommand_GET 2 spec_command.simps case_prod_unfold dom_def split: list.split)
  next
    case 3
    with assms show ?thesis by (simp add: DispatchCommand_other spec_command.simps)
  qed
qed

section \<open>Properties\<close>

text \<open>
  C3: the dispatcher implements the abstract service. On the store as the server creates it,
  every command returns, and its result and the map of the store afterwards are those of the
  specification, for every command name (in any case), every argument list and every clock.
\<close>

theorem dispatcher_refines_map:
  assumes "server_store hash s"
  shows "\<exists>result s'. DispatchCommand hash clock command args s = Some (result, s') \<and>
    server_store hash s' \<and> (result, held hash s') = spec_command (ToUpper command) args (held hash s)"
  using assms by (rule DispatchCommand_refines)

theorem dispatcher_refines_map_witness:
  "\<exists>result s'. DispatchCommand (\<lambda>_. 0) (1, 2, 3) ''get'' [''k''] (new_store 64 0) = Some (result, s') \<and>
     cr_status result = kNotFound"
proof -
  have up: "ToUpper ''get'' = ''GET''" by code_simp
  from dispatcher_refines_map [OF server_store_new [of "\<lambda>_. 0" 64], of "(1, 2, 3)" "''get''" "[''k'']"]
  show ?thesis by (auto simp: up spec_command.simps)
qed

text \<open>
  A refused command changes nothing. If the dispatcher answers with an error status (wrong
  number of arguments, empty key, unknown command) the store is untouched, whatever its
  capacity; the reply is a RESP error line.
\<close>

theorem refused_command_changes_nothing:
  assumes "DispatchCommand hash clock command args s = Some (result, s')"
    and "cr_status result \<in> {kError, kInvalidKey, kUnknownCommand}"
  shows "s' = s \<and> cr_value result = None \<and> encode_result result = ''-ERR '' @ cr_message result @ CRLF"
  using assms
  by (auto simp: DispatchCommand_def ErrorResult_def Let_def encode_result_def
      split: if_splits option.splits prod.splits)

theorem refused_command_changes_nothing_witness:
  "DispatchCommand (\<lambda>_. 0) (0, 0, 0) ''SET'' [[], ''v''] (new_store 4 2) =
     Some (ErrorResult kInvalidKey kEmptyKeyMessage, new_store 4 2) \<and>
   encode_result (ErrorResult kInvalidKey kEmptyKeyMessage) = ''-ERR '' @ kEmptyKeyMessage @ CRLF"
proof -
  have run: "DispatchCommand (\<lambda>_. 0) (0, 0, 0) ''SET'' [[], ''v''] (new_store 4 2) =
     Some (ErrorResult kInvalidKey kEmptyKeyMessage, new_store 4 2)" by code_simp
  have status: "cr_status (ErrorResult kInvalidKey kEmptyKeyMessage) \<in> {kError, kInvalidKey, kUnknownCommand}"
    by (simp add: ErrorResult_def)
  from refused_command_changes_nothing [OF run status] run show ?thesis by (simp add: ErrorResult_def)
qed

text \<open>The RESP reply that says what a gRPC response says.\<close>

definition grpc_set_reply :: "GrpcStatus \<Rightarrow> SetResponse \<Rightarrow> string" where
  "grpc_set_reply status response =
     (case status of
        INVALID_ARGUMENT message \<Rightarrow> ''-ERR '' @ message @ CRLF
      | StatusOK \<Rightarrow> if sr_ok response then ''+OK'' @ CRLF else ''-ERR '' @ sr_error response @ CRLF)"

definition grpc_get_reply :: "GrpcStatus \<Rightarrow> GetResponse \<Rightarrow> string" where
  "grpc_get_reply status response =
     (case status of
        INVALID_ARGUMENT message \<Rightarrow> ''-ERR '' @ message @ CRLF
      | StatusOK \<Rightarrow>
          if gr_found response then EncodeBulkString (gr_value response)
          else if gr_error response = [] then ''$-1'' @ CRLF
          else ''-ERR '' @ gr_error response @ CRLF)"

lemma grpc_set_as_resp:
  "ExecuteCommand hash clock \<lparr>cmd_name = ''SET'', cmd_args = [k, v]\<rparr> s =
     map_option (\<lambda>(status, response, s'). (grpc_set_reply status response, s'))
       (Grpc_Set hash clock k v \<lparr>sr_ok = False, sr_error = []\<rparr> s)"
proof -
  have "ToUpper ''SET'' = ''SET''" by code_simp
  then show ?thesis
    by (cases "Store_Set hash k v None clock s")
       (simp_all add: ExecuteCommand_def Grpc_Set_def dispatch_defs ErrorResult_def
        encode_result_def grpc_set_reply_def)
qed

lemma grpc_get_as_resp:
  "ExecuteCommand hash clock \<lparr>cmd_name = ''GET'', cmd_args = [k]\<rparr> s =
     map_option (\<lambda>(status, response, s'). (grpc_get_reply status response, s'))
       (Grpc_Get hash clock k \<lparr>gr_found = False, gr_value = [], gr_error = []\<rparr> s)"
proof -
  have "ToUpper ''GET'' = ''GET''" by code_simp
  then show ?thesis
    by (cases "Store_Get hash k (fst (snd clock)) s"; cases "fst (Store_Get hash k (fst (snd clock)) s)")
       (simp_all add: ExecuteCommand_def Grpc_Get_def dispatch_defs ErrorResult_def
        encode_result_def grpc_get_reply_def)
qed

text \<open>
  C23: the two front ends agree. On any store, a gRPC \<open>Set\<close> or \<open>Get\<close> and the RESP command with
  the same arguments leave the same store behind and say the same thing: \<open>ok\<close> against \<open>+OK\<close>,
  a found value against that bulk string, not found against the null bulk string, and
  \<open>INVALID_ARGUMENT\<close> against the error line, with the same message.
\<close>

theorem grpc_agrees_with_resp:
  "ExecuteCommand hash clock \<lparr>cmd_name = ''SET'', cmd_args = [k, v]\<rparr> s =
     map_option (\<lambda>(status, response, s'). (grpc_set_reply status response, s'))
       (Grpc_Set hash clock k v \<lparr>sr_ok = False, sr_error = []\<rparr> s) \<and>
   ExecuteCommand hash clock \<lparr>cmd_name = ''GET'', cmd_args = [k]\<rparr> s =
     map_option (\<lambda>(status, response, s'). (grpc_get_reply status response, s'))
       (Grpc_Get hash clock k \<lparr>gr_found = False, gr_value = [], gr_error = []\<rparr> s)"
  by (intro conjI grpc_set_as_resp grpc_get_as_resp)

lemma spec_get_local:
  "m x = m' x \<Longrightarrow> fst (spec_command ''GET'' [x] m) = fst (spec_command ''GET'' [x] m')"
  by (auto simp: spec_command.simps dom_def)

lemma spec_get_found:
  "x \<noteq> [] \<Longrightarrow> m x = Some v \<Longrightarrow> encode_result (fst (spec_command ''GET'' [x] m)) = EncodeBulkString v"
  by (simp add: spec_command.simps encode_result_def dom_def)

text \<open>
  Read your writes. On the server's store a \<open>SET\<close> of a non-empty key answers \<open>+OK\<close>, a later
  \<open>GET\<close> of that key answers the value as a bulk string, and \<open>GET\<close> of any other key answers what
  it would have answered before. The names of the commands may be in any case.
\<close>

theorem set_then_get_returns_value:
  assumes s: "server_store hash s" and key: "k \<noteq> []"
    and names: "ToUpper set_name = ''SET''" "ToUpper get_name = ''GET''"
  shows "\<exists>s'. ExecuteCommand hash c1 \<lparr>cmd_name = set_name, cmd_args = [k, v]\<rparr> s = Some (''+OK'' @ CRLF, s') \<and>
    map_option fst (ExecuteCommand hash c2 \<lparr>cmd_name = get_name, cmd_args = [k]\<rparr> s') = Some (EncodeBulkString v) \<and>
    (\<forall>other. other \<noteq> k \<longrightarrow>
       map_option fst (ExecuteCommand hash c2 \<lparr>cmd_name = get_name, cmd_args = [other]\<rparr> s') =
       map_option fst (ExecuteCommand hash c2 \<lparr>cmd_name = get_name, cmd_args = [other]\<rparr> s))"
proof -
  from DispatchCommand_refines [OF s, of c1 set_name "[k, v]"] obtain s' where
    set: "DispatchCommand hash c1 set_name [k, v] s =
      Some (\<lparr>cr_status = kOk, cr_value = None, cr_message = []\<rparr>, s')" "server_store hash s'"
      "held hash s' = (held hash s)(k \<mapsto> v)"
    using key names by (auto simp: spec_command.simps)
  have get: "map_option fst (ExecuteCommand hash c2 \<lparr>cmd_name = get_name, cmd_args = [x]\<rparr> u) =
      Some (encode_result (fst (spec_command ''GET'' [x] (held hash u))))" if "server_store hash u" for x u
  proof -
    from DispatchCommand_refines [OF that, of c2 get_name "[x]"] obtain result u' where
      d: "DispatchCommand hash c2 get_name [x] u = Some (result, u')"
        "(result, held hash u') = spec_command (ToUpper get_name) [x] (held hash u)" by blast
    have "result = fst (spec_command ''GET'' [x] (held hash u))"
      using arg_cong [OF d(2), of fst] names by simp
    with d(1) show ?thesis by (simp add: ExecuteCommand_def)
  qed
  have "ExecuteCommand hash c1 \<lparr>cmd_name = set_name, cmd_args = [k, v]\<rparr> s = Some (''+OK'' @ CRLF, s')"
    using set(1) by (simp add: ExecuteCommand_def encode_result_def)
  moreover have "encode_result (fst (spec_command ''GET'' [k] (held hash s'))) = EncodeBulkString v"
    by (rule spec_get_found [OF key]) (simp add: set(3))
  moreover have "map_option fst (ExecuteCommand hash c2 \<lparr>cmd_name = get_name, cmd_args = [other]\<rparr> s') =
      map_option fst (ExecuteCommand hash c2 \<lparr>cmd_name = get_name, cmd_args = [other]\<rparr> s)"
    if "other \<noteq> k" for other
  proof -
    have "fst (spec_command ''GET'' [other] (held hash s')) = fst (spec_command ''GET'' [other] (held hash s))"
      by (rule spec_get_local) (simp add: set(3) that)
    then show ?thesis by (simp only: get [OF s] get [OF set(2)])
  qed
  ultimately show ?thesis
    by (intro exI [of _ s'] conjI allI impI) (simp_all only: get [OF set(2)])
qed

theorem set_then_get_returns_value_witness:
  "\<exists>s'. ExecuteCommand (\<lambda>_. 0) (0, 0, 0) \<lparr>cmd_name = ''set'', cmd_args = [''k'', ''v'']\<rparr> (new_store 64 0)
       = Some (''+OK'' @ CRLF, s') \<and>
     map_option fst (ExecuteCommand (\<lambda>_. 0) (5, 5, 5) \<lparr>cmd_name = ''GET'', cmd_args = [''k'']\<rparr> s')
       = Some (''$1'' @ CRLF @ ''v'' @ CRLF)"
proof -
  have up: "ToUpper ''set'' = ''SET''" "ToUpper ''GET'' = ''GET''" by code_simp+
  have enc: "EncodeBulkString ''v'' = ''$1'' @ CRLF @ ''v'' @ CRLF" by code_simp
  from set_then_get_returns_value [OF server_store_new [of "\<lambda>_. 0" 64] _ up, of "''k''" "(0, 0, 0)" "''v''" "(5, 5, 5)"]
  show ?thesis unfolding enc by blast
qed

end
