(* ===== verification/Metrics.thy ===== *)
theory Metrics
  imports Ordered_Map Number_Text
begin

text \<open>
  Metrics, \<open>src/metrics/prometheus_endpoint.{hpp,cpp}\<close>, and the HTTP answer of
  \<open>HandleMetricsClient\<close> in \<open>src/server/main.cpp\<close>.

  A metric's value is a C++ \<open>double\<close>. The type and the operations the code uses on it (the
  literals \<open>0.0\<close> and \<open>1.0\<close>, addition, stream output) are the parameter \<open>D\<close> of the definitions; what IEEE
  arithmetic guarantees on small integers is a named hypothesis where a property needs it.
\<close>

record 'd double_ops =
  d_zero :: 'd
  d_one :: 'd
  d_add :: "'d \<Rightarrow> 'd \<Rightarrow> 'd"
  d_show :: "'d \<Rightarrow> string"

section \<open>The endpoint\<close>

record 'd Metric =
  me_name :: string
  me_help :: string
  me_type :: string
  me_value :: 'd

record 'd PrometheusEndpoint =
  pe_metrics :: "(string, 'd Metric) ordered_map"

definition new_endpoint :: "'d PrometheusEndpoint" where
  "new_endpoint = \<lparr>pe_metrics = []\<rparr>"

text \<open>\<open>metrics_[name]\<close>: the metric, value-initialised when the name is new.\<close>

definition metric_at :: "'d double_ops \<Rightarrow> string \<Rightarrow> 'd PrometheusEndpoint \<Rightarrow> 'd Metric" where
  "metric_at D name e =
     (case map_of (pe_metrics e) name of
        Some metric \<Rightarrow> metric
      | None \<Rightarrow> \<lparr>me_name = [], me_help = [], me_type = [], me_value = d_zero D\<rparr>)"

definition SetGauge :: "'d double_ops \<Rightarrow> string \<Rightarrow> 'd \<Rightarrow> string
    \<Rightarrow> 'd PrometheusEndpoint \<Rightarrow> 'd PrometheusEndpoint" where
  "SetGauge D name value help e =
     (let metric = (metric_at D name e)\<lparr>me_name := name, me_type := ''gauge''\<rparr>;
          metric = (if help \<noteq> [] then metric\<lparr>me_help := help\<rparr> else metric)
      in e\<lparr>pe_metrics := omap_put name (metric\<lparr>me_value := value\<rparr>) (pe_metrics e)\<rparr>)"

definition IncrementCounter :: "'d double_ops \<Rightarrow> string \<Rightarrow> 'd \<Rightarrow> string
    \<Rightarrow> 'd PrometheusEndpoint \<Rightarrow> 'd PrometheusEndpoint" where
  "IncrementCounter D name amount help e =
     (let metric = (metric_at D name e)\<lparr>me_name := name, me_type := ''counter''\<rparr>;
          metric = (if help \<noteq> [] then metric\<lparr>me_help := help\<rparr> else metric)
      in e\<lparr>pe_metrics :=
             omap_put name (metric\<lparr>me_value := d_add D (me_value metric) amount\<rparr>) (pe_metrics e)\<rparr>)"

definition render_metric :: "'d double_ops \<Rightarrow> 'd Metric \<Rightarrow> string" where
  "render_metric D metric =
     (if me_help metric \<noteq> []
      then ''# HELP '' @ me_name metric @ '' '' @ me_help metric @ [CHR 0x0A] else []) @
     ''# TYPE '' @ me_name metric @ '' '' @ me_type metric @ [CHR 0x0A] @
     me_name metric @ '' '' @ d_show D (me_value metric) @ [CHR 0x0A]"

definition RenderPrometheusMetrics :: "'d double_ops \<Rightarrow> 'd PrometheusEndpoint \<Rightarrow> string" where
  "RenderPrometheusMetrics D e = concat (map (\<lambda>(name, metric). render_metric D metric) (pe_metrics e))"

definition http_crlf :: string where "http_crlf = [CHR 0x0D, CHR 0x0A]"

text \<open>The response \<open>HandleMetricsClient\<close> sends, whatever the request was.\<close>

definition metrics_response :: "'d double_ops \<Rightarrow> 'd PrometheusEndpoint \<Rightarrow> string" where
  "metrics_response D e =
     (let body = RenderPrometheusMetrics D e
      in ''HTTP/1.1 200 OK'' @ http_crlf @ ''Content-Type: text/plain; version=0.0.4'' @ http_crlf @
         ''Content-Length: '' @ to_string (int (length body)) @ http_crlf @ http_crlf @ body)"

section \<open>Invariant\<close>

definition metrics_inv :: "'d PrometheusEndpoint \<Rightarrow> bool" where
  "metrics_inv e \<longleftrightarrow> omap_inv (pe_metrics e) \<and>
     (\<forall>name metric. map_of (pe_metrics e) name = Some metric \<longrightarrow>
        me_name metric = name \<and> me_type metric \<in> {''gauge'', ''counter''})"

lemma metrics_inv_new [inv_pres]: "metrics_inv new_endpoint"
  by (simp add: metrics_inv_def new_endpoint_def)

lemma metrics_inv_SetGauge [inv_pres]: "metrics_inv e \<Longrightarrow> metrics_inv (SetGauge D name v help e)"
  by (auto simp: metrics_inv_def SetGauge_def Let_def inv_pres map_of_omap_put)

lemma metrics_inv_IncrementCounter [inv_pres]:
  "metrics_inv e \<Longrightarrow> metrics_inv (IncrementCounter D name v help e)"
  by (auto simp: metrics_inv_def IncrementCounter_def Let_def inv_pres map_of_omap_put)

section \<open>Histories of updates\<close>

datatype 'd metric_op = Gauge string 'd string | Count string 'd string

fun run_metric_op :: "'d double_ops \<Rightarrow> 'd metric_op \<Rightarrow> 'd PrometheusEndpoint \<Rightarrow> 'd PrometheusEndpoint" where
  "run_metric_op D (Gauge name v help) e = SetGauge D name v help e"
| "run_metric_op D (Count name v help) e = IncrementCounter D name v help e"

definition run_metric_ops :: "'d double_ops \<Rightarrow> 'd metric_op list \<Rightarrow> 'd PrometheusEndpoint" where
  "run_metric_ops D ops = fold (run_metric_op D) ops new_endpoint"

fun op_name :: "'d metric_op \<Rightarrow> string" where
  "op_name (Gauge name v help) = name"
| "op_name (Count name v help) = name"

text \<open>The reference: the value of one metric, from the operations on that metric alone.\<close>

fun metric_value :: "'d double_ops \<Rightarrow> string \<Rightarrow> 'd metric_op list \<Rightarrow> 'd \<Rightarrow> 'd" where
  "metric_value D name [] x = x"
| "metric_value D name (Gauge n v help # ops) x = metric_value D name ops (if n = name then v else x)"
| "metric_value D name (Count n v help # ops) x = metric_value D name ops (if n = name then d_add D x v else x)"

lemma metrics_inv_run: "metrics_inv e \<Longrightarrow> metrics_inv (fold (run_metric_op D) ops e)"
proof (induction ops arbitrary: e)
  case (Cons op ops)
  then show ?case by (cases op) (simp_all add: inv_pres)
qed simp

lemma metric_at_SetGauge:
  "metrics_inv e \<Longrightarrow> me_value (metric_at D m (SetGauge D name v help e)) =
     (if m = name then v else me_value (metric_at D m e))"
  by (auto simp: metric_at_def SetGauge_def Let_def metrics_inv_def map_of_omap_put split: option.split)

lemma metric_at_IncrementCounter:
  "metrics_inv e \<Longrightarrow> me_value (metric_at D m (IncrementCounter D name v help e)) =
     (if m = name then d_add D (me_value (metric_at D m e)) v else me_value (metric_at D m e))"
  by (auto simp: metric_at_def IncrementCounter_def Let_def metrics_inv_def map_of_omap_put split: option.split)

lemma metric_at_run:
  "metrics_inv e \<Longrightarrow> me_value (metric_at D name (fold (run_metric_op D) ops e)) =
     metric_value D name ops (me_value (metric_at D name e))"
proof (induction ops arbitrary: e)
  case (Cons op ops)
  then show ?case
    by (cases op) (simp_all add: inv_pres metric_at_SetGauge metric_at_IncrementCounter)
qed simp

lemma dom_run:
  "metrics_inv e \<Longrightarrow> dom (map_of (pe_metrics (fold (run_metric_op D) ops e))) =
     dom (map_of (pe_metrics e)) \<union> op_name ` set ops"
proof (induction ops arbitrary: e)
  case (Cons op ops)
  have "dom (map_of (pe_metrics (run_metric_op D op e))) = insert (op_name op) (dom (map_of (pe_metrics e)))"
    using Cons.prems by (cases op)
      (auto simp: SetGauge_def IncrementCounter_def Let_def map_of_omap_put metrics_inv_def)
  moreover have "metrics_inv (run_metric_op D op e)"
    using Cons.prems by (cases op) (simp_all add: inv_pres)
  ultimately show ?case using Cons.IH by auto
qed simp

section \<open>Properties\<close>

text \<open>
  The endpoint reports every update. After any sequence of gauge and counter calls the table
  holds exactly the metrics that were named, sorted by name, each under its own name with type
  gauge or counter, and the value of each is what the calls on that metric alone produce:
  updates of different metrics do not interfere.
\<close>

theorem metrics_report_every_update:
  "metrics_inv (run_metric_ops D ops) \<and>
   dom (map_of (pe_metrics (run_metric_ops D ops))) = op_name ` set ops \<and>
   me_value (metric_at D name (run_metric_ops D ops)) = metric_value D name ops (d_zero D)"
proof -
  have "metric_at D name new_endpoint = \<lparr>me_name = [], me_help = [], me_type = [], me_value = d_zero D\<rparr>"
    by (simp add: metric_at_def new_endpoint_def)
  then show ?thesis
    using metrics_inv_run [OF metrics_inv_new, of D ops] metric_at_run [OF metrics_inv_new, of D name ops]
      dom_run [OF metrics_inv_new, of D ops]
    by (simp add: run_metric_ops_def) (simp add: new_endpoint_def)
qed

text \<open>
  The doubles represent the integers up to \<open>2\<^sup>5\<^sup>3\<close>, and adding one to a smaller one of them is
  exact (IEEE 754 binary64).
\<close>

definition counts_exactly :: "'d double_ops \<Rightarrow> (nat \<Rightarrow> 'd) \<Rightarrow> bool" where
  "counts_exactly D dbl \<longleftrightarrow> d_zero D = dbl 0 \<and> d_one D = dbl 1 \<and>
     (\<forall>n < 9007199254740992. d_add D (dbl n) (dbl 1) = dbl (Suc n))"

fun counts_one :: "(nat \<Rightarrow> 'd) \<Rightarrow> string \<Rightarrow> 'd metric_op \<Rightarrow> bool" where
  "counts_one dbl name (Count n v help) = (n = name \<longrightarrow> v = dbl 1)"
| "counts_one dbl name (Gauge n v help) = (n \<noteq> name)"

lemma metric_value_counts:
  assumes "counts_exactly D dbl"
  shows "list_all (counts_one dbl name) ops \<Longrightarrow>
   k + length (filter (\<lambda>op. op_name op = name) ops) \<le> 9007199254740992 \<Longrightarrow>
   metric_value D name ops (dbl k) = dbl (k + length (filter (\<lambda>op. op_name op = name) ops))"
proof (induction ops arbitrary: k)
  case (Cons op ops)
  then show ?case
    using assms Cons.IH [of "Suc k"] Cons.IH [of k]
    by (cases op) (auto simp: counts_exactly_def)
qed simp

text \<open>
  A counter counts. If a metric is only ever incremented by one, as the server does for every
  RESP request and every scrape, its value is the number of increments, up to \<open>2\<^sup>5\<^sup>3\<close>, whatever
  other metrics are updated in between.
\<close>

theorem counter_counts_increments:
  assumes "counts_exactly D dbl" and "list_all (counts_one dbl name) ops"
    and "length (filter (\<lambda>op. op_name op = name) ops) \<le> 9007199254740992"
  shows "me_value (metric_at D name (run_metric_ops D ops)) =
    dbl (length (filter (\<lambda>op. op_name op = name) ops))"
proof -
  have "metric_at D name new_endpoint = \<lparr>me_name = [], me_help = [], me_type = [], me_value = dbl 0\<rparr>"
    using assms(1) by (simp add: metric_at_def new_endpoint_def counts_exactly_def)
  then show ?thesis
    using metric_at_run [OF metrics_inv_new, of D name ops] metric_value_counts [OF assms(1,2), of 0] assms(3)
    by (simp add: run_metric_ops_def)
qed

text \<open>Integers that stop at \<open>2\<^sup>5\<^sup>3\<close>, as rounding to even makes doubles do when one is added.\<close>

definition saturating :: "int double_ops" where
  "saturating = \<lparr>d_zero = 0, d_one = 1, d_add = (\<lambda>a b. min 9007199254740992 (a + b)), d_show = to_string\<rparr>"

theorem counter_counts_increments_witness:
  "me_value (metric_at saturating ''n'' (run_metric_ops saturating
     [Count ''n'' 1 ''h'', Gauge ''g'' 7 [], Count ''n'' 1 []])) = 2"
proof -
  let ?ops = "[Count ''n'' 1 ''h'', Gauge ''g'' 7 [], Count ''n'' 1 []] :: int metric_op list"
  have "counts_exactly saturating int" by (auto simp: counts_exactly_def saturating_def)
  moreover have "list_all (counts_one int ''n'') ?ops" by simp
  moreover have "length (filter (\<lambda>op. op_name op = ''n'') ?ops) \<le> 9007199254740992" by simp
  ultimately have "me_value (metric_at saturating ''n'' (run_metric_ops saturating ?ops)) =
      int (length (filter (\<lambda>op. op_name op = ''n'') ?ops))" by (rule counter_counts_increments)
  then show ?thesis by simp
qed

end
