(* ===== verification/Resp_Session.thy ===== *)
theory Resp_Session
  imports Command_Dispatcher Metrics
begin

text \<open>
  A RESP connection, \<open>SendAll\<close> and \<open>HandleRespClient\<close> of \<open>src/server/main.cpp\<close>: the loop that
  receives bytes, executes the complete requests in its buffer and sends the replies. The
  answers of the operating system are the input of the model: what each \<open>recv\<close> returned, how
  each \<open>send\<close> went, what each load of the stop flag saw, and the clock readings.
\<close>

section \<open>Sending\<close>

datatype send_outcome = Sent nat | SendEINTR | SendError

text \<open>
  \<open>SendAll\<close>: whether everything was sent, and the bytes that went out. \<^const>\<open>None\<close>: the
  outcomes are used up and the call has not returned.
\<close>

fun SendAll :: "send_outcome list \<Rightarrow> string \<Rightarrow> (bool \<times> string) option" where
  "SendAll outcomes [] = Some (True, [])"
| "SendAll [] (c # cs) = None"
| "SendAll (Sent n # outcomes) (c # cs) =
     map_option (\<lambda>(ok, wire). (ok, take n (c # cs) @ wire)) (SendAll outcomes (drop n (c # cs)))"
| "SendAll (SendEINTR # outcomes) (c # cs) = SendAll outcomes (c # cs)"
| "SendAll (SendError # outcomes) (c # cs) = Some (False, [])"

lemma SendAll_wire:
  "SendAll outcomes payload = Some (ok, wire) \<Longrightarrow> \<exists>rest. payload = wire @ rest \<and> (ok \<longrightarrow> rest = [])"
proof (induction outcomes payload arbitrary: wire rule: SendAll.induct)
  case (3 n outcomes c cs)
  then obtain w where w: "SendAll outcomes (drop n (c # cs)) = Some (ok, w)"
    "wire = take n (c # cs) @ w" by auto
  from 3(1) [OF w(1)] obtain rest where "drop n (c # cs) = w @ rest" "ok \<longrightarrow> rest = []" by blast
  with w(2) show ?case by (metis append.assoc append_take_drop_id)
qed auto

lemma SendAll_complete: "SendAll outcomes payload = Some (True, wire) \<Longrightarrow> wire = payload"
  using SendAll_wire by fastforce

section \<open>The connection handler\<close>

datatype recv_outcome =
    RecvData string time_point
  | RecvEOF
  | RecvEINTR
  | RecvAgain time_point
  | RecvError

text \<open>The world outside one connection: the k-th load of the stop flag, the clock of the k-th
  command, the outcomes of the k-th \<open>SendAll\<close> on its payload.\<close>

record world =
  w_stop :: "nat \<Rightarrow> bool"
  w_clock :: "nat \<Rightarrow> clock"
  w_sends :: "nat \<Rightarrow> string \<Rightarrow> send_outcome list"

record 'd session =
  ss_buffer :: string
  ss_last_activity :: time_point
  ss_store :: ConcurrentStore
  ss_metrics :: "'d PrometheusEndpoint"
  ss_wire :: string
  ss_loads :: nat
  ss_commands :: nat
  ss_sends :: nat

datatype session_exit =
  Stopped | PeerClosed | IdleTimeout | RecvFailed | SendFailed | FrameTooLarge | Waiting

definition kMaxRespFrameBytes :: int where
  "kMaxRespFrameBytes = 1024 * 1024"

text \<open>The inner loop. The flag is false when the handler returns because a reply was not sent.\<close>

function drain :: "hasher \<Rightarrow> 'd double_ops \<Rightarrow> world \<Rightarrow> 'd session \<Rightarrow> (bool \<times> 'd session) option" where
  "drain hash D W ss =
     (let stop = w_stop W (ss_loads ss);
          ss = ss\<lparr>ss_loads := ss_loads ss + 1\<rparr>;
          parsed = ParseRESP (ss_buffer ss)
      in if stop then Some (True, ss)
         else if cmd_name (res_command parsed) = [] \<or> bytes_consumed parsed = 0 then Some (True, ss)
         else case ExecuteCommand hash (w_clock W (ss_commands ss)) (res_command parsed) (ss_store ss) of
                None \<Rightarrow> None
              | Some (response, store) \<Rightarrow>
                  case SendAll (w_sends W (ss_sends ss) response) response of
                    None \<Rightarrow> None
                  | Some (ok, sent) \<Rightarrow>
                      (let ss = ss\<lparr>ss_store := store, ss_commands := ss_commands ss + 1,
                                 ss_metrics := IncrementCounter D ''cache_resp_requests_total'' (d_one D)
                                   ''Total RESP requests'' (ss_metrics ss),
                                 ss_sends := ss_sends ss + 1, ss_wire := ss_wire ss @ sent\<rparr>
                       in if \<not> ok then Some (False, ss)
                          else
                            let ss = ss\<lparr>ss_buffer := drop (bytes_consumed parsed) (ss_buffer ss)\<rparr>
                            in if ss_buffer ss = [] then Some (True, ss) else drain hash D W ss))"
  by pat_completeness auto
termination
proof (relation "measure (\<lambda>(hash, D, W, ss). length (ss_buffer ss))", goal_cases)
  case 1
  then show ?case by simp
next
  case (2 hash D W ss)
  then show ?case using ParseRESP_bounds [of "ss_buffer ss"] by auto
qed

declare drain.simps [simp del]

definition frame_error :: string where
  "frame_error = ''-ERR invalid command'' @ CRLF"

fun handle_loop :: "hasher \<Rightarrow> 'd double_ops \<Rightarrow> world \<Rightarrow> time_point \<Rightarrow> recv_outcome list \<Rightarrow> 'd session
    \<Rightarrow> (session_exit \<times> 'd session) option" where
  "handle_loop hash D W idle_timeout recvs ss =
     (let stop = w_stop W (ss_loads ss);
          ss = ss\<lparr>ss_loads := ss_loads ss + 1\<rparr>
      in if stop then Some (Stopped, ss)
         else case recvs of
           [] \<Rightarrow> Some (Waiting, ss)
         | RecvEOF # _ \<Rightarrow> Some (PeerClosed, ss)
         | RecvEINTR # recvs' \<Rightarrow> handle_loop hash D W idle_timeout recvs' ss
         | RecvAgain now # recvs' \<Rightarrow>
             if now - ss_last_activity ss > idle_timeout then Some (IdleTimeout, ss)
             else handle_loop hash D W idle_timeout recvs' ss
         | RecvError # _ \<Rightarrow> Some (RecvFailed, ss)
         | RecvData chunk now # recvs' \<Rightarrow>
             case drain hash D W (ss\<lparr>ss_last_activity := now, ss_buffer := ss_buffer ss @ chunk\<rparr>) of
               None \<Rightarrow> None
             | Some (True, ss) \<Rightarrow>
                 if int (length (ss_buffer ss)) > kMaxRespFrameBytes then
                   (case SendAll (w_sends W (ss_sends ss) frame_error) frame_error of
                      None \<Rightarrow> None
                    | Some (_, sent) \<Rightarrow>
                        Some (FrameTooLarge, ss\<lparr>ss_sends := ss_sends ss + 1, ss_wire := ss_wire ss @ sent\<rparr>))
                 else handle_loop hash D W idle_timeout recvs' ss
             | Some (False, ss) \<Rightarrow> Some (SendFailed, ss))"

declare handle_loop.simps [simp del]

definition HandleRespClient :: "hasher \<Rightarrow> 'd double_ops \<Rightarrow> world \<Rightarrow> time_point \<Rightarrow> time_point \<Rightarrow> recv_outcome list
    \<Rightarrow> ConcurrentStore \<Rightarrow> 'd PrometheusEndpoint \<Rightarrow> (session_exit \<times> 'd session) option" where
  "HandleRespClient hash D W idle_timeout now recvs store metrics =
     handle_loop hash D W idle_timeout recvs
       \<lparr>ss_buffer = [], ss_last_activity = now, ss_store = store, ss_metrics = metrics,
        ss_wire = [], ss_loads = 0, ss_commands = 0, ss_sends = 0\<rparr>"

section \<open>Streams of requests\<close>

text \<open>
  A request the parser accepts as a command: within its limits and with a command name; and one
  the connection accepts however it is cut: small enough that any proper part of it fits the
  frame limit.
\<close>

definition request_valid :: "string list \<Rightarrow> bool" where
  "request_valid parts \<longleftrightarrow> parts \<noteq> [] \<and> hd parts \<noteq> [] \<and> int (length parts) \<le> kMaxArrayElements \<and>
     list_all (\<lambda>part. int (length part) \<le> kMaxBulkLength) parts"

definition request_ok :: "string list \<Rightarrow> bool" where
  "request_ok parts \<longleftrightarrow> request_valid parts \<and> int (length (encode_request parts)) \<le> kMaxRespFrameBytes + 1"

definition command_of :: "string list \<Rightarrow> RESPCommand" where
  "command_of parts = \<lparr>cmd_name = hd parts, cmd_args = tl parts\<rparr>"

abbreviation stream_of :: "string list list \<Rightarrow> string" where
  "stream_of reqs \<equiv> concat (map encode_request reqs)"

text \<open>The beginning of a request that is not complete, possibly empty.\<close>

definition partial_request :: "string \<Rightarrow> bool" where
  "partial_request tail \<longleftrightarrow> (\<exists>parts m. request_ok parts \<and> m < length (encode_request parts) \<and>
     tail = take m (encode_request parts))"

lemma ParseRESP_request:
  "request_valid parts \<Longrightarrow> ParseRESP (encode_request parts @ rest) =
     \<lparr>res_command = command_of parts, bytes_consumed = length (encode_request parts)\<rparr>"
  unfolding command_of_def by (rule ParseRESP_encoded) (auto simp: request_valid_def list_all_iff)

lemma ParseRESP_partial: "partial_request tail \<Longrightarrow> ParseRESP tail = no_result"
proof -
  assume "partial_request tail"
  then obtain parts m where "request_ok parts" "m < length (encode_request parts)"
    "tail = take m (encode_request parts)" by (auto simp: partial_request_def)
  then show ?thesis
    using ParseRESP_request [of parts "[]"] ParseRESP_prefix [of m "encode_request parts"]
    by (simp add: request_ok_def)
qed

lemma partial_length: "partial_request tail \<Longrightarrow> int (length tail) \<le> kMaxRespFrameBytes"
  by (auto simp: partial_request_def request_ok_def)

lemma length_encode_request: "0 < length (encode_request parts)"
  by (simp add: encode_request_def)

lemma partial_request_Nil: "partial_request []"
proof -
  have "request_ok [''GET'']" by code_simp
  then show ?thesis using length_encode_request by (force simp: partial_request_def)
qed

text \<open>Cutting a stream anywhere leaves complete requests followed by a partial one.\<close>

lemma stream_cut:
  "list_all request_ok reqs \<Longrightarrow> partial_request tail \<Longrightarrow> buffer @ later = stream_of reqs @ tail \<Longrightarrow>
   \<exists>done todo part. reqs = done @ todo \<and> buffer = stream_of done @ part \<and> partial_request part \<and>
     part @ later = stream_of todo @ tail"
proof (induction reqs arbitrary: buffer)
  case Nil
  then have tail: "tail = buffer @ later" by simp
  from Nil(2) obtain parts m where "request_ok parts" "m < length (encode_request parts)"
    "tail = take m (encode_request parts)" by (auto simp: partial_request_def)
  moreover from this have "length buffer \<le> m"
    using arg_cong [OF tail, of length] by simp
  moreover from calculation have "buffer = take (length buffer) (encode_request parts)"
    using tail by (metis append_eq_conv_conj min.absorb1 take_take)
  ultimately have "partial_request buffer"
    by (auto simp: partial_request_def intro!: exI [of _ parts] exI [of _ "length buffer"])
  with Nil(3) show ?case by (intro exI [of _ "[]"] exI [of _ buffer]) auto
next
  case (Cons r reqs)
  show ?case
  proof (cases "length buffer < length (encode_request r)")
    case True
    have "buffer = take (length buffer) (encode_request r)"
      using arg_cong [OF Cons.prems(3), of "take (length buffer)"] True by simp
    with True Cons.prems(1) have "partial_request buffer" by (auto simp: partial_request_def)
    with Cons.prems(3) show ?thesis
      by - (rule exI [of _ "[]"], rule exI [of _ "r # reqs"], rule exI [of _ buffer], simp)
  next
    case False
    then have "take (length (encode_request r)) buffer = encode_request r"
      using arg_cong [OF Cons.prems(3), of "take (length (encode_request r))"] by simp
    then obtain b where b: "buffer = encode_request r @ b" by (metis append_take_drop_id)
    have eq: "b @ later = stream_of reqs @ tail" using Cons.prems(3) by (simp add: b)
    from Cons.IH [OF _ Cons.prems(2) eq] Cons.prems(1) obtain d todo part where
      "reqs = d @ todo" "b = stream_of d @ part" "partial_request part" "part @ later = stream_of todo @ tail"
      by auto
    then show ?thesis by (intro exI [of _ "r # d"] exI [of _ todo] exI [of _ part]) (simp add: b)
  qed
qed

section \<open>Connections without faults\<close>

text \<open>The server is not stopped and every reply can be sent.\<close>

definition calm :: "world \<Rightarrow> bool" where
  "calm W \<longleftrightarrow> (\<forall>n. \<not> w_stop W n) \<and> (\<forall>n payload. \<exists>wire. SendAll (w_sends W n payload) payload = Some (True, wire))"

lemma calm_sends: "calm W \<Longrightarrow> SendAll (w_sends W n payload) payload = Some (True, payload)"
  using SendAll_complete by (metis calm_def)

text \<open>What the abstract service answers to a list of requests.\<close>

fun spec_replies :: "string list list \<Rightarrow> (string \<rightharpoonup> string) \<Rightarrow> string \<times> (string \<rightharpoonup> string)" where
  "spec_replies [] m = ([], m)"
| "spec_replies (parts # reqs) m =
     (let (result, m') = spec_command (ToUpper (hd parts)) (tl parts) m;
          (replies, m'') = spec_replies reqs m'
      in (encode_result result @ replies, m''))"

lemma spec_replies_append:
  "spec_replies (xs @ ys) m =
     (let (r1, m1) = spec_replies xs m; (r2, m2) = spec_replies ys m1 in (r1 @ r2, m2))"
  by (induction xs arbitrary: m) (auto simp: Let_def case_prod_unfold)

lemma ExecuteCommand_spec:
  assumes "server_store hash s"
  obtains s' where "ExecuteCommand hash clock (command_of parts) s =
      Some (encode_result (fst (spec_command (ToUpper (hd parts)) (tl parts) (held hash s))), s')"
    "server_store hash s'" "held hash s' = snd (spec_command (ToUpper (hd parts)) (tl parts) (held hash s))"
proof -
  from DispatchCommand_refines [OF assms, of clock "hd parts" "tl parts"] obtain result s' where
    d: "DispatchCommand hash clock (hd parts) (tl parts) s = Some (result, s')" "server_store hash s'"
      "spec_command (ToUpper (hd parts)) (tl parts) (held hash s) = (result, held hash s')" by auto
  show thesis by (rule that [OF _ d(2)]) (simp_all add: ExecuteCommand_def command_of_def d)
qed

text \<open>What a run of the inner loop does to the session: \<open>n\<close> requests are answered.\<close>

definition advanced :: "hasher \<Rightarrow> string list list \<Rightarrow> string \<Rightarrow> 'd session \<Rightarrow> 'd session \<Rightarrow> bool" where
  "advanced hash reqs tail ss ss' \<longleftrightarrow>
     server_store hash (ss_store ss') \<and> ss_buffer ss' = tail \<and>
     ss_wire ss' = ss_wire ss @ fst (spec_replies reqs (held hash (ss_store ss))) \<and>
     held hash (ss_store ss') = snd (spec_replies reqs (held hash (ss_store ss))) \<and>
     ss_commands ss' = ss_commands ss + length reqs"

lemma drain_requests:
  assumes "calm W" "ParseRESP tail = no_result"
  shows "list_all request_valid reqs \<Longrightarrow> server_store hash (ss_store ss) \<Longrightarrow>
    ss_buffer ss = stream_of reqs @ tail \<Longrightarrow>
    \<exists>ss'. drain hash D W ss = Some (True, ss') \<and> advanced hash reqs tail ss ss'"
proof (induction reqs arbitrary: ss)
  case Nil
  then show ?case
    using assms
    by (subst drain.simps) (simp add: calm_def no_result_def no_command_def advanced_def)
next
  case (Cons r reqs)
  have r: "request_valid r" and reqs: "list_all request_valid reqs" using Cons.prems(1) by auto
  note parse = ParseRESP_request [OF r, of "stream_of reqs @ tail"]
  let ?spec = "spec_command (ToUpper (hd r)) (tl r) (held hash (ss_store ss))"
  obtain s' where s': "ExecuteCommand hash (w_clock W (ss_commands ss)) (command_of r) (ss_store ss) =
      Some (encode_result (fst ?spec), s')" "server_store hash s'" "held hash s' = snd ?spec"
    using ExecuteCommand_spec [OF Cons.prems(2), where parts = r and clock = "w_clock W (ss_commands ss)"] by metis
  define ss1 where "ss1 = ss\<lparr>ss_loads := ss_loads ss + 1, ss_store := s', ss_commands := ss_commands ss + 1,
      ss_metrics := IncrementCounter D ''cache_resp_requests_total'' (d_one D) ''Total RESP requests'' (ss_metrics ss),
      ss_sends := ss_sends ss + 1, ss_wire := ss_wire ss @ encode_result (fst ?spec),
      ss_buffer := stream_of reqs @ tail\<rparr>"
  have step: "drain hash D W ss = (if stream_of reqs @ tail = [] then Some (True, ss1) else drain hash D W ss1)"
    using assms(1) Cons.prems(3) parse s'(1) r length_encode_request [of r] calm_sends [OF assms(1)]
    by (subst drain.simps) (simp add: calm_def ss1_def Let_def command_of_def request_valid_def)
  have adv: "advanced hash (r # reqs) tail ss ss'" if "advanced hash reqs tail ss1 ss'" for ss'
    using that s'(3) by (simp add: advanced_def ss1_def Let_def case_prod_unfold)
  show ?case
  proof (cases "stream_of reqs @ tail = []")
    case True
    then have "reqs = []" using length_encode_request by (cases reqs) auto
    with True step s'(2) show ?thesis by (intro exI [of _ ss1] conjI adv) (auto simp: advanced_def ss1_def)
  next
    case False
    from Cons.IH [OF reqs, of ss1] s'(2) obtain ss' where
      "drain hash D W ss1 = Some (True, ss')" "advanced hash reqs tail ss1 ss'"
      by (auto simp: ss1_def)
    with False step adv show ?thesis by auto
  qed
qed

lemma handle_stream:
  assumes W: "calm W" and tail: "partial_request tail"
  shows "list_all request_ok reqs \<Longrightarrow> server_store hash (ss_store ss) \<Longrightarrow> partial_request (ss_buffer ss) \<Longrightarrow>
    ss_buffer ss @ concat (map fst chunks) = stream_of reqs @ tail \<Longrightarrow>
    \<exists>ss'. handle_loop hash D W idle (map (\<lambda>(chunk, now). RecvData chunk now) chunks) ss = Some (Waiting, ss') \<and>
      advanced hash reqs tail ss ss'"
proof (induction chunks arbitrary: reqs ss)
  case Nil
  from stream_cut [OF Nil.prems(1) tail, of "ss_buffer ss @ []" "[]"] Nil.prems(4)
  have eq: "ss_buffer ss = stream_of reqs @ tail" by simp
  have "reqs = []"
  proof (rule ccontr)
    assume "reqs \<noteq> []"
    then obtain r rs where r: "reqs = r # rs" by (cases reqs) auto
    have "0 < bytes_consumed (ParseRESP (ss_buffer ss))"
      using ParseRESP_request [of r "stream_of rs @ tail"] Nil.prems(1) length_encode_request [of r]
      by (simp add: eq r request_ok_def)
    with ParseRESP_partial [OF Nil.prems(3)] show False by (simp add: no_result_def)
  qed
  with eq Nil.prems(2) W show ?case
    by (subst handle_loop.simps) (simp add: calm_def advanced_def)
next
  case (Cons c chunks)
  obtain chunk now where c: "c = (chunk, now)" by (cases c)
  let ?ss = "ss\<lparr>ss_loads := ss_loads ss + 1, ss_last_activity := now, ss_buffer := ss_buffer ss @ chunk\<rparr>"
  have "(ss_buffer ss @ chunk) @ concat (map fst chunks) = stream_of reqs @ tail"
    using Cons.prems(4) by (simp add: c)
  from stream_cut [OF Cons.prems(1) tail this] obtain d todo part where cut: "reqs = d @ todo"
    "ss_buffer ss @ chunk = stream_of d @ part" "partial_request part"
    "part @ concat (map fst chunks) = stream_of todo @ tail" by blast
  have "\<exists>ss'. drain hash D W ?ss = Some (True, ss') \<and> advanced hash d part ?ss ss'"
    by (rule drain_requests [OF W ParseRESP_partial [OF cut(3)]])
       (use Cons.prems(1,2) cut(1,2) in \<open>auto simp: list_all_iff request_ok_def\<close>)
  then obtain ss1 where ss1: "drain hash D W ?ss = Some (True, ss1)" "advanced hash d part ?ss ss1" by blast
  have small: "\<not> int (length (ss_buffer ss1)) > kMaxRespFrameBytes"
    using ss1(2) partial_length [OF cut(3)] by (simp add: advanced_def)
  have "\<exists>ss'. handle_loop hash D W idle (map (\<lambda>(chunk, now). RecvData chunk now) chunks) ss1 = Some (Waiting, ss') \<and>
      advanced hash todo tail ss1 ss'"
    using Cons.IH [of todo ss1] Cons.prems(1) cut ss1(2) by (simp add: advanced_def)
  then obtain ss2 where ss2: "handle_loop hash D W idle (map (\<lambda>(chunk, now). RecvData chunk now) chunks) ss1 =
      Some (Waiting, ss2)" "advanced hash todo tail ss1 ss2" by blast
  have "advanced hash reqs tail ss ss2"
    using ss1(2) ss2(2) by (simp add: advanced_def cut(1) spec_replies_append Let_def case_prod_unfold)
  moreover have "handle_loop hash D W idle (map (\<lambda>(chunk, now). RecvData chunk now) (c # chunks)) ss = Some (Waiting, ss2)"
    using W ss1(1) ss2(1) small by (subst handle_loop.simps) (simp add: calm_def c)
  ultimately show ?case by blast
qed

section \<open>Properties\<close>

text \<open>
  C2: a connection answers its requests in order, whatever way the network cuts the stream.
  Given a stream of acceptable requests followed by the beginning of another one, delivered in
  chunks of any sizes, and no fault of the connection, the bytes sent back are the replies of
  the abstract map to these requests one after the other, the store represents the map after
  them, and the incomplete rest waits in the buffer.
\<close>

theorem session_answers_stream:
  assumes "calm W" and "server_store hash store" and "list_all request_ok reqs" and "partial_request tail"
    and "concat (map fst chunks) = stream_of reqs @ tail"
  shows "\<exists>ss. HandleRespClient hash D W idle now (map (\<lambda>(chunk, now). RecvData chunk now) chunks) store metrics
       = Some (Waiting, ss) \<and>
     (ss_wire ss, held hash (ss_store ss)) = spec_replies reqs (held hash store) \<and> ss_buffer ss = tail"
  using handle_stream [OF assms(1,4,3), of hash
      "\<lparr>ss_buffer = [], ss_last_activity = now, ss_store = store, ss_metrics = metrics,
        ss_wire = [], ss_loads = 0, ss_commands = 0, ss_sends = 0\<rparr>" chunks D idle] assms(2,5) partial_request_Nil
  by (auto simp: HandleRespClient_def advanced_def)

text \<open>A world without faults in which every \<open>send\<close> takes one byte.\<close>

definition slow_world :: world where
  "slow_world = \<lparr>w_stop = (\<lambda>_. False), w_clock = (\<lambda>n. (int n, int n, int n)),
     w_sends = (\<lambda>_ payload. map (\<lambda>_. Sent 1) payload)\<rparr>"

lemma SendAll_slow: "SendAll (map (\<lambda>_. Sent 1) payload) payload = Some (True, payload)"
  by (induction payload) auto

lemma calm_slow: "calm slow_world"
  using SendAll_slow by (auto simp: calm_def slow_world_def)

definition two_requests :: "string list list" where
  "two_requests = [[''SET'', ''k'', ''v''], [''get'', ''k'']]"

lemma two_requests_ok: "list_all request_ok two_requests"
  by code_simp

theorem session_answers_stream_witness:
  "\<exists>ss. HandleRespClient (\<lambda>_. 0) saturating slow_world 30000000000 0
       (map (\<lambda>(chunk, now). RecvData chunk now) (map (\<lambda>c. ([c], 1)) (stream_of two_requests)))
       (new_store 64 0) new_endpoint = Some (Waiting, ss) \<and>
     ss_wire ss = ''+OK'' @ CRLF @ ''$1'' @ CRLF @ ''v'' @ CRLF"
proof -
  have "concat (map fst (map (\<lambda>c. ([c], 1 :: time_point)) (stream_of two_requests))) = stream_of two_requests @ []"
    by (simp add: comp_def)
  from session_answers_stream [OF calm_slow server_store_new two_requests_ok partial_request_Nil this]
  obtain ss where "HandleRespClient (\<lambda>_. 0) saturating slow_world 30000000000 0
       (map (\<lambda>(chunk, now). RecvData chunk now) (map (\<lambda>c. ([c], 1)) (stream_of two_requests)))
       (new_store 64 0) new_endpoint = Some (Waiting, ss)"
    and spec: "(ss_wire ss, held (\<lambda>_. 0) (ss_store ss)) = spec_replies two_requests (held (\<lambda>_. 0) (new_store 64 0))"
    by blast
  moreover have "fst (spec_replies two_requests Map.empty) = ''+OK'' @ CRLF @ ''$1'' @ CRLF @ ''v'' @ CRLF"
    by code_simp
  then have "ss_wire ss = ''+OK'' @ CRLF @ ''$1'' @ CRLF @ ''v'' @ CRLF"
    using arg_cong [OF spec, of fst] by simp
  ultimately show ?thesis by blast
qed

end
