(* ===== verification/Session_Limits.thy ===== *)
theory Session_Limits
  imports Resp_Session
begin

text \<open>
  The frame limit of a RESP connection. The handler of \<open>src/server/main.cpp\<close> checks it after the
  complete requests of the buffer were executed, and only then; this theory shows what that
  means for requests around the limit and for input that is not a request.
\<close>

section \<open>Chunks that complete no request\<close>

definition data :: "(string \<times> time_point) list \<Rightarrow> recv_outcome list" where
  "data chunks = map (\<lambda>(chunk, now). RecvData chunk now) chunks"

text \<open>Sessions that differ only in what they have buffered and in their bookkeeping.\<close>

definition silent :: "'d session \<Rightarrow> 'd session \<Rightarrow> bool" where
  "silent ss ss' \<longleftrightarrow> ss_store ss' = ss_store ss \<and> ss_metrics ss' = ss_metrics ss \<and>
     ss_wire ss' = ss_wire ss \<and> ss_commands ss' = ss_commands ss \<and> ss_sends ss' = ss_sends ss"

definition inert :: "string \<Rightarrow> bool" where
  "inert buffer \<longleftrightarrow> cmd_name (res_command (ParseRESP buffer)) = [] \<or> bytes_consumed (ParseRESP buffer) = 0"

lemma drain_inert:
  "calm W \<Longrightarrow> inert (ss_buffer ss) \<Longrightarrow> drain hash D W ss = Some (True, ss\<lparr>ss_loads := ss_loads ss + 1\<rparr>)"
  by (subst drain.simps) (auto simp: calm_def inert_def Let_def)

lemma handle_inert_chunk:
  assumes "calm W" "inert (ss_buffer ss @ chunk)"
  shows "\<exists>ss'. silent ss ss' \<and> ss_buffer ss' = ss_buffer ss @ chunk \<and>
    handle_loop hash D W idle (RecvData chunk now # recvs) ss =
      (if int (length (ss_buffer ss @ chunk)) > kMaxRespFrameBytes
       then Some (FrameTooLarge, ss'\<lparr>ss_sends := ss_sends ss' + 1, ss_wire := ss_wire ss' @ frame_error\<rparr>)
       else handle_loop hash D W idle recvs ss')"
proof -
  let ?ss = "ss\<lparr>ss_loads := ss_loads ss + 1, ss_last_activity := now, ss_buffer := ss_buffer ss @ chunk\<rparr>"
  let ?ss' = "?ss\<lparr>ss_loads := ss_loads ss + 2\<rparr>"
  have "drain hash D W ?ss = Some (True, ?ss')"
    using drain_inert [OF assms(1), of ?ss hash D] assms(2) by simp
  then show ?thesis
    using assms(1) calm_sends [OF assms(1)]
    by (intro exI [of _ ?ss']) (subst handle_loop.simps, auto simp: calm_def silent_def)
qed

text \<open>As long as the buffer is inert and within the limit, the connection is silent.\<close>

lemma handle_inert_chunks:
  assumes "calm W"
  shows "(\<And>k. k \<le> length chunks \<Longrightarrow> inert (ss_buffer ss @ concat (map fst (take k chunks)))) \<Longrightarrow>
    int (length (ss_buffer ss @ concat (map fst chunks))) \<le> kMaxRespFrameBytes \<Longrightarrow>
    \<exists>ss'. silent ss ss' \<and> ss_buffer ss' = ss_buffer ss @ concat (map fst chunks) \<and>
      handle_loop hash D W idle (data chunks @ recvs) ss = handle_loop hash D W idle recvs ss'"
proof (induction chunks arbitrary: ss)
  case Nil
  show ?case by (rule exI [of _ ss]) (simp add: silent_def data_def)
next
  case (Cons c chunks)
  obtain chunk now where c: "c = (chunk, now)" by (cases c)
  have "inert (ss_buffer ss @ chunk)" using Cons.prems(1) [of 1] by (simp add: c)
  from handle_inert_chunk [OF assms this, of hash D idle now "data chunks @ recvs"] obtain ss1 where
    ss1: "silent ss ss1" "ss_buffer ss1 = ss_buffer ss @ chunk"
      "handle_loop hash D W idle (RecvData chunk now # data chunks @ recvs) ss =
         handle_loop hash D W idle (data chunks @ recvs) ss1"
    using Cons.prems(2) by (auto simp: c)
  have "inert (ss_buffer ss1 @ concat (map fst (take k chunks)))" if "k \<le> length chunks" for k
    using Cons.prems(1) [of "Suc k"] that by (simp add: c ss1(2))
  from Cons.IH [OF this] Cons.prems(2) obtain ss2 where
    "silent ss1 ss2" "ss_buffer ss2 = ss_buffer ss1 @ concat (map fst chunks)"
    "handle_loop hash D W idle (data chunks @ recvs) ss1 = handle_loop hash D W idle recvs ss2"
    by (auto simp: c ss1(2))
  with ss1 show ?case by (intro exI [of _ ss2]) (auto simp: silent_def c data_def)
qed

section \<open>Input that is not a request\<close>

definition not_a_request :: "string \<Rightarrow> bool" where
  "not_a_request first \<longleftrightarrow>
     (case ReadLine first 0 of None \<Rightarrow> False | Some (line, _) \<Rightarrow> line = [] \<or> hd line \<noteq> CHR ''*'') \<or>
     (0 < bytes_consumed (ParseRESP first) \<and> cmd_name (res_command (ParseRESP first)) = [])"

lemma not_a_request_inert:
  assumes "not_a_request first"
  shows "inert (first @ later)"
proof (cases "0 < bytes_consumed (ParseRESP first) \<and> cmd_name (res_command (ParseRESP first)) = []")
  case True
  then show ?thesis using ParseRESP_append [of first later] by (simp add: inert_def)
next
  case False
  then obtain line off where line: "ReadLine first 0 = Some (line, off)" "line = [] \<or> hd line \<noteq> CHR ''*''"
    using assms by (auto simp: not_a_request_def split: option.splits)
  from ReadLine_append [OF line(1), of later] line(2) show ?thesis
    by (auto simp: inert_def ParseRESP_def no_result_def)
qed

text \<open>
  C34: input that is not a request blocks the connection without an answer. If the first bytes are
  a line that does not start with \<open>*\<close> (an inline command, for instance) or a request with an
  empty name, the handler never consumes them: whatever follows, valid requests included, is
  buffered and neither executed nor answered as long as the buffer stays within 1 MiB.
\<close>

theorem bad_input_blocks_connection:
  assumes "calm W" and "not_a_request first"
    and "int (length (first @ concat (map fst chunks))) \<le> kMaxRespFrameBytes"
  shows "\<exists>ss. HandleRespClient hash D W idle now (data ((first, t) # chunks)) store metrics = Some (Waiting, ss) \<and>
    ss_wire ss = [] \<and> ss_store ss = store \<and> ss_buffer ss = first @ concat (map fst chunks)"
proof -
  let ?ss = "\<lparr>ss_buffer = [], ss_last_activity = now, ss_store = store, ss_metrics = metrics,
        ss_wire = [], ss_loads = 0, ss_commands = 0, ss_sends = 0\<rparr>"
  have "inert (ss_buffer ?ss @ first)" using not_a_request_inert [OF assms(2), of "[]"] by simp
  from handle_inert_chunk [OF assms(1) this, of hash D idle t "data chunks"] obtain ss1 where ss1:
    "silent ?ss ss1" "ss_buffer ss1 = first"
    "handle_loop hash D W idle (RecvData first t # data chunks) ?ss = handle_loop hash D W idle (data chunks) ss1"
    using assms(3) by auto
  have "\<exists>ss'. silent ss1 ss' \<and> ss_buffer ss' = ss_buffer ss1 @ concat (map fst chunks) \<and>
      handle_loop hash D W idle (data chunks @ []) ss1 = handle_loop hash D W idle [] ss'"
    by (rule handle_inert_chunks [OF assms(1)]) (use assms(3) not_a_request_inert [OF assms(2)] ss1(2) in auto)
  then obtain ss2 where ss2: "silent ss1 ss2" "ss_buffer ss2 = first @ concat (map fst chunks)"
    "handle_loop hash D W idle (data chunks) ss1 = handle_loop hash D W idle [] ss2" using ss1(2) by auto
  have "handle_loop hash D W idle [] ss2 = Some (Waiting, ss2\<lparr>ss_loads := ss_loads ss2 + 1\<rparr>)"
    using assms(1) by (subst handle_loop.simps) (simp add: calm_def)
  with ss1 ss2 show ?thesis by (auto simp: HandleRespClient_def data_def silent_def)
qed

theorem bad_input_blocks_connection_witness:
  "\<exists>ss. HandleRespClient (\<lambda>_. 0) saturating slow_world 30000000000 0
       (data [(''PING'' @ CRLF, 1), (encode_request [''SET'', ''k'', ''v''], 2)]) (new_store 64 0) new_endpoint
       = Some (Waiting, ss) \<and> ss_wire ss = []"
proof -
  have bad: "not_a_request (''PING'' @ CRLF)" by code_simp
  have "int (length ((''PING'' @ CRLF) @ concat (map fst [(encode_request [''SET'', ''k'', ''v''], 2 :: time_point)])))
      \<le> kMaxRespFrameBytes" by code_simp
  from bad_input_blocks_connection [OF calm_slow bad this] show ?thesis by blast
qed

section \<open>Requests around the limit\<close>

lemma inert_prefix:
  "request_valid parts \<Longrightarrow> m < length (encode_request parts) \<Longrightarrow> inert (take m (encode_request parts))"
  using ParseRESP_request [of parts "[]"] ParseRESP_prefix [of m "encode_request parts"]
  by (simp add: inert_def no_result_def)

lemma prefix_chunks_inert:
  assumes "request_valid parts" "n < length (encode_request parts)"
    and "concat (map fst chunks) = take n (encode_request parts)"
  shows "inert (concat (map fst (take k chunks)))"
proof -
  let ?p = "concat (map fst (take k chunks))" and ?e = "encode_request parts"
  have split: "take n ?e = ?p @ concat (map fst (drop k chunks))"
    unfolding assms(3) [symmetric] by (metis append_take_drop_id concat_append map_append)
  have len: "length ?p \<le> n" using arg_cong [OF split, of length] by simp
  have "?p = take (length ?p) (take n ?e)" by (simp only: split) simp
  also have "\<dots> = take (length ?p) ?e" using len by (simp add: min_absorb1)
  finally show ?thesis using inert_prefix [OF assms(1), of "length ?p"] len assms(2) by simp
qed

text \<open>
  The connection holds the first \<open>n\<close> bytes of a request. All the rest at once completes it; one byte
  more leaves an incomplete frame, which is refused when it is too long.
\<close>

lemma rest_completes_request:
  assumes W: "calm W" and store: "server_store hash (ss_store ss)" and valid: "request_valid parts"
    and buf: "ss_buffer ss = take n (encode_request parts)"
  shows "\<exists>ss'. handle_loop hash D W idle [RecvData (drop n (encode_request parts)) t] ss = Some (Waiting, ss') \<and>
    advanced hash [parts] [] ss ss'"
proof -
  let ?in = "ss\<lparr>ss_loads := ss_loads ss + 1, ss_last_activity := t, ss_buffer := encode_request parts\<rparr>"
  have "\<exists>ss'. drain hash D W ?in = Some (True, ss') \<and> advanced hash [parts] [] ?in ss'"
    by (rule drain_requests [OF W]) (use store valid in \<open>auto simp: ParseRESP_def ReadLine_def\<close>)
  then obtain ss' where ss': "drain hash D W ?in = Some (True, ss')" "advanced hash [parts] [] ?in ss'" by blast
  have "handle_loop hash D W idle [RecvData (drop n (encode_request parts)) t] ss = handle_loop hash D W idle [] ss'"
    using W buf ss' by (subst handle_loop.simps) (simp add: calm_def advanced_def kMaxRespFrameBytes_def)
  also have "\<dots> = Some (Waiting, ss'\<lparr>ss_loads := ss_loads ss' + 1\<rparr>)"
    using W by (subst handle_loop.simps) (simp add: calm_def)
  finally show ?thesis using ss'(2) by (auto simp: advanced_def)
qed

lemma one_byte_is_too_much:
  assumes W: "calm W" and valid: "request_valid parts"
    and n: "int n = kMaxRespFrameBytes" "n + 1 < length (encode_request parts)"
    and buf: "ss_buffer ss = take n (encode_request parts)"
  shows "\<exists>ss'. silent ss ss' \<and> handle_loop hash D W idle (RecvData [encode_request parts ! n] t # recvs) ss =
    Some (FrameTooLarge, ss'\<lparr>ss_sends := ss_sends ss' + 1, ss_wire := ss_wire ss' @ frame_error\<rparr>)"
proof -
  let ?e = "encode_request parts"
  have "ss_buffer ss @ [?e ! n] = take (n + 1) ?e" using n(2) by (simp add: buf take_Suc_conv_app_nth)
  moreover from this have "inert (ss_buffer ss @ [?e ! n])" using inert_prefix [OF valid n(2)] by simp
  ultimately show ?thesis using handle_inert_chunk [OF W, of ss "[?e ! n]" hash D idle t recvs] n by auto
qed


text \<open>A \<open>SET\<close> of a value of 1 MiB, the largest the parser allows, read in chunks of 4096 bytes.\<close>

lemma concat_chunks: "concat (map (\<lambda>i. take k (drop (i * k) xs)) [0..<m]) = take (m * k) xs"
proof (induction m)
  case (Suc m)
  have "take (Suc m * k) xs = take (m * k + k) xs" by (simp add: add.commute)
  also have "\<dots> = take (m * k) xs @ take k (drop (m * k) xs)" by (rule take_add)
  finally show ?case using Suc by simp
qed simp

definition big_set :: "string list" where
  "big_set = [''SET'', ''k'', replicate 1048576 (CHR ''x'')]"

lemma big_set_valid: "request_valid big_set"
  by (simp add: request_valid_def big_set_def kMaxArrayElements_def kMaxBulkLength_def)

lemma big_set_length: "length (encode_request big_set) = 1048608"
proof -
  have "length (to_string 1048576) = 7" by (simp add: to_string_def digits.simps)
  moreover have "length (to_string 3) = 1" "length (to_string 1) = 1"
    by (simp_all add: to_string_def digits.simps)
  ultimately show ?thesis by (simp add: encode_request_def EncodeBulkString_def big_set_def)
qed


end
