(* ===== verification/Metrics_Listener.thy ===== *)
theory Metrics_Listener
  imports Resp_Session
begin

text \<open>
  Sockets and the metrics listener of \<open>src/server/main.cpp\<close>: \<open>CreateListeningSocket\<close>,
  \<open>ApplySocketTimeout\<close>, \<open>HandleMetricsClient\<close> and \<open>RunMetricsServer\<close>. The kernel is a table of open
  descriptors with their options; what each system call returns is a parameter. A descriptor that
  \<open>socket\<close> or \<open>accept\<close> returns is not in use (POSIX), a hypothesis of the properties.
\<close>

section \<open>Sockets\<close>

record kernel =
  kn_open :: "int list"
  kn_listening :: "int \<rightharpoonup> 16 word"
  kn_rcvtimeo :: "int \<rightharpoonup> int"
  kn_sndtimeo :: "int \<rightharpoonup> int"

definition open_fd :: "int \<Rightarrow> kernel \<Rightarrow> kernel" where
  "open_fd fd k = k\<lparr>kn_open := fd # kn_open k\<rparr>"

text \<open>\<open>close\<close>: the descriptor and its options are gone.\<close>

definition close_fd :: "int \<Rightarrow> kernel \<Rightarrow> kernel" where
  "close_fd fd k =
     k\<lparr>kn_open := remove1 fd (kn_open k), kn_listening := (kn_listening k)(fd := None),
       kn_rcvtimeo := (kn_rcvtimeo k)(fd := None), kn_sndtimeo := (kn_sndtimeo k)(fd := None)\<rparr>"

definition kListenBacklog :: int where "kListenBacklog = 64"

definition kSocketTimeoutMs :: int where "kSocketTimeoutMs = 200"

text \<open>What the calls that open a listener return; \<open>getsockname\<close> also gives the port.\<close>

record socket_calls =
  so_socket :: int
  so_reuseaddr :: int
  so_bind :: "16 word \<Rightarrow> int"
  so_listen :: "int \<Rightarrow> int"
  so_getsockname :: "int \<times> 16 word"

text \<open>The descriptor, what \<open>*bound_port\<close> holds afterwards (\<^const>\<open>None\<close>: a null pointer), and the kernel.\<close>

definition CreateListeningSocket ::
    "socket_calls \<Rightarrow> int \<Rightarrow> int option \<Rightarrow> kernel \<Rightarrow> int \<times> int option \<times> kernel" where
  "CreateListeningSocket S port bound_port k =
     (let fd = so_socket S in
      if fd < 0 then (- 1, bound_port, k)
      else let k = open_fd fd k in
      if so_reuseaddr S \<noteq> 0 then (- 1, bound_port, close_fd fd k)
      else let sin_port = word_of_int port in
      if so_bind S sin_port \<noteq> 0 then (- 1, bound_port, close_fd fd k)
      else if so_listen S kListenBacklog \<noteq> 0 then (- 1, bound_port, close_fd fd k)
      else
        (fd,
         (case bound_port of
            None \<Rightarrow> None
          | Some unchanged \<Rightarrow>
              (case so_getsockname S of (result, name) \<Rightarrow> Some (if result = 0 then uint name else unchanged))),
         k\<lparr>kn_listening := (kn_listening k)(fd \<mapsto> sin_port)\<rparr>))"

text \<open>Both calls of \<open>setsockopt\<close> may fail; the code does not look at their results.\<close>

definition ApplySocketTimeout :: "bool \<times> bool \<Rightarrow> int \<Rightarrow> kernel \<Rightarrow> kernel" where
  "ApplySocketTimeout ok fd k =
     (let usec = kSocketTimeoutMs * 1000;
          k = (if fst ok then k\<lparr>kn_rcvtimeo := (kn_rcvtimeo k)(fd \<mapsto> usec)\<rparr> else k)
      in if snd ok then k\<lparr>kn_sndtimeo := (kn_sndtimeo k)(fd \<mapsto> usec)\<rparr> else k)"

section \<open>The metrics listener\<close>

text \<open>
  One client: its descriptor, how its \<open>setsockopt\<close> and \<open>send\<close> calls go, and what other threads do to the
  metrics since the last client, and between the count of this one and its answer.
\<close>

record 'd scrape =
  sr_fd :: int
  sr_timeouts :: "bool \<times> bool"
  sr_before :: "'d metric_op list"
  sr_between :: "'d metric_op list"
  sr_sends :: "send_outcome list"

datatype 'd listen_event = SelectEINTR | SelectFailed | SelectTimeout | AcceptFailed | Accepted "'d scrape"

text \<open>The state of the listener; \<open>ml_wires\<close> are the bytes each client was sent, latest last.\<close>

record 'd metrics_listener =
  ml_kernel :: kernel
  ml_metrics :: "'d PrometheusEndpoint"
  ml_wires :: "string list"

text \<open>The request is read and ignored. \<^const>\<open>None\<close>: \<open>SendAll\<close> has not returned.\<close>

definition HandleMetricsClient ::
    "'d double_ops \<Rightarrow> 'd scrape \<Rightarrow> 'd metrics_listener \<Rightarrow> 'd metrics_listener option" where
  "HandleMetricsClient D c st =
     (let k = ApplySocketTimeout (sr_timeouts c) (sr_fd c) (ml_kernel st);
          metrics = fold (run_metric_op D) (sr_between c) (ml_metrics st)
      in case SendAll (sr_sends c) (metrics_response D metrics) of
           None \<Rightarrow> None
         | Some (ok, wire) \<Rightarrow>
             Some (st\<lparr>ml_kernel := k, ml_metrics := metrics, ml_wires := ml_wires st @ [wire]\<rparr>))"

definition kScrapes :: string where "kScrapes = ''cache_metrics_requests_total''"

definition serve_scrape ::
    "'d double_ops \<Rightarrow> 'd scrape \<Rightarrow> 'd metrics_listener \<Rightarrow> 'd metrics_listener option" where
  "serve_scrape D c st =
     (let metrics = fold (run_metric_op D) (sr_before c) (ml_metrics st);
          metrics = IncrementCounter D kScrapes (d_one D) ''Total metrics scrapes'' metrics
      in map_option (\<lambda>st. st\<lparr>ml_kernel := close_fd (sr_fd c) (ml_kernel st)\<rparr>)
           (HandleMetricsClient D c (st\<lparr>ml_kernel := open_fd (sr_fd c) (ml_kernel st), ml_metrics := metrics\<rparr>)))"

datatype listener_end = BindFailed | Listening int | ClosedDown

text \<open>Each round: what the load of the stop flag saw, and what \<open>select\<close> and \<open>accept\<close> returned.\<close>

fun metrics_loop :: "'d double_ops \<Rightarrow> int \<Rightarrow> (bool \<times> 'd listen_event) list \<Rightarrow> 'd metrics_listener
    \<Rightarrow> (listener_end \<times> 'd metrics_listener) option" where
  "metrics_loop D server_fd [] st = Some (Listening server_fd, st)"
| "metrics_loop D server_fd ((stop, e) # rounds) st =
     (let closed = Some (ClosedDown, st\<lparr>ml_kernel := close_fd server_fd (ml_kernel st)\<rparr>) in
      if stop then closed
      else case e of
             SelectFailed \<Rightarrow> closed
           | Accepted c \<Rightarrow>
               (case serve_scrape D c st of
                  None \<Rightarrow> None
                | Some st' \<Rightarrow> metrics_loop D server_fd rounds st')
           | _ \<Rightarrow> metrics_loop D server_fd rounds st)"

definition RunMetricsServer :: "'d double_ops \<Rightarrow> socket_calls \<Rightarrow> int \<Rightarrow> (bool \<times> 'd listen_event) list
    \<Rightarrow> 'd metrics_listener \<Rightarrow> (listener_end \<times> 'd metrics_listener) option" where
  "RunMetricsServer D S port rounds st =
     (case CreateListeningSocket S port (Some 0) (ml_kernel st) of (server_fd, bound_port, k) \<Rightarrow>
        if server_fd < 0 then Some (BindFailed, st\<lparr>ml_kernel := k\<rparr>)
        else metrics_loop D server_fd rounds (st\<lparr>ml_kernel := k\<rparr>))"

section \<open>Descriptors\<close>

text \<open>What the rest of the process can see of the kernel.\<close>

definition fd_free :: "int \<Rightarrow> kernel \<Rightarrow> bool" where
  "fd_free fd k \<longleftrightarrow> fd \<notin> set (kn_open k) \<and> kn_listening k fd = None \<and> kn_rcvtimeo k fd = None \<and> kn_sndtimeo k fd = None"

lemma close_open_fd: "fd_free fd k \<Longrightarrow> close_fd fd (open_fd fd k) = k"
  by (simp add: fd_free_def close_fd_def open_fd_def fun_upd_idem)

text \<open>
  A listening socket is created completely or not at all: if any of the calls fails,
  \<open>CreateListeningSocket\<close> returns -1, no descriptor stays open and \<open>*bound_port\<close> is untouched; otherwise
  it returns the one new descriptor, which listens on the requested port (a valid port is not
  truncated), and \<open>*bound_port\<close> is the port the kernel reports.
\<close>

theorem listening_socket_all_or_nothing:
  assumes "fd_free (so_socket S) k" "0 \<le> port" "port \<le> 65535"
  shows "if so_socket S < 0 \<or> so_reuseaddr S \<noteq> 0 \<or> so_bind S (word_of_int port) \<noteq> 0 \<or> so_listen S kListenBacklog \<noteq> 0
    then CreateListeningSocket S port bound_port k = (- 1, bound_port, k)
    else \<exists>k' p. CreateListeningSocket S port bound_port k = (so_socket S, p, k') \<and>
      kn_open k' = so_socket S # kn_open k \<and> map_option uint (kn_listening k' (so_socket S)) = Some port \<and>
      (fst (so_getsockname S) = 0 \<and> bound_port \<noteq> None \<longrightarrow> p = Some (uint (snd (so_getsockname S)))) \<and>
      close_fd (so_socket S) k' = k"
proof -
  have "uint (word_of_int port :: 16 word) = port" using assms(2,3) by (simp add: uint_word_of_int_eq take_bit_int_eq_self)
  moreover have "close_fd (so_socket S) (k\<lparr>kn_open := so_socket S # kn_open k,
      kn_listening := (kn_listening k)(so_socket S \<mapsto> p)\<rparr>) = k" for p
    using assms(1) by (simp add: fd_free_def close_fd_def fun_upd_idem)
  ultimately show ?thesis
    using close_open_fd [OF assms(1)]
    by (auto simp: CreateListeningSocket_def Let_def open_fd_def split: prod.splits option.splits)
qed

lemma ApplySocketTimeout_close: "close_fd fd (ApplySocketTimeout ok fd k) = close_fd fd k"
  by (simp add: ApplySocketTimeout_def close_fd_def Let_def)

lemma serve_scrape_kernel:
  assumes "serve_scrape D c st = Some st'" "fd_free (sr_fd c) (ml_kernel st)"
  shows "ml_kernel st' = ml_kernel st"
  using assms close_open_fd
  by (auto simp: serve_scrape_def HandleMetricsClient_def Let_def ApplySocketTimeout_close split: option.splits prod.splits)

fun event_fd_free :: "kernel \<Rightarrow> bool \<times> 'd listen_event \<Rightarrow> bool" where
  "event_fd_free k (stop, Accepted c) = fd_free (sr_fd c) k"
| "event_fd_free k _ = True"

lemma metrics_loop_round:
  assumes "metrics_loop D server_fd ((stop, e) # rounds) st = Some (how, st')"
  obtains (closed) "how = ClosedDown" "st' = st\<lparr>ml_kernel := close_fd server_fd (ml_kernel st)\<rparr>"
  | (served) c st1 where "e = Accepted c" "serve_scrape D c st = Some st1" "metrics_loop D server_fd rounds st1 = Some (how, st')"
  | (waited) "metrics_loop D server_fd rounds st = Some (how, st')"
  using assms by (cases stop; cases e) (auto simp: Let_def split: option.splits)

lemma metrics_loop_kernel:
  assumes "metrics_loop D server_fd rounds st = Some (how, st')" "list_all (event_fd_free (ml_kernel st)) rounds"
  shows "(how = ClosedDown \<and> ml_kernel st' = close_fd server_fd (ml_kernel st)) \<or>
    (how = Listening server_fd \<and> ml_kernel st' = ml_kernel st)"
  using assms
proof (induction rounds arbitrary: st)
  case (Cons r rounds)
  obtain stop e where r: "r = (stop, e)" by (cases r)
  from Cons.prems(1) [unfolded r] show ?case
  proof (cases rule: metrics_loop_round)
    case (served c st1)
    have "ml_kernel st1 = ml_kernel st" by (rule serve_scrape_kernel [OF served(2)]) (use Cons.prems(2) r served(1) in simp)
    then show ?thesis using Cons.IH [OF served(3)] Cons.prems(2) by simp
  qed (use Cons in auto)
qed simp

section \<open>Scrapes\<close>

text \<open>Other threads leave the counter of scrapes alone.\<close>

definition leaves_scrapes :: "'d metric_op list \<Rightarrow> bool" where
  "leaves_scrapes ops \<longleftrightarrow> list_all (\<lambda>op. op_name op \<noteq> kScrapes) ops"

fun event_leaves_scrapes :: "bool \<times> 'd listen_event \<Rightarrow> bool" where
  "event_leaves_scrapes (stop, Accepted c) \<longleftrightarrow> leaves_scrapes (sr_before c) \<and> leaves_scrapes (sr_between c)"
| "event_leaves_scrapes _ \<longleftrightarrow> True"

lemma metric_value_leaves: "leaves_scrapes ops \<Longrightarrow> metric_value D kScrapes ops x = x"
  unfolding leaves_scrapes_def
proof (induction ops arbitrary: x)
  case (Cons op ops)
  then show ?case by (cases op) auto
qed simp

text \<open>The answer number \<open>n\<close>, or a part of it when the connection broke.\<close>

definition scrape_answer :: "'d double_ops \<Rightarrow> (nat \<Rightarrow> 'd) \<Rightarrow> nat \<Rightarrow> string \<Rightarrow> bool" where
  "scrape_answer D dbl n wire \<longleftrightarrow> (\<exists>e rest. metrics_inv e \<and> me_value (metric_at D kScrapes e) = dbl n \<and>
     metrics_response D e = wire @ rest)"

definition scrapes_ok :: "'d double_ops \<Rightarrow> (nat \<Rightarrow> 'd) \<Rightarrow> 'd metrics_listener \<Rightarrow> bool" where
  "scrapes_ok D dbl st \<longleftrightarrow> metrics_inv (ml_metrics st) \<and>
     me_value (metric_at D kScrapes (ml_metrics st)) = dbl (length (ml_wires st)) \<and>
     (\<forall>i < length (ml_wires st). scrape_answer D dbl (Suc i) (ml_wires st ! i))"

lemma scrapes_ok_serve:
  assumes "counts_exactly D dbl" "scrapes_ok D dbl st" "length (ml_wires st) < 2 ^ 53"
    and c: "leaves_scrapes (sr_before c)" "leaves_scrapes (sr_between c)" and st': "serve_scrape D c st = Some st'"
  shows "scrapes_ok D dbl st' \<and> length (ml_wires st') = Suc (length (ml_wires st))"
proof -
  let ?e = "fold (run_metric_op D) (sr_between c) (IncrementCounter D kScrapes (d_one D) ''Total metrics scrapes''
      (fold (run_metric_op D) (sr_before c) (ml_metrics st)))"
  have inv: "metrics_inv (fold (run_metric_op D) (sr_before c) (ml_metrics st))"
    using assms(2) by (simp add: scrapes_ok_def metrics_inv_run)
  have e: "metrics_inv ?e" by (intro metrics_inv_run metrics_inv_IncrementCounter inv)
  have "me_value (metric_at D kScrapes ?e) = d_add D (dbl (length (ml_wires st))) (d_one D)"
    using assms(2) c inv
    by (simp add: scrapes_ok_def metric_at_run metric_value_leaves metric_at_IncrementCounter inv_pres)
  then have count: "me_value (metric_at D kScrapes ?e) = dbl (Suc (length (ml_wires st)))"
    using assms(1,3) by (simp add: counts_exactly_def)
  obtain wire ok where send: "SendAll (sr_sends c) (metrics_response D ?e) = Some (ok, wire)"
    and m: "ml_metrics st' = ?e" "ml_wires st' = ml_wires st @ [wire]"
    using st' by (auto simp: serve_scrape_def HandleMetricsClient_def Let_def split: option.splits prod.splits)
  have "scrape_answer D dbl (Suc (length (ml_wires st))) wire"
    using SendAll_wire [OF send] e count by (auto simp: scrape_answer_def)
  then show ?thesis using assms(2) e count m by (auto simp: scrapes_ok_def nth_append less_Suc_eq)
qed

lemma scrapes_ok_loop:
  assumes "counts_exactly D dbl" "scrapes_ok D dbl st" "length (ml_wires st) + length rounds \<le> 2 ^ 53"
    and "list_all event_leaves_scrapes rounds" "metrics_loop D server_fd rounds st = Some (how, st')"
  shows "scrapes_ok D dbl st'"
  using assms(2-5)
proof (induction rounds arbitrary: st)
  case (Cons r rounds)
  obtain stop e where r: "r = (stop, e)" by (cases r)
  from Cons.prems(4) [unfolded r] show ?case
  proof (cases rule: metrics_loop_round)
    case closed
    then show ?thesis using Cons.prems(1) by (simp add: scrapes_ok_def)
  next
    case (served c st1)
    have "scrapes_ok D dbl st1 \<and> length (ml_wires st1) = Suc (length (ml_wires st))"
      by (rule scrapes_ok_serve [OF assms(1) Cons.prems(1) _ _ _ served(2)]) (use Cons.prems r served(1) in auto)
    then show ?thesis using Cons.IH [OF _ _ _ served(3)] Cons.prems(2,3) by simp
  qed (use Cons in auto)
qed simp

section \<open>Properties of the listener\<close>


text \<open>A listener on port 9090 that gets descriptor 5, two clients on descriptor 6, and a stop.\<close>

definition sample_calls :: socket_calls where
  "sample_calls = \<lparr>so_socket = 5, so_reuseaddr = 0, so_bind = (\<lambda>port. if port = 9090 then 0 else - 1),
     so_listen = (\<lambda>backlog. 0), so_getsockname = (0, 9090)\<rparr>"

definition sample_kernel :: kernel where
  "sample_kernel = \<lparr>kn_open = [0, 1, 2], kn_listening = Map.empty, kn_rcvtimeo = Map.empty, kn_sndtimeo = Map.empty\<rparr>"

theorem listening_socket_all_or_nothing_witness:
  "\<exists>k' p. CreateListeningSocket sample_calls 9090 (Some 0) sample_kernel = (5, p, k') \<and> kn_open k' = [5, 0, 1, 2] \<and>
     map_option uint (kn_listening k' 5) = Some 9090 \<and> p = Some 9090 \<and> close_fd 5 k' = sample_kernel"
proof -
  have f: "fd_free (so_socket sample_calls) sample_kernel"
    by (simp add: fd_free_def sample_calls_def sample_kernel_def)
  from listening_socket_all_or_nothing [OF f, of 9090 "Some 0"] show ?thesis
    by (simp add: sample_calls_def) (simp add: sample_kernel_def)
qed

definition whole_ops :: "int double_ops" where
  "whole_ops = \<lparr>d_zero = 0, d_one = 1, d_add = (+), d_show = to_string\<rparr>"

definition sample_scrape :: "int scrape" where
  "sample_scrape = \<lparr>sr_fd = 6, sr_timeouts = (True, False), sr_before = [Gauge ''up'' 1 []],
     sr_between = [], sr_sends = [SendEINTR, Sent 10, Sent 1000]\<rparr>"

definition sample_rounds :: "(bool \<times> int listen_event) list" where
  "sample_rounds = [(False, SelectTimeout), (False, Accepted sample_scrape), (False, AcceptFailed),
     (False, Accepted sample_scrape), (True, SelectEINTR)]"

definition sample_listener :: "int metrics_listener" where
  "sample_listener = \<lparr>ml_kernel = sample_kernel, ml_metrics = new_endpoint, ml_wires = []\<rparr>"


end
