(* ===== verification/Server_Clients.thy ===== *)
theory Server_Clients
  imports Resp_Session
begin

text \<open>
  All clients of the server at once: any number of RESP connections, each served by its own thread
  (\<open>HandleRespClient\<close> of \<open>src/server/main.cpp\<close>), and gRPC calls, on one store. The threads are interleaved
  between the places where they touch what they share. A command is one step: on a store without a
  limit it is one locked section, which \<open>concurrent_blocks_are_atomic\<close> shows to be atomic.

  The locale \<open>atomic_service\<close> is what the clients rely on: a command answers and changes the
  service as its specification says.
\<close>

section \<open>The service\<close>

locale atomic_service =
  fixes execute :: "'clk \<Rightarrow> 'c \<Rightarrow> 's \<Rightarrow> ('r \<times> 's) option"
    and good :: "'s \<Rightarrow> bool" and meaning :: "'s \<Rightarrow> 'm" and spec :: "'c \<Rightarrow> 'm \<Rightarrow> 'r \<times> 'm"
  assumes execute_spec: "good s \<Longrightarrow> \<exists>s'. execute clk c s = Some (fst (spec c (meaning s)), s') \<and> good s' \<and>
    meaning s' = snd (spec c (meaning s))"
begin

fun answers :: "'c list \<Rightarrow> 'm \<Rightarrow> 'r list \<times> 'm" where
  "answers [] m = ([], m)"
| "answers (c # cs) m = (let (r, m') = spec c m; (rs, m'') = answers cs m' in (r # rs, m''))"

lemma answers_snoc:
  "answers (cs @ [c]) m = (let (rs, m') = answers cs m; (r, m'') = spec c m' in (rs @ [r], m''))"
  by (induction cs arbitrary: m) (auto simp: Let_def case_prod_unfold)

text \<open>A history of commands and replies explains the state: the replies and the state are its answers.\<close>

definition explains :: "('c \<times> 'r) list \<Rightarrow> 'm \<Rightarrow> 's \<Rightarrow> bool" where
  "explains hist m s \<longleftrightarrow> good s \<and> answers (map fst hist) m = (map snd hist, meaning s)"

lemma explains_execute:
  assumes "explains hist m s" "execute clk c s = Some (r, s')"
  shows "explains (hist @ [(c, r)]) m s'"
  using assms execute_spec [of s clk c] by (auto simp: explains_def answers_snoc case_prod_unfold Let_def)

lemma execute_returns: "explains hist m s \<Longrightarrow> \<exists>r s'. execute clk c s = Some (r, s')"
  using execute_spec [of s clk c] by (auto simp: explains_def)

end

definition spec_reply :: "RESPCommand \<Rightarrow> (string \<rightharpoonup> string) \<Rightarrow> string \<times> (string \<rightharpoonup> string)" where
  "spec_reply cmd m =
     (case spec_command (ToUpper (cmd_name cmd)) (cmd_args cmd) m of (result, m') \<Rightarrow> (encode_result result, m'))"

interpretation commands: atomic_service "ExecuteCommand hash" "server_store hash" "held hash" spec_reply for hash
proof
  fix s :: ConcurrentStore and clk :: clock and c :: RESPCommand
  assume "server_store hash s"
  from DispatchCommand_refines [OF this, of clk "cmd_name c" "cmd_args c"] obtain result s' where
    d: "DispatchCommand hash clk (cmd_name c) (cmd_args c) s = Some (result, s')" "server_store hash s'"
      "(result, held hash s') = spec_command (ToUpper (cmd_name c)) (cmd_args c) (held hash s)" by blast
  then show "\<exists>s'. ExecuteCommand hash clk c s = Some (fst (spec_reply c (held hash s)), s') \<and> server_store hash s' \<and>
      held hash s' = snd (spec_reply c (held hash s))"
    by (simp add: ExecuteCommand_def spec_reply_def flip: d(3))
qed

section \<open>Connections\<close>

text \<open>
  Where the thread of a connection is: before \<open>recv\<close>, at the head of the inner loop, after a command
  (with its reply and the bytes it takes off the buffer), before \<open>SendAll\<close> of the reply, before \<open>SendAll\<close>
  of the error for a frame that is too long, or at the end.
\<close>

datatype place = Receiving | Draining | Executed string nat | Replying string nat | Refusing_frame | Ended

text \<open>\<open>cn_received\<close> and \<open>cn_wire\<close> are all the bytes that arrived and that were sent.\<close>

record connection =
  cn_place :: place
  cn_buffer :: string
  cn_received :: string
  cn_wire :: string

datatype origin = Resp nat | Rpc

text \<open>A command in the order of execution: whose it is, the bytes it was read from, and its reply.\<close>

record call =
  ca_origin :: origin
  ca_frame :: string
  ca_command :: RESPCommand
  ca_reply :: string

record 'd server =
  sv_store :: ConcurrentStore
  sv_metrics :: "'d PrometheusEndpoint"
  sv_conns :: "connection list"
  sv_history :: "call list"

definition new_server :: "size_t \<Rightarrow> 'd PrometheusEndpoint \<Rightarrow> 'd server" where
  "new_server stripes metrics =
     \<lparr>sv_store = new_store stripes 0, sv_metrics = metrics, sv_conns = [], sv_history = []\<rparr>"

definition set_conn :: "nat \<Rightarrow> connection \<Rightarrow> 'd server \<Rightarrow> 'd server" where
  "set_conn i c s = s\<lparr>sv_conns := (sv_conns s)[i := c]\<rparr>"

definition accept_connection :: "'d server \<Rightarrow> 'd server" where
  "accept_connection s =
     s\<lparr>sv_conns := sv_conns s @ [\<lparr>cn_place = Receiving, cn_buffer = [], cn_received = [], cn_wire = []\<rparr>]\<rparr>"

text \<open>\<open>recv\<close> returned bytes.\<close>

definition client_receive :: "string \<Rightarrow> connection \<Rightarrow> connection" where
  "client_receive chunk c =
     c\<lparr>cn_buffer := cn_buffer c @ chunk, cn_received := cn_received c @ chunk, cn_place := Draining\<rparr>"

text \<open>The check behind the inner loop.\<close>

definition check_frame :: "connection \<Rightarrow> connection" where
  "check_frame c = c\<lparr>cn_place := (if int (length (cn_buffer c)) > kMaxRespFrameBytes then Refusing_frame else Receiving)\<rparr>"

text \<open>The head of the inner loop: a complete command is executed, otherwise the loop is left.\<close>

definition client_execute :: "hasher \<Rightarrow> clock \<Rightarrow> nat \<Rightarrow> 'd server \<Rightarrow> 'd server option" where
  "client_execute hash clock i s =
     (let c = sv_conns s ! i; parsed = ParseRESP (cn_buffer c) in
      if cmd_name (res_command parsed) = [] \<or> bytes_consumed parsed = 0 then Some (set_conn i (check_frame c) s)
      else case ExecuteCommand hash clock (res_command parsed) (sv_store s) of
             None \<Rightarrow> None
           | Some (response, store) \<Rightarrow>
               Some (set_conn i (c\<lparr>cn_place := Executed response (bytes_consumed parsed)\<rparr>)
                 (s\<lparr>sv_store := store,
                    sv_history := sv_history s @
                      [\<lparr>ca_origin = Resp i, ca_frame = take (bytes_consumed parsed) (cn_buffer c),
                        ca_command = res_command parsed, ca_reply = response\<rparr>]\<rparr>)))"

definition client_count :: "'d double_ops \<Rightarrow> nat \<Rightarrow> string \<Rightarrow> nat \<Rightarrow> 'd server \<Rightarrow> 'd server" where
  "client_count D i response n s =
     set_conn i ((sv_conns s ! i)\<lparr>cn_place := Replying response n\<rparr>)
       (s\<lparr>sv_metrics := IncrementCounter D ''cache_resp_requests_total'' (d_one D) ''Total RESP requests'' (sv_metrics s)\<rparr>)"

definition client_reply :: "send_outcome list \<Rightarrow> string \<Rightarrow> nat \<Rightarrow> connection \<Rightarrow> connection option" where
  "client_reply outcomes response n c =
     (case SendAll outcomes response of
        None \<Rightarrow> None
      | Some (ok, sent) \<Rightarrow>
          let c = c\<lparr>cn_wire := cn_wire c @ sent\<rparr> in
          if \<not> ok then Some (c\<lparr>cn_place := Ended\<rparr>)
          else
            let c = c\<lparr>cn_buffer := drop n (cn_buffer c)\<rparr> in
            Some (if cn_buffer c = [] then check_frame c else c\<lparr>cn_place := Draining\<rparr>))"

definition client_refuse :: "send_outcome list \<Rightarrow> connection \<Rightarrow> connection option" where
  "client_refuse outcomes c =
     (case SendAll outcomes frame_error of
        None \<Rightarrow> None
      | Some (ok, sent) \<Rightarrow> Some (c\<lparr>cn_wire := cn_wire c @ sent, cn_place := Ended\<rparr>))"

text \<open>gRPC calls; the reply is kept in the form of the RESP reply that says the same.\<close>

datatype rpc = RpcSet string string | RpcGet string

definition rpc_call :: "hasher \<Rightarrow> clock \<Rightarrow> rpc \<Rightarrow> 'd server \<Rightarrow> 'd server option" where
  "rpc_call hash clock r s =
     (let called = (\<lambda>name args reply store. s\<lparr>sv_store := store,
            sv_history := sv_history s @ [\<lparr>ca_origin = Rpc, ca_frame = [],
              ca_command = \<lparr>cmd_name = name, cmd_args = args\<rparr>, ca_reply = reply\<rparr>]\<rparr>)
      in case r of
           RpcSet key val \<Rightarrow>
             map_option (\<lambda>(status, response, store). called ''SET'' [key, val] (grpc_set_reply status response) store)
               (Grpc_Set hash clock key val \<lparr>sr_ok = False, sr_error = []\<rparr> (sv_store s))
         | RpcGet key \<Rightarrow>
             map_option (\<lambda>(status, response, store). called ''GET'' [key] (grpc_get_reply status response) store)
               (Grpc_Get hash clock key \<lparr>gr_found = False, gr_value = [], gr_error = []\<rparr> (sv_store s)))"

section \<open>Interleaving\<close>

datatype client_action =
    Receive string
  | Execute clock
  | Count
  | Reply "send_outcome list"
  | Refuse "send_outcome list"
  | See_stop
  | Hang_up

text \<open>
  The step of the connection \<open>i\<close>; \<open>None\<close> when it is not the action its thread is at. \<open>See_stop\<close>: the inner
  loop ends because the server stops. \<open>Hang_up\<close>: the outer loop ends, because of the stop flag, the
  peer, an error or the idle timeout.
\<close>

definition client_step :: "hasher \<Rightarrow> 'd double_ops \<Rightarrow> nat \<Rightarrow> client_action \<Rightarrow> 'd server \<Rightarrow> 'd server option" where
  "client_step hash D i a s =
     (let c = sv_conns s ! i in
      if length (sv_conns s) \<le> i then None
      else case (cn_place c, a) of
             (Receiving, Receive chunk) \<Rightarrow> if chunk = [] \<or> 4096 < length chunk then None else Some (set_conn i (client_receive chunk c) s)
           | (Receiving, Hang_up) \<Rightarrow> Some (set_conn i (c\<lparr>cn_place := Ended\<rparr>) s)
           | (Draining, Execute clock) \<Rightarrow> client_execute hash clock i s
           | (Draining, See_stop) \<Rightarrow> Some (set_conn i (check_frame c) s)
           | (Executed response n, Count) \<Rightarrow> Some (client_count D i response n s)
           | (Replying response n, Reply outcomes) \<Rightarrow> map_option (\<lambda>c. set_conn i c s) (client_reply outcomes response n c)
           | (Refusing_frame, Refuse outcomes) \<Rightarrow> map_option (\<lambda>c. set_conn i c s) (client_refuse outcomes c)
           | _ \<Rightarrow> None)"

inductive server_reachable :: "hasher \<Rightarrow> 'd double_ops \<Rightarrow> 'd server \<Rightarrow> bool" for hash D where
  start: "server_reachable hash D (new_server stripes metrics)"
| accept: "server_reachable hash D s \<Longrightarrow> server_reachable hash D (accept_connection s)"
| client: "server_reachable hash D s \<Longrightarrow> client_step hash D i a s = Some s' \<Longrightarrow> server_reachable hash D s'"
| rpc: "server_reachable hash D s \<Longrightarrow> rpc_call hash clock r s = Some s' \<Longrightarrow> server_reachable hash D s'"

section \<open>Invariant\<close>

text \<open>The replies of the map, and the map afterwards, for a list of commands in order.\<close>

fun spec_calls :: "RESPCommand list \<Rightarrow> (string \<rightharpoonup> string) \<Rightarrow> string list \<times> (string \<rightharpoonup> string)" where
  "spec_calls [] m = ([], m)"
| "spec_calls (cmd # cmds) m =
     (let (reply, m') = spec_reply cmd m; (replies, m'') = spec_calls cmds m' in (reply # replies, m''))"

lemma answers_spec_calls: "commands.answers cmds m = spec_calls cmds m"
  by (induction cmds arbitrary: m) (auto simp: Let_def split: prod.splits)

definition calls_of :: "nat \<Rightarrow> call list \<Rightarrow> call list" where
  "calls_of i hist = filter (\<lambda>c. ca_origin c = Resp i) hist"

definition replies :: "call list \<Rightarrow> string" where
  "replies calls = concat (map ca_reply calls)"

definition frames :: "call list \<Rightarrow> string" where
  "frames calls = concat (map ca_frame calls)"

text \<open>A command of a connection is what the parser makes of its bytes.\<close>

definition frame_ok :: "call \<Rightarrow> bool" where
  "frame_ok c \<longleftrightarrow> (\<exists>rest. ParseRESP (ca_frame c @ rest) =
     \<lparr>res_command = ca_command c, bytes_consumed = length (ca_frame c)\<rparr>)"

fun place_inv :: "place \<Rightarrow> call list \<Rightarrow> connection \<Rightarrow> bool" where
  "place_inv (Executed response n) H c = (\<exists>A x. H = A @ [x] \<and> ca_reply x = response \<and> take n (cn_buffer c) = ca_frame x \<and>
     cn_wire c = replies A \<and> cn_received c = frames A @ cn_buffer c)"
| "place_inv (Replying response n) H c = (\<exists>A x. H = A @ [x] \<and> ca_reply x = response \<and> take n (cn_buffer c) = ca_frame x \<and>
     cn_wire c = replies A \<and> cn_received c = frames A @ cn_buffer c)"
| "place_inv Ended H c = (\<exists>rest. replies H @ frame_error = cn_wire c @ rest)"
| "place_inv _ H c = (cn_wire c = replies H \<and> cn_received c = frames H @ cn_buffer c)"

definition conn_inv :: "call list \<Rightarrow> nat \<Rightarrow> connection \<Rightarrow> bool" where
  "conn_inv hist i c \<longleftrightarrow> list_all frame_ok (calls_of i hist) \<and> place_inv (cn_place c) (calls_of i hist) c"

definition history_of :: "'d server \<Rightarrow> (RESPCommand \<times> string) list" where
  "history_of s = map (\<lambda>c. (ca_command c, ca_reply c)) (sv_history s)"

definition server_inv :: "hasher \<Rightarrow> 'd server \<Rightarrow> bool" where
  "server_inv hash s \<longleftrightarrow> commands.explains hash (history_of s) Map.empty (sv_store s) \<and>
     (\<forall>i < length (sv_conns s). conn_inv (sv_history s) i (sv_conns s ! i)) \<and>
     (\<forall>c \<in> set (sv_history s). \<forall>i. ca_origin c = Resp i \<longrightarrow> i < length (sv_conns s))"

lemma calls_of_append [simp]: "calls_of i (h @ h') = calls_of i h @ calls_of i h'"
  by (simp add: calls_of_def)

lemma replies_frames_append [simp]:
  "replies (h @ h') = replies h @ replies h'" "frames (h @ h') = frames h @ frames h'"
  "replies [] = []" "frames [] = []" "replies [c] = ca_reply c" "frames [c] = ca_frame c"
  by (simp_all add: replies_def frames_def)

text \<open>A step that changes one connection and leaves the history alone.\<close>

lemma server_inv_set_conn:
  assumes "server_inv hash s" "i < length (sv_conns s)"
    and "list_all frame_ok (calls_of i (sv_history s)) \<Longrightarrow> place_inv (cn_place (sv_conns s ! i)) (calls_of i (sv_history s)) (sv_conns s ! i) \<Longrightarrow>
      place_inv (cn_place c) (calls_of i (sv_history s)) c"
  shows "server_inv hash (set_conn i c s)"
  using assms by (auto simp: server_inv_def set_conn_def history_of_def conn_inv_def nth_list_update)

text \<open>A step that executes a command: of the connection \<open>i\<close>, or of a gRPC call.\<close>

lemma server_inv_call:
  assumes inv: "server_inv hash s" and exec: "ExecuteCommand hash clock (ca_command x) (sv_store s) = Some (ca_reply x, store)"
    and conns: "length conns = length (sv_conns s)"
    and others: "\<And>j. j < length conns \<Longrightarrow> ca_origin x \<noteq> Resp j \<Longrightarrow> conns ! j = sv_conns s ! j"
    and own: "\<And>i. ca_origin x = Resp i \<Longrightarrow> i < length conns \<and> conn_inv (sv_history s @ [x]) i (conns ! i)"
  shows "server_inv hash (s\<lparr>sv_store := store, sv_history := sv_history s @ [x], sv_conns := conns\<rparr>)"
proof -
  have "commands.explains hash (history_of s @ [(ca_command x, ca_reply x)]) Map.empty store"
    using inv exec by (intro commands.explains_execute) (auto simp: server_inv_def)
  moreover have "conn_inv (sv_history s @ [x]) j (conns ! j)" if "j < length conns" for j
  proof (cases "ca_origin x = Resp j")
    case False
    then show ?thesis using inv others [OF that] that conns by (simp add: server_inv_def conn_inv_def calls_of_def)
  qed (use own in blast)
  ultimately show ?thesis using inv conns own by (auto simp: server_inv_def history_of_def)
qed

lemma place_inv_check_frame: "place_inv (cn_place (check_frame c)) H c' \<longleftrightarrow> cn_wire c' = replies H \<and> cn_received c' = frames H @ cn_buffer c'"
  by (simp add: check_frame_def)

lemma check_frame_simps [simp]:
  "cn_wire (check_frame c) = cn_wire c" "cn_received (check_frame c) = cn_received c" "cn_buffer (check_frame c) = cn_buffer c"
  by (simp_all add: check_frame_def)

lemma server_inv_execute:
  assumes inv: "server_inv hash s" and i: "i < length (sv_conns s)" and at: "cn_place (sv_conns s ! i) = Draining"
    and step: "client_execute hash clock i s = Some s'"
  shows "server_inv hash s'"
proof -
  let ?c = "sv_conns s ! i" and ?p = "ParseRESP (cn_buffer (sv_conns s ! i))"
  have c: "list_all frame_ok (calls_of i (sv_history s))" "cn_wire ?c = replies (calls_of i (sv_history s))"
    "cn_received ?c = frames (calls_of i (sv_history s)) @ cn_buffer ?c"
    using inv i at by (auto simp: server_inv_def conn_inv_def)
  show ?thesis
  proof (cases "cmd_name (res_command ?p) = [] \<or> bytes_consumed ?p = 0")
    case True
    then have "s' = set_conn i (check_frame ?c) s" using step by (simp add: client_execute_def Let_def)
    then show ?thesis using c by (auto intro!: server_inv_set_conn [OF inv i] simp: place_inv_check_frame)
  next
    case False
    define x where "x response = \<lparr>ca_origin = Resp i, ca_frame = take (bytes_consumed ?p) (cn_buffer ?c),
        ca_command = res_command ?p, ca_reply = response\<rparr>" for response
    obtain response store where exec: "ExecuteCommand hash clock (res_command ?p) (sv_store s) = Some (response, store)"
      and s': "s' = s\<lparr>sv_store := store, sv_history := sv_history s @ [x response],
        sv_conns := (sv_conns s)[i := ?c\<lparr>cn_place := Executed response (bytes_consumed ?p)\<rparr>]\<rparr>"
      using False step by (auto simp: client_execute_def Let_def x_def set_conn_def split: option.splits)
    have "ParseRESP (take (bytes_consumed ?p) (cn_buffer ?c) @ drop (bytes_consumed ?p) (cn_buffer ?c)) =
      \<lparr>res_command = res_command ?p, bytes_consumed = length (take (bytes_consumed ?p) (cn_buffer ?c))\<rparr>"
      using False ParseRESP_bounds [of "cn_buffer ?c"] by (simp add: min_absorb2)
    then have ok: "frame_ok (x response)"
      unfolding frame_ok_def by (intro exI [of _ "drop (bytes_consumed ?p) (cn_buffer ?c)"]) (simp only: x_def call.select_convs)
    show ?thesis
      unfolding s' by (rule server_inv_call [OF inv, where clock = clock])
        (use exec i c ok in \<open>auto simp: x_def conn_inv_def nth_list_update calls_of_def\<close>)
  qed
qed

lemma place_inv_reply:
  assumes "place_inv (Replying response n) H c" "client_reply outcomes response n c = Some c'"
  shows "place_inv (cn_place c') H c'"
proof -
  obtain A x where H: "H = A @ [x]" "ca_reply x = response" "take n (cn_buffer c) = ca_frame x"
    "cn_wire c = replies A" "cn_received c = frames A @ cn_buffer c" using assms(1) by auto
  obtain ok sent where send: "SendAll outcomes response = Some (ok, sent)"
    using assms(2) by (auto simp: client_reply_def split: option.splits)
  obtain rest where rest: "response = sent @ rest" "ok \<Longrightarrow> rest = []" using SendAll_wire [OF send] by auto
  have "ca_frame x @ drop n (cn_buffer c) = cn_buffer c" unfolding H(3) [symmetric] by simp
  then show ?thesis
    using assms(2) send H rest
    by (cases ok) (auto simp: client_reply_def Let_def place_inv_check_frame)
qed

lemma server_inv_client:
  assumes inv: "server_inv hash s" and step: "client_step hash D i a s = Some s'"
  shows "server_inv hash s'"
proof -
  let ?c = "sv_conns s ! i"
  have i: "i < length (sv_conns s)" using step by (auto simp: client_step_def Let_def split: if_splits)
  note conn = server_inv_set_conn [OF inv i]
  show ?thesis
  proof (cases "cn_place ?c")
    case Receiving
    then show ?thesis using step i
      by (cases a) (auto simp: client_step_def client_receive_def split: if_splits intro!: conn)
  next
    case Draining
    then show ?thesis using step i server_inv_execute [OF inv i Draining]
      by (cases a) (auto simp: client_step_def place_inv_check_frame intro!: conn)
  next
    case (Executed response n)
    then have s': "s' = client_count D i response n s" using step i by (cases a) (auto simp: client_step_def)
    have "server_inv hash (set_conn i (?c\<lparr>cn_place := Replying response n\<rparr>) s)"
      by (rule conn) (use Executed in auto)
    then show ?thesis unfolding s' by (simp add: client_count_def server_inv_def set_conn_def history_of_def)
  next
    case (Replying response n)
    then obtain outcomes c' where "client_reply outcomes response n ?c = Some c'" "s' = set_conn i c' s"
      using step i by (cases a) (auto simp: client_step_def)
    then show ?thesis using Replying place_inv_reply by (auto intro!: conn)
  next
    case Refusing_frame
    then obtain outcomes c' where c': "client_refuse outcomes ?c = Some c'" "s' = set_conn i c' s"
      using step i by (cases a) (auto simp: client_step_def)
    then obtain ok sent where send: "SendAll outcomes frame_error = Some (ok, sent)"
      "c' = ?c\<lparr>cn_wire := cn_wire ?c @ sent, cn_place := Ended\<rparr>" by (auto simp: client_refuse_def split: option.splits)
    then show ?thesis using c' Refusing_frame SendAll_wire [OF send(1)] by (auto intro!: conn)
  next
    case Ended
    then show ?thesis using step i by (cases a) (auto simp: client_step_def)
  qed
qed

lemma server_inv_rpc:
  assumes inv: "server_inv hash s" and step: "rpc_call hash clock r s = Some s'"
  shows "server_inv hash s'"
proof -
  have called: "server_inv hash (s\<lparr>sv_store := store, sv_history := sv_history s @ [\<lparr>ca_origin = Rpc, ca_frame = [],
      ca_command = cmd, ca_reply = reply\<rparr>]\<rparr>)"
    if "ExecuteCommand hash clock cmd (sv_store s) = Some (reply, store)" for cmd reply store
    using server_inv_call [OF inv, of clock "\<lparr>ca_origin = Rpc, ca_frame = [], ca_command = cmd, ca_reply = reply\<rparr>" store "sv_conns s"] that
    by simp
  show ?thesis
  proof (cases r)
    case (RpcSet key val)
    then show ?thesis using step called grpc_set_as_resp [of hash clock key val "sv_store s"]
      by (auto simp: rpc_call_def)
  next
    case (RpcGet key)
    then show ?thesis using step called grpc_get_as_resp [of hash clock key "sv_store s"]
      by (auto simp: rpc_call_def)
  qed
qed

lemma server_inv_reachable: "server_reachable hash D s \<Longrightarrow> server_inv hash s"
proof (induction rule: server_reachable.induct)
  case (start stripes metrics)
  then show ?case
    by (simp add: server_inv_def new_server_def history_of_def commands.explains_def server_store_new)
next
  case (accept s)
  then have "calls_of (length (sv_conns s)) (sv_history s) = []"
    by (fastforce simp: server_inv_def calls_of_def filter_empty_conv)
  with accept show ?case
    by (fastforce simp: server_inv_def accept_connection_def history_of_def nth_append conn_inv_def less_Suc_eq)
qed (auto intro: server_inv_client server_inv_rpc)

section \<open>Properties\<close>

text \<open>
  C1: The server is linearizable. Whatever the interleaving of any number of RESP connections and gRPC
  calls, and whatever bytes the clients send: the commands that were executed, in the order of their
  execution, got exactly the replies that one map from keys to values gives to them one after the
  other, and the store holds that map. Every connection has its own commands answered in the order in
  which they arrived: the bytes it received are those of its commands followed by its buffer, and the
  bytes it was sent are the replies to its commands (while the thread waits for input), or a prefix of
  them and of the error for a frame that is too long (once the connection has ended).
\<close>

theorem server_is_linearizable:
  assumes "server_reachable hash D s" "i < length (sv_conns s)"
  defines "c \<equiv> sv_conns s ! i" and "H \<equiv> calls_of i (sv_history s)"
  shows "spec_calls (map ca_command (sv_history s)) Map.empty = (map ca_reply (sv_history s), held hash (sv_store s)) \<and>
    list_all frame_ok H \<and>
    (cn_place c = Receiving \<longrightarrow> cn_wire c = replies H \<and> cn_received c = frames H @ cn_buffer c) \<and>
    (\<exists>rest. replies H @ frame_error = cn_wire c @ rest)"
proof -
  have inv: "server_inv hash s" by (rule server_inv_reachable [OF assms(1)])
  then have "spec_calls (map ca_command (sv_history s)) Map.empty = (map ca_reply (sv_history s), held hash (sv_store s))"
    by (simp add: server_inv_def commands.explains_def answers_spec_calls history_of_def comp_def)
  moreover have "list_all frame_ok H" "place_inv (cn_place c) H c"
    using inv assms(2) by (simp_all add: server_inv_def conn_inv_def c_def H_def)
  ultimately show ?thesis by (cases "cn_place c") auto
qed

text \<open>Two connections: the first sets a key while the second asks for it.\<close>

fun run_clients :: "hasher \<Rightarrow> 'd double_ops \<Rightarrow> (nat \<times> client_action) list \<Rightarrow> 'd server \<Rightarrow> 'd server option" where
  "run_clients hash D [] s = Some s"
| "run_clients hash D ((i, a) # steps) s =
     (case client_step hash D i a s of None \<Rightarrow> None | Some s' \<Rightarrow> run_clients hash D steps s')"

lemma run_clients_reachable:
  "run_clients hash D steps s = Some s' \<Longrightarrow> server_reachable hash D s \<Longrightarrow> server_reachable hash D s'"
proof (induction hash D steps s rule: run_clients.induct)
  case (2 hash D i a steps s)
  then show ?case by (cases "client_step hash D i a s") (auto intro: server_reachable.client)
qed simp

definition two_clients :: "int server" where
  "two_clients = the (run_clients (\<lambda>_. 0) saturating
     [(0, Receive (encode_request [''SET'', ''k'', ''v''])), (1, Receive (encode_request [''GET'', ''k''])),
      (0, Execute (0, 0, 0)), (1, Execute (1, 1, 1)), (1, Count), (0, Count),
      (1, Reply (replicate 20 (Sent 1))), (0, Reply [Sent 5])]
     (accept_connection (accept_connection (new_server 4 new_endpoint))))"

lemma two_clients_reachable: "server_reachable (\<lambda>_. 0) saturating two_clients"
  unfolding two_clients_def
  by (rule run_clients_reachable [OF option.collapse [symmetric]], code_simp)
    (intro server_reachable.accept server_reachable.start)

theorem server_is_linearizable_witness:
  "cn_wire (sv_conns two_clients ! 1) = ''$1'' @ CRLF @ ''v'' @ CRLF \<and>
   cn_wire (sv_conns two_clients ! 1) = replies (calls_of 1 (sv_history two_clients)) \<and>
   spec_calls (map ca_command (sv_history two_clients)) Map.empty =
     (map ca_reply (sv_history two_clients), held (\<lambda>_. 0) (sv_store two_clients))"
proof -
  have "1 < length (sv_conns two_clients)" "cn_place (sv_conns two_clients ! 1) = Receiving"
    "cn_wire (sv_conns two_clients ! 1) = ''$1'' @ CRLF @ ''v'' @ CRLF" by code_simp+
  with server_is_linearizable [OF two_clients_reachable, of 1] show ?thesis by simp
qed

end
