(* ===== verification/Resp_Worker.thy ===== *)
theory Resp_Worker
  imports Cache_Prelude
begin

text \<open>
  Client slots: \<open>TryAcquireRespSlot\<close> and the accept loop of \<open>RunRespServer\<close> in
  \<open>src/server/main.cpp\<close>, and \<open>StartRespWorker\<close> with \<open>ReleaseRespSlot\<close> in
  \<open>src/server/resp_worker.hpp\<close>. One listener thread accepts connections and takes slots from an
  atomic counter; every connection has a worker thread that closes its socket and gives the slot
  back. The steps below are the atomic accesses to the counter and the operations on sockets, as
  the threads may interleave them.
\<close>

section \<open>State\<close>

text \<open>
  The listener: waiting for a connection, in the compare-and-swap loop with its local \<open>current\<close>,
  about to start a worker, or about to turn the client away.
\<close>

datatype listener = Accepting | Acquiring int int | Launching int | Refusing int

record slots =
  sl_active :: int
  sl_listener :: listener
  sl_workers :: "int list"
  sl_closed :: "int list"
  sl_open :: "int list"

text \<open>\<open>sl_workers\<close>: sockets whose handler runs; \<open>sl_closed\<close>: sockets closed by their worker, slot
  not yet given back; \<open>sl_open\<close>: all open client sockets.\<close>

definition new_slots :: slots where
  "new_slots = \<lparr>sl_active = 0, sl_listener = Accepting, sl_workers = [], sl_closed = [], sl_open = []\<rparr>"

section \<open>Steps\<close>

text \<open>\<open>accept\<close> returned a socket; the first part of \<open>TryAcquireRespSlot\<close>, up to the load.\<close>

definition accept_client :: "int \<Rightarrow> int \<Rightarrow> slots \<Rightarrow> slots" where
  "accept_client max_clients fd s =
     s\<lparr>sl_open := fd # sl_open s,
       sl_listener := (if max_clients \<le> 0 then Launching fd else Acquiring fd (sl_active s))\<rparr>"

text \<open>One round of the loop. The weak compare-and-swap may fail spuriously; a failure loads.\<close>

definition acquire_round :: "int \<Rightarrow> bool \<Rightarrow> slots \<Rightarrow> slots" where
  "acquire_round max_clients spurious s =
     (case sl_listener s of
        Acquiring fd current \<Rightarrow>
          if current \<ge> max_clients then s\<lparr>sl_listener := Refusing fd\<rparr>
          else if sl_active s = current \<and> \<not> spurious
          then s\<lparr>sl_active := current + 1, sl_listener := Launching fd\<rparr>
          else s\<lparr>sl_listener := Acquiring fd (sl_active s)\<rparr>
      | _ \<Rightarrow> s)"

definition close_socket :: "int \<Rightarrow> slots \<Rightarrow> slots" where
  "close_socket fd s = s\<lparr>sl_open := remove1 fd (sl_open s)\<rparr>"

definition ReleaseRespSlot :: "slots \<Rightarrow> slots" where
  "ReleaseRespSlot s = s\<lparr>sl_active := sl_active s - 1\<rparr>"

text \<open>The branch of the accept loop for a client without slot.\<close>

definition refuse_client :: "slots \<Rightarrow> slots" where
  "refuse_client s =
     (case sl_listener s of Refusing fd \<Rightarrow> (close_socket fd s)\<lparr>sl_listener := Accepting\<rparr> | _ \<Rightarrow> s)"

text \<open>
  \<open>StartRespWorker\<close>: launching the thread succeeds, or throws \<open>system_error\<close> and the clean-up
  runs. The result is what the function returns.
\<close>

definition StartRespWorker :: "bool \<Rightarrow> int \<Rightarrow> slots \<Rightarrow> bool \<times> slots" where
  "StartRespWorker launched fd s =
     (if launched then (True, s\<lparr>sl_workers := fd # sl_workers s\<rparr>)
      else (False, ReleaseRespSlot (close_socket fd s)))"

definition start_worker :: "bool \<Rightarrow> slots \<Rightarrow> slots" where
  "start_worker launched s =
     (case sl_listener s of
        Launching fd \<Rightarrow> (snd (StartRespWorker launched fd s))\<lparr>sl_listener := Accepting\<rparr>
      | _ \<Rightarrow> s)"

text \<open>The end of a worker: it closes its socket, then gives the slot back.\<close>

definition worker_close :: "int \<Rightarrow> slots \<Rightarrow> slots" where
  "worker_close fd s =
     (close_socket fd s)\<lparr>sl_workers := remove1 fd (sl_workers s), sl_closed := fd # sl_closed s\<rparr>"

definition worker_release :: "int \<Rightarrow> slots \<Rightarrow> slots" where
  "worker_release fd s = (ReleaseRespSlot s)\<lparr>sl_closed := remove1 fd (sl_closed s)\<rparr>"

text \<open>\<open>accept\<close> returns a descriptor that is not in use (POSIX).\<close>

inductive slot_step :: "int \<Rightarrow> slots \<Rightarrow> slots \<Rightarrow> bool" for max_clients where
  accept: "sl_listener s = Accepting \<Longrightarrow> fd \<notin> set (sl_open s) \<Longrightarrow> slot_step max_clients s (accept_client max_clients fd s)"
| round: "sl_listener s = Acquiring fd current \<Longrightarrow> slot_step max_clients s (acquire_round max_clients spurious s)"
| refuse: "sl_listener s = Refusing fd \<Longrightarrow> slot_step max_clients s (refuse_client s)"
| start: "sl_listener s = Launching fd \<Longrightarrow> slot_step max_clients s (start_worker launched s)"
| finish: "fd \<in> set (sl_workers s) \<Longrightarrow> slot_step max_clients s (worker_close fd s)"
| release: "fd \<in> set (sl_closed s) \<Longrightarrow> slot_step max_clients s (worker_release fd s)"

inductive slots_reachable :: "int \<Rightarrow> slots \<Rightarrow> bool" for max_clients where
  initial: "slots_reachable max_clients new_slots"
| step: "slots_reachable max_clients s \<Longrightarrow> slot_step max_clients s s' \<Longrightarrow> slots_reachable max_clients s'"

section \<open>Invariant\<close>

fun holds_slot :: "listener \<Rightarrow> nat" where
  "holds_slot (Launching fd) = 1"
| "holds_slot _ = 0"

fun pending_socket :: "listener \<Rightarrow> int list" where
  "pending_socket Accepting = []"
| "pending_socket (Acquiring fd current) = [fd]"
| "pending_socket (Launching fd) = [fd]"
| "pending_socket (Refusing fd) = [fd]"

text \<open>
  The counter is the number of slots in use; the open sockets are those of the workers and the
  one the listener is dealing with.
\<close>

definition slots_inv :: "int \<Rightarrow> slots \<Rightarrow> bool" where
  "slots_inv max_clients s \<longleftrightarrow>
     sl_active s = int (length (sl_workers s) + length (sl_closed s) + holds_slot (sl_listener s)) \<and>
     sl_active s \<le> max_clients \<and>
     mset (sl_open s) = mset (sl_workers s) + mset (pending_socket (sl_listener s))"

lemma slots_inv_step:
  assumes "slot_step max_clients s s'" "slots_inv max_clients s" "0 < max_clients"
  shows "slots_inv max_clients s'"
  using assms(1)
proof cases
  case (accept fd)
  then show ?thesis using assms(2,3) by (simp add: slots_inv_def accept_client_def)
next
  case (round fd current spurious)
  then show ?thesis using assms(2) by (auto simp: slots_inv_def acquire_round_def)
next
  case (refuse fd)
  then show ?thesis using assms(2) by (auto simp: slots_inv_def refuse_client_def close_socket_def)
next
  case (start fd launched)
  then show ?thesis
    using assms(2) by (auto simp: slots_inv_def start_worker_def StartRespWorker_def ReleaseRespSlot_def close_socket_def)
next
  case (finish fd)
  then have "mset (sl_workers s) = add_mset fd (mset (remove1 fd (sl_workers s)))"
    "length (sl_workers s) = Suc (length (remove1 fd (sl_workers s)))"
    using length_pos_if_in_set [of fd "sl_workers s"] by (simp_all add: length_remove1)
  then show ?thesis using finish assms(2) by (auto simp: slots_inv_def worker_close_def close_socket_def)
next
  case (release fd)
  then have "length (sl_closed s) = Suc (length (remove1 fd (sl_closed s)))"
    using length_pos_if_in_set [of fd "sl_closed s"] by (simp add: length_remove1)
  then show ?thesis using release assms(2) by (auto simp: slots_inv_def worker_release_def ReleaseRespSlot_def)
qed

lemma slots_reachable_inv:
  "slots_reachable max_clients s \<Longrightarrow> 0 < max_clients \<Longrightarrow> slots_inv max_clients s"
proof (induction rule: slots_reachable.induct)
  case initial
  then show ?case by (simp add: slots_inv_def new_slots_def)
qed (rule slots_inv_step)

section \<open>Properties\<close>

text \<open>
  C27: the client limit holds in every interleaving, spurious failures of the compare-and-swap
  included: at most \<open>max_resp_clients\<close> handlers run at a time and the counter is exactly the
  number of slots in use. Slots and sockets are not leaked: when no worker is left and the
  listener holds none, the counter is back at zero and every accepted socket is closed, also
  those whose thread could not be started.
\<close>

theorem client_limit_holds:
  assumes "slots_reachable max_clients s" and "0 < max_clients"
  shows "int (length (sl_workers s)) \<le> max_clients \<and> 0 \<le> sl_active s \<and> sl_active s \<le> max_clients \<and>
    sl_active s = int (length (sl_workers s) + length (sl_closed s) + holds_slot (sl_listener s)) \<and>
    mset (sl_open s) = mset (sl_workers s) + mset (pending_socket (sl_listener s)) \<and>
    (sl_listener s = Accepting \<longrightarrow> sl_workers s = [] \<longrightarrow> sl_closed s = [] \<longrightarrow> sl_active s = 0 \<and> sl_open s = [])"
  using slots_reachable_inv [OF assms] by (auto simp: slots_inv_def)

text \<open>With room for one client: the first is served, the second turned away.\<close>

definition demo_full :: slots where
  "demo_full = acquire_round 1 False (accept_client 1 8
     (start_worker True (acquire_round 1 False (accept_client 1 7 new_slots))))"

lemma demo_full_reachable: "slots_reachable 1 demo_full"
proof -
  let ?s1 = "accept_client 1 7 new_slots"
  let ?s2 = "acquire_round 1 False ?s1"
  let ?s3 = "start_worker True ?s2"
  let ?s4 = "accept_client 1 8 ?s3"
  have s1: "slot_step 1 new_slots ?s1" by (rule slot_step.accept) (simp_all add: new_slots_def)
  have "sl_listener ?s1 = Acquiring 7 0" by code_simp
  then have s2: "slot_step 1 ?s1 ?s2" by (rule slot_step.round)
  have "sl_listener ?s2 = Launching 7" by code_simp
  then have s3: "slot_step 1 ?s2 ?s3" by (rule slot_step.start)
  have "sl_listener ?s3 = Accepting" "8 \<notin> set (sl_open ?s3)" by code_simp+
  then have s4: "slot_step 1 ?s3 ?s4" by (rule slot_step.accept)
  have "sl_listener ?s4 = Acquiring 8 1" by code_simp
  then have s5: "slot_step 1 ?s4 demo_full" unfolding demo_full_def by (rule slot_step.round)
  show ?thesis
    by (rule slots_reachable.step [OF slots_reachable.step [OF slots_reachable.step [OF slots_reachable.step
          [OF slots_reachable.step [OF slots_reachable.initial s1] s2] s3] s4] s5])
qed

theorem client_limit_holds_witness:
  "sl_listener demo_full = Refusing 8 \<and> sl_workers demo_full = [7] \<and> sl_active demo_full \<le> 1"
proof -
  have state: "sl_listener demo_full = Refusing 8" "sl_workers demo_full = [7]" by code_simp+
  have "(0 :: int) < 1" by simp
  from client_limit_holds [OF demo_full_reachable this] state show ?thesis by blast
qed

text \<open>
  The limit must be positive: \<open>TryAcquireRespSlot\<close> treats zero as "no limit" and takes no slot,
  but the worker gives one back all the same, so the counter would go negative. The server
  refuses such a configuration.
\<close>

lemma unlimited_counter_goes_negative:
  "sl_active (worker_release 7 (worker_close 7 (start_worker True (accept_client 0 7 new_slots)))) = - 1"
  by code_simp

end
