(* ===== verification/Server_Options.thy ===== *)
theory Server_Options
  imports Number_Text
begin

text \<open>
  Command line and configuration: \<open>src/server/node_config.hpp\<close> and the flag parsing of
  \<open>src/server/main.cpp\<close> (\<open>ParseIntFlag\<close>, \<open>ParseDurationFlag\<close>, \<open>ParseStringFlag\<close>, \<open>PortInRange\<close>,
  \<open>ParseArgs\<close>). \<open>ParseNumber\<close> of \<open>main.cpp\<close> has the same body as the one of the RESP parser and is
  the one of \<open>Number_Text\<close>. A C++ \<open>int\<close> is an \<^typ>\<open>int\<close> in the range of 32 bits; the messages for
  the error stream are the left values of the result.
\<close>

section \<open>Configuration\<close>

record NodeConfig =
  nc_shard_count :: int
  nc_listen_port :: int
  nc_grpc_port :: int
  nc_metrics_port :: int
  nc_node_id :: string
  nc_virtual_nodes :: int
  nc_max_resp_clients :: int
  nc_resp_idle_timeout_ms :: int

definition NodeConfig_Default :: NodeConfig where
  "NodeConfig_Default =
     \<lparr>nc_shard_count = 64, nc_listen_port = 6379, nc_grpc_port = 50051, nc_metrics_port = 9100,
      nc_node_id = ''local'', nc_virtual_nodes = 128, nc_max_resp_clients = 256,
      nc_resp_idle_timeout_ms = 30000\<rparr>"

record RuntimeOptions =
  ro_config :: NodeConfig
  ro_dry_run :: bool
  ro_run_for :: "int option"

definition new_options :: RuntimeOptions where
  "new_options = \<lparr>ro_config = NodeConfig_Default, ro_dry_run = False, ro_run_for = None\<rparr>"

definition numeric_int_min :: int where "numeric_int_min = - 2147483648"
definition numeric_int_max :: int where "numeric_int_max = 2147483647"
definition kMaxPort :: int where "kMaxPort = 65535"

section \<open>Flags\<close>

definition starts_with :: "string \<Rightarrow> string \<Rightarrow> bool" where
  "starts_with arg pre \<longleftrightarrow> take (length pre) arg = pre"

definition ParseIntFlag :: "string \<Rightarrow> string \<Rightarrow> int option" where
  "ParseIntFlag arg pre =
     (if \<not> starts_with arg pre then None
      else case ParseNumber (drop (length pre) arg) of
             None \<Rightarrow> None
           | Some value \<Rightarrow> if value < numeric_int_min \<or> numeric_int_max < value then None else Some value)"

definition ParseDurationFlag :: "string \<Rightarrow> string \<Rightarrow> int option" where
  "ParseDurationFlag arg pre =
     (if \<not> starts_with arg pre then None
      else case ParseNumber (drop (length pre) arg) of
             None \<Rightarrow> None
           | Some value \<Rightarrow> if value < 0 then None else Some value)"

definition ParseStringFlag :: "string \<Rightarrow> string \<Rightarrow> string option" where
  "ParseStringFlag arg pre = (if starts_with arg pre then Some (drop (length pre) arg) else None)"

definition PortInRange :: "int \<Rightarrow> bool" where
  "PortInRange port \<longleftrightarrow> 0 \<le> port \<and> port \<le> kMaxPort"

section \<open>Arguments\<close>

text \<open>\<open>a || b\<close> on two flag parsers that write the same variable.\<close>

definition or_else :: "'a option \<Rightarrow> 'a option \<Rightarrow> 'a option" where
  "or_else a b = (case a of None \<Rightarrow> b | Some _ \<Rightarrow> a)"

text \<open>One pass of the argument loop.\<close>

definition parse_arg :: "string \<Rightarrow> RuntimeOptions \<Rightarrow> string + RuntimeOptions" where
  "parse_arg arg options =
     (let config = ro_config options
      in if arg = ''--dry-run'' then Inr (options\<lparr>ro_dry_run := True\<rparr>)
      else case ParseDurationFlag arg ''--run-for-ms='' of
        Some run_for \<Rightarrow> Inr (options\<lparr>ro_run_for := Some run_for\<rparr>)
      | None \<Rightarrow> case ParseIntFlag arg ''--shard-count='' of
        Some value \<Rightarrow> Inr (options\<lparr>ro_config := config\<lparr>nc_shard_count := value\<rparr>\<rparr>)
      | None \<Rightarrow> case ParseIntFlag arg ''--virtual-nodes='' of
        Some value \<Rightarrow> Inr (options\<lparr>ro_config := config\<lparr>nc_virtual_nodes := value\<rparr>\<rparr>)
      | None \<Rightarrow> case ParseIntFlag arg ''--max-resp-clients='' of
        Some value \<Rightarrow> Inr (options\<lparr>ro_config := config\<lparr>nc_max_resp_clients := value\<rparr>\<rparr>)
      | None \<Rightarrow> case or_else (ParseIntFlag arg ''--listen-port='') (ParseIntFlag arg ''--resp-port='') of
        Some value \<Rightarrow> Inr (options\<lparr>ro_config := config\<lparr>nc_listen_port := value\<rparr>\<rparr>)
      | None \<Rightarrow> case ParseIntFlag arg ''--grpc-port='' of
        Some value \<Rightarrow> Inr (options\<lparr>ro_config := config\<lparr>nc_grpc_port := value\<rparr>\<rparr>)
      | None \<Rightarrow> case ParseIntFlag arg ''--metrics-port='' of
        Some value \<Rightarrow> Inr (options\<lparr>ro_config := config\<lparr>nc_metrics_port := value\<rparr>\<rparr>)
      | None \<Rightarrow> case ParseDurationFlag arg ''--resp-idle-timeout-ms='' of
        Some idle \<Rightarrow>
          if numeric_int_max < idle then Inl ''resp-idle-timeout-ms out of range''
          else Inr (options\<lparr>ro_config := config\<lparr>nc_resp_idle_timeout_ms := idle\<rparr>\<rparr>)
      | None \<Rightarrow> case ParseStringFlag arg ''--node-id='' of
        Some text_value \<Rightarrow> Inr (options\<lparr>ro_config := config\<lparr>nc_node_id := text_value\<rparr>\<rparr>)
      | None \<Rightarrow> Inl (''Unknown argument: '' @ arg))"

fun parse_loop :: "string list \<Rightarrow> RuntimeOptions \<Rightarrow> string + RuntimeOptions" where
  "parse_loop [] options = Inr options"
| "parse_loop (arg # args) options =
     (case parse_arg arg options of Inl message \<Rightarrow> Inl message | Inr options' \<Rightarrow> parse_loop args options')"

definition check_options :: "RuntimeOptions \<Rightarrow> string + RuntimeOptions" where
  "check_options options =
     (let config = ro_config options
      in if nc_shard_count config \<le> 0 \<or> nc_virtual_nodes config \<le> 0
         then Inl ''Invalid shard or virtual node count''
         else if \<not> PortInRange (nc_listen_port config) \<or> \<not> PortInRange (nc_grpc_port config) \<or>
                 \<not> PortInRange (nc_metrics_port config)
         then Inl ''Ports must be between 0 and 65535''
         else if nc_max_resp_clients config \<le> 0 then Inl ''max-resp-clients must be positive''
         else if nc_resp_idle_timeout_ms config \<le> 0 then Inl ''resp-idle-timeout-ms must be positive''
         else if nc_node_id config = [] then Inl ''node-id must not be empty''
         else Inr options)"

text \<open>\<open>ParseArgs\<close>; the program name \<open>argv[0]\<close> is not among the arguments.\<close>

definition ParseArgs :: "string list \<Rightarrow> string + RuntimeOptions" where
  "ParseArgs args =
     (case parse_loop args new_options of Inl message \<Rightarrow> Inl message | Inr options \<Rightarrow> check_options options)"

section \<open>Accepted configurations\<close>

text \<open>What the rest of the server relies on.\<close>

definition config_ok :: "NodeConfig \<Rightarrow> bool" where
  "config_ok c \<longleftrightarrow>
     0 < nc_shard_count c \<and> nc_shard_count c \<le> numeric_int_max \<and>
     0 < nc_virtual_nodes c \<and> nc_virtual_nodes c \<le> numeric_int_max \<and>
     PortInRange (nc_listen_port c) \<and> PortInRange (nc_grpc_port c) \<and> PortInRange (nc_metrics_port c) \<and>
     0 < nc_max_resp_clients c \<and> nc_max_resp_clients c \<le> numeric_int_max \<and>
     0 < nc_resp_idle_timeout_ms c \<and> nc_resp_idle_timeout_ms c \<le> numeric_int_max \<and> nc_node_id c \<noteq> []"

definition options_ok :: "RuntimeOptions \<Rightarrow> bool" where
  "options_ok options \<longleftrightarrow> config_ok (ro_config options) \<and>
     (case ro_run_for options of None \<Rightarrow> True | Some ms \<Rightarrow> 0 \<le> ms \<and> ms \<le> llong_max)"

text \<open>The part of it that holds while the arguments are read: the fields fit their C++ types.\<close>

definition fits :: "RuntimeOptions \<Rightarrow> bool" where
  "fits options \<longleftrightarrow>
     nc_shard_count (ro_config options) \<le> numeric_int_max \<and>
     nc_virtual_nodes (ro_config options) \<le> numeric_int_max \<and>
     nc_max_resp_clients (ro_config options) \<le> numeric_int_max \<and>
     nc_resp_idle_timeout_ms (ro_config options) \<le> numeric_int_max \<and>
     (case ro_run_for options of None \<Rightarrow> True | Some ms \<Rightarrow> 0 \<le> ms \<and> ms \<le> llong_max)"

lemma ParseIntFlag_range: "ParseIntFlag arg pre = Some v \<Longrightarrow> numeric_int_min \<le> v \<and> v \<le> numeric_int_max"
  by (auto simp: ParseIntFlag_def split: if_splits option.splits)

lemma ParseDurationFlag_range: "ParseDurationFlag arg pre = Some v \<Longrightarrow> 0 \<le> v \<and> v \<le> llong_max"
  by (auto simp: ParseDurationFlag_def split: if_splits option.splits dest: ParseNumber_range)

lemma fits_parse_arg: "parse_arg arg options = Inr options' \<Longrightarrow> fits options \<Longrightarrow> fits options'"
  by (auto simp: parse_arg_def fits_def Let_def split: if_splits option.splits
      dest: ParseIntFlag_range ParseDurationFlag_range)

lemma fits_parse_loop: "parse_loop args options = Inr options' \<Longrightarrow> fits options \<Longrightarrow> fits options'"
  by (induction args options rule: parse_loop.induct) (auto split: sum.splits dest: fits_parse_arg)

lemma fits_new: "fits new_options"
  by (simp add: fits_def new_options_def NodeConfig_Default_def numeric_int_max_def)

lemma check_options_ok: "check_options options = Inr options' \<Longrightarrow> fits options \<Longrightarrow> options' = options \<and> options_ok options"
  by (auto simp: check_options_def Let_def options_ok_def config_ok_def fits_def split: if_splits)

lemma check_options_accepts: "options_ok options \<Longrightarrow> check_options options = Inr options"
  by (simp add: check_options_def options_ok_def config_ok_def Let_def)

section \<open>Reading back printed options\<close>

definition render_options :: "RuntimeOptions \<Rightarrow> string list" where
  "render_options options =
     (let c = ro_config options
      in [''--shard-count='' @ to_string (nc_shard_count c),
          ''--virtual-nodes='' @ to_string (nc_virtual_nodes c),
          ''--max-resp-clients='' @ to_string (nc_max_resp_clients c),
          ''--resp-port='' @ to_string (nc_listen_port c),
          ''--grpc-port='' @ to_string (nc_grpc_port c),
          ''--metrics-port='' @ to_string (nc_metrics_port c),
          ''--resp-idle-timeout-ms='' @ to_string (nc_resp_idle_timeout_ms c),
          ''--node-id='' @ nc_node_id c] @
         (if ro_dry_run options then [''--dry-run''] else []) @
         (case ro_run_for options of None \<Rightarrow> [] | Some ms \<Rightarrow> [''--run-for-ms='' @ to_string ms]))"

lemma ParseIntFlag_own:
  "numeric_int_min \<le> v \<Longrightarrow> v \<le> numeric_int_max \<Longrightarrow> ParseIntFlag (pre @ to_string v) pre = Some v"
  by (simp add: ParseIntFlag_def starts_with_def ParseNumber_to_string numeric_int_min_def numeric_int_max_def
      llong_min_def llong_max_def)

lemma ParseDurationFlag_own:
  "0 \<le> v \<Longrightarrow> v \<le> llong_max \<Longrightarrow> ParseDurationFlag (pre @ to_string v) pre = Some v"
  by (simp add: ParseDurationFlag_def starts_with_def ParseNumber_to_string llong_min_def)

lemma flag_other:
  "\<not> starts_with arg pre \<Longrightarrow> ParseIntFlag arg pre = None"
  "\<not> starts_with arg pre \<Longrightarrow> ParseDurationFlag arg pre = None"
  "\<not> starts_with arg pre \<Longrightarrow> ParseStringFlag arg pre = None"
  by (simp_all add: ParseIntFlag_def ParseDurationFlag_def ParseStringFlag_def)

lemma parse_arg_own:
  assumes "numeric_int_min \<le> v" "v \<le> numeric_int_max"
  shows "parse_arg (''--shard-count='' @ to_string v) options =
      Inr (options\<lparr>ro_config := (ro_config options)\<lparr>nc_shard_count := v\<rparr>\<rparr>)"
    and "parse_arg (''--virtual-nodes='' @ to_string v) options =
      Inr (options\<lparr>ro_config := (ro_config options)\<lparr>nc_virtual_nodes := v\<rparr>\<rparr>)"
    and "parse_arg (''--max-resp-clients='' @ to_string v) options =
      Inr (options\<lparr>ro_config := (ro_config options)\<lparr>nc_max_resp_clients := v\<rparr>\<rparr>)"
    and "parse_arg (''--resp-port='' @ to_string v) options =
      Inr (options\<lparr>ro_config := (ro_config options)\<lparr>nc_listen_port := v\<rparr>\<rparr>)"
    and "parse_arg (''--grpc-port='' @ to_string v) options =
      Inr (options\<lparr>ro_config := (ro_config options)\<lparr>nc_grpc_port := v\<rparr>\<rparr>)"
    and "parse_arg (''--metrics-port='' @ to_string v) options =
      Inr (options\<lparr>ro_config := (ro_config options)\<lparr>nc_metrics_port := v\<rparr>\<rparr>)"
  using ParseIntFlag_own [OF assms, of "''--shard-count=''"] ParseIntFlag_own [OF assms, of "''--virtual-nodes=''"]
    ParseIntFlag_own [OF assms, of "''--max-resp-clients=''"] ParseIntFlag_own [OF assms, of "''--resp-port=''"]
    ParseIntFlag_own [OF assms, of "''--grpc-port=''"] ParseIntFlag_own [OF assms, of "''--metrics-port=''"]
  by (simp_all add: parse_arg_def flag_other starts_with_def or_else_def)

lemma parse_arg_idle:
  "0 \<le> v \<Longrightarrow> v \<le> numeric_int_max \<Longrightarrow> parse_arg (''--resp-idle-timeout-ms='' @ to_string v) options =
     Inr (options\<lparr>ro_config := (ro_config options)\<lparr>nc_resp_idle_timeout_ms := v\<rparr>\<rparr>)"
  using ParseDurationFlag_own [of v "''--resp-idle-timeout-ms=''"]
  by (simp add: parse_arg_def flag_other starts_with_def or_else_def numeric_int_max_def llong_max_def)

lemma parse_arg_rest:
  "parse_arg (''--node-id='' @ name) options = Inr (options\<lparr>ro_config := (ro_config options)\<lparr>nc_node_id := name\<rparr>\<rparr>)"
  "parse_arg ''--dry-run'' options = Inr (options\<lparr>ro_dry_run := True\<rparr>)"
  by (simp_all add: parse_arg_def flag_other starts_with_def or_else_def ParseStringFlag_def)

lemma parse_arg_run_for:
  "0 \<le> v \<Longrightarrow> v \<le> llong_max \<Longrightarrow>
   parse_arg (''--run-for-ms='' @ to_string v) options = Inr (options\<lparr>ro_run_for := Some v\<rparr>)"
  using ParseDurationFlag_own [of v "''--run-for-ms=''"] by (simp add: parse_arg_def)

lemma PortInRange_int: "PortInRange p \<Longrightarrow> numeric_int_min \<le> p \<and> p \<le> numeric_int_max"
  by (simp add: PortInRange_def kMaxPort_def numeric_int_min_def numeric_int_max_def)

lemmas parse_flags = parse_arg_own [simplified] parse_arg_idle [simplified] parse_arg_rest [simplified]
  parse_arg_run_for [simplified]

lemma parse_loop_render:
  assumes "options_ok options"
  shows "parse_loop (render_options options) new_options = Inr options"
proof -
  have pos: "numeric_int_min \<le> v" if "0 < v" for v :: int using that by (simp add: numeric_int_min_def)
  show ?thesis
    using assms unfolding options_ok_def config_ok_def
    by (cases "ro_dry_run options"; cases "ro_run_for options")
       (simp_all add: render_options_def Let_def parse_flags PortInRange_int pos new_options_def NodeConfig_Default_def)
qed

section \<open>Properties\<close>

lemma ParseArgs_ok:
  assumes "ParseArgs args = Inr options"
  shows "options_ok options"
proof -
  from assms obtain raw where raw: "parse_loop args new_options = Inr raw" "check_options raw = Inr options"
    by (auto simp: ParseArgs_def split: sum.splits)
  from check_options_ok [OF raw(2) fits_parse_loop [OF raw(1) fits_new]] show ?thesis by simp
qed

text \<open>
  C29: whatever the command line, the options the server starts with are in range: positive shard,
  virtual node and client counts and a positive idle timeout, all within \<open>int\<close>, ports between 0
  and 65535, a node name, and a run time that is not negative. Everything else is refused with a
  message.
\<close>

theorem accepted_options_are_valid:
  assumes "ParseArgs args = Inr options"
  shows "options_ok options"
  using assms by (rule ParseArgs_ok)

theorem accepted_options_are_valid_witness:
  "\<exists>options. ParseArgs [''--resp-port=7000'', ''--dry-run'', ''--node-id=n1''] = Inr options \<and>
     options_ok options \<and> nc_listen_port (ro_config options) = 7000"
proof -
  let ?o = "new_options\<lparr>ro_dry_run := True, ro_config := NodeConfig_Default\<lparr>nc_listen_port := 7000, nc_node_id := ''n1''\<rparr>\<rparr>"
  have parse: "ParseArgs [''--resp-port=7000'', ''--dry-run'', ''--node-id=n1''] = Inr ?o" by code_simp
  have "nc_listen_port (ro_config ?o) = 7000" by simp
  with accepted_options_are_valid [OF parse] parse show ?thesis by blast
qed

text \<open>
  C28: every valid set of options can be given on the command line: printing all of them as flags
  and parsing the result yields the same options.
\<close>

theorem options_roundtrip:
  assumes "options_ok options"
  shows "ParseArgs (render_options options) = Inr options"
  using parse_loop_render [OF assms] check_options_accepts [OF assms] by (simp add: ParseArgs_def)

theorem options_roundtrip_witness:
  "ParseArgs (render_options (new_options\<lparr>ro_run_for := Some 5\<rparr>)) = Inr (new_options\<lparr>ro_run_for := Some 5\<rparr>)"
proof -
  have "options_ok (new_options\<lparr>ro_run_for := Some 5\<rparr>)" by code_simp
  then show ?thesis by (rule options_roundtrip)
qed

end
