(* ===== verification/Server_Main.thy ===== *)
theory Server_Main
  imports Server_Options Ring_Properties Command_Dispatcher Metrics
begin

text \<open>
  The server process, \<open>main\<close>, \<open>RequestStop\<close>, \<open>HandleSignal\<close>, \<open>RunRespServer\<close> and
  \<open>RunMetricsServer\<close> of \<open>src/server/main.cpp\<close>: the start-up, up to the point where a dry run ends,
  and the life of the threads from there to the end of \<open>main\<close>. What the listeners do with a
  connection is in \<open>Resp_Session\<close>, \<open>Resp_Worker\<close> and \<open>Metrics\<close>; here they only run, fail, and
  stop.
\<close>

section \<open>Start-up\<close>

record 'd server =
  sv_options :: RuntimeOptions
  sv_store :: ConcurrentStore
  sv_ring :: HashRing
  sv_metrics :: "'d PrometheusEndpoint"

text \<open>The process exits with a code, dies of an uncaught exception, or goes on to serve.\<close>

datatype 'd boot = Exit int | Uncaught cpp_exception | Serve "'d server"

definition bootstrap :: "'d double_ops \<Rightarrow> string list \<Rightarrow> 'd boot option" where
  "bootstrap D args =
     (case ParseArgs args of
        Inl message \<Rightarrow> Some (Exit 1)
      | Inr options \<Rightarrow>
          let store = new_store (of_int (nc_shard_count (ro_config options))) 0
          in case AddNode (nc_node_id (ro_config options)) (nc_virtual_nodes (ro_config options)) new_ring of
               None \<Rightarrow> None
             | Some (Inl ex) \<Rightarrow> Some (Uncaught ex)
             | Some (Inr ring) \<Rightarrow>
                 if RouteKeyToNode ring ''bootstrap'' = [] then Some (Exit 1)
                 else
                   let metrics = SetGauge D ''cache_bootstrap_ok'' (d_one D) ''Cache node bootstrap status'' new_endpoint
                   in if ro_dry_run options then Some (Exit 0)
                      else Some (Serve \<lparr>sv_options = options, sv_store = store, sv_ring = ring, sv_metrics = metrics\<rparr>))"

text \<open>A ring with one node gives that node every key.\<close>

lemma single_node_owns_all:
  assumes "AddNode node n new_ring = Some (Inr r)"
  shows "OwnerForKey key r = node"
proof (rule AddNode_effect [OF assms ring_inv_new])
  fix new
  assume new: "length new = nat n" "0 < n"
    "map_of (hr_ring r) =
       (\<lambda>token. if token \<in> set new then Some node else map_of (hr_ring (RemoveNode node new_ring)) token)"
    "omap_inv (hr_ring r)"
  have points: "map_of (hr_ring r) = (\<lambda>token. if token \<in> set new then Some node else None)"
  proof -
    have "RemoveNode node new_ring = new_ring" "hr_ring new_ring = []" by (simp_all add: RemoveNode_def new_ring_def)
    with new(3) show ?thesis by (simp cong: if_cong)
  qed
  have "new \<noteq> []" using new(1,2) by auto
  then have "map_of (hr_ring r) \<noteq> Map.empty"
    using points by (metis last_in_set option.distinct(1))
  then have "ring_owner (Hash64 key) (hr_ring r) \<noteq> None"
    using ring_points.owner_at_None [OF new(4)] by blast
  then obtain owner where owner: "ring_owner (Hash64 key) (hr_ring r) = Some owner" by blast
  from ring_owner_nearest [OF new(4) this] have "owner = node" by (auto simp: points split: if_splits)
  with owner show ?thesis by (simp add: OwnerForKey_ring_owner)
qed

text \<open>
  C30: start-up succeeds for every accepted command line with at most 900 virtual nodes (the
  default is 128): no exception, the ring check passes, a dry run exits with 0, and otherwise the
  server goes on with an empty, unbounded store and a ring that routes every key to this node.
\<close>

theorem bootstrap_succeeds:
  assumes "ParseArgs args = Inr options" and "nc_virtual_nodes (ro_config options) \<le> 900"
  shows "if ro_dry_run options then bootstrap D args = Some (Exit 0)
    else \<exists>sv. bootstrap D args = Some (Serve sv) \<and> sv_options sv = options \<and>
      server_store hash (sv_store sv) \<and> held hash (sv_store sv) = Map.empty \<and>
      RouteKeyToNode (sv_ring sv) key = nc_node_id (ro_config options)"
proof -
  let ?node = "nc_node_id (ro_config options)" and ?n = "nc_virtual_nodes (ro_config options)"
  have n: "0 < ?n" and node: "?node \<noteq> []" using ParseArgs_ok [OF assms(1)] by (auto simp: options_ok_def config_ok_def)
  have "int (length (hr_ring new_ring)) + ?n \<le> 900" using assms(2) by (simp add: new_ring_def)
  from AddNode_small_ring [OF ring_inv_new n this, of ?node] obtain r where
    add: "AddNode ?node ?n new_ring = Some (Inr r)" by blast
  have route: "RouteKeyToNode r k = ?node" for k
    using single_node_owns_all [OF add] by (simp add: RouteKeyToNode_def)
  show ?thesis
    using assms(1) add node by (simp add: bootstrap_def Let_def route server_store_new)
qed

theorem bootstrap_succeeds_witness:
  "bootstrap saturating [''--dry-run''] = Some (Exit 0)"
proof -
  have parse: "ParseArgs [''--dry-run''] = Inr (new_options\<lparr>ro_dry_run := True\<rparr>)" by code_simp
  have "nc_virtual_nodes (ro_config (new_options\<lparr>ro_dry_run := True\<rparr>)) \<le> 900" by code_simp
  from bootstrap_succeeds [OF parse this, of saturating] show ?thesis by simp
qed

end
