(* ===== verification/Server_Lifecycle.thy ===== *)
theory Server_Lifecycle
  imports Cache_Prelude
begin

text \<open>
  The threads of the server process, \<open>src/server/main.cpp\<close>: \<open>main\<close> after start-up, the RESP and
  metrics listeners, the gRPC thread, the optional timer, and the detached worker threads of the
  RESP connections. They share the flags \<open>stop\<close> and \<open>listener_failed\<close>. Each definition is one
  atomic step of one thread.
\<close>

section \<open>State\<close>

datatype service = Starting | Running | Finished

datatype timer = NoTimer | Sleeping | Expired

datatype main_thread = Polling | JoinGrpc | JoinResp | JoinMetrics | JoinTimer | Returned int

record lifecycle =
  lc_stop :: bool
  lc_listener_failed :: bool
  lc_resp :: service
  lc_metrics :: service
  lc_grpc_shutdown :: bool
  lc_grpc_done :: bool
  lc_timer :: timer
  lc_main :: main_thread
  lc_workers :: nat

text \<open>All threads have been created; the timer exists when a run time was given.\<close>

definition launch :: "bool \<Rightarrow> lifecycle" where
  "launch run_for =
     \<lparr>lc_stop = False, lc_listener_failed = False, lc_resp = Starting, lc_metrics = Starting,
      lc_grpc_shutdown = False, lc_grpc_done = False, lc_timer = (if run_for then Sleeping else NoTimer),
      lc_main = Polling, lc_workers = 0\<rparr>"

section \<open>Steps\<close>

definition RequestStop :: "lifecycle \<Rightarrow> lifecycle" where
  "RequestStop s = s\<lparr>lc_stop := True\<rparr>"

definition HandleSignal :: "lifecycle \<Rightarrow> lifecycle" where
  "HandleSignal s = s\<lparr>lc_stop := True\<rparr>"

text \<open>What \<open>select\<close> and \<open>accept\<close> report to a listener in one round of its loop.\<close>

datatype poll = PollInterrupted | PollError | PollIdle | PollClient

text \<open>The beginning of \<open>RunRespServer\<close>, and one round of its loop.\<close>

definition resp_bind :: "bool \<Rightarrow> lifecycle \<Rightarrow> lifecycle" where
  "resp_bind bound s =
     (if bound then s\<lparr>lc_resp := Running\<rparr>
      else (RequestStop (s\<lparr>lc_listener_failed := True\<rparr>))\<lparr>lc_resp := Finished\<rparr>)"

definition resp_round :: "poll \<Rightarrow> lifecycle \<Rightarrow> lifecycle" where
  "resp_round p s =
     (if lc_stop s then s\<lparr>lc_resp := Finished\<rparr>
      else case p of
             PollError \<Rightarrow> s\<lparr>lc_resp := Finished\<rparr>
           | PollClient \<Rightarrow> s\<lparr>lc_workers := lc_workers s + 1\<rparr>
           | _ \<Rightarrow> s)"

text \<open>The same for \<open>RunMetricsServer\<close>, which serves its clients itself.\<close>

definition metrics_bind :: "bool \<Rightarrow> lifecycle \<Rightarrow> lifecycle" where
  "metrics_bind bound s =
     (if bound then s\<lparr>lc_metrics := Running\<rparr>
      else (RequestStop (s\<lparr>lc_listener_failed := True\<rparr>))\<lparr>lc_metrics := Finished\<rparr>)"

definition metrics_round :: "poll \<Rightarrow> lifecycle \<Rightarrow> lifecycle" where
  "metrics_round p s =
     (if lc_stop s then s\<lparr>lc_metrics := Finished\<rparr>
      else case p of PollError \<Rightarrow> s\<lparr>lc_metrics := Finished\<rparr> | _ \<Rightarrow> s)"

text \<open>The timer thread: woken by \<open>stop\<close>, or its time is up.\<close>

definition timer_wake :: "lifecycle \<Rightarrow> lifecycle" where
  "timer_wake s = (if lc_stop s then s\<lparr>lc_timer := Expired\<rparr> else (RequestStop s)\<lparr>lc_timer := Expired\<rparr>)"

text \<open>\<open>main\<close>: the polling loop and \<open>server->Shutdown()\<close> after it, then the joins and the exit code.\<close>

definition main_poll :: "lifecycle \<Rightarrow> lifecycle" where
  "main_poll s = (if lc_stop s then s\<lparr>lc_grpc_shutdown := True, lc_main := JoinGrpc\<rparr> else s)"

definition main_join :: "lifecycle \<Rightarrow> lifecycle" where
  "main_join s =
     (case lc_main s of
        JoinGrpc \<Rightarrow> if lc_grpc_done s then s\<lparr>lc_main := JoinResp\<rparr> else s
      | JoinResp \<Rightarrow> if lc_resp s = Finished then s\<lparr>lc_main := JoinMetrics\<rparr> else s
      | JoinMetrics \<Rightarrow> if lc_metrics s = Finished then s\<lparr>lc_main := JoinTimer\<rparr> else s
      | JoinTimer \<Rightarrow>
          if lc_timer s \<noteq> Sleeping then s\<lparr>lc_main := Returned (if lc_listener_failed s then 1 else 0)\<rparr> else s
      | _ \<Rightarrow> s)"

text \<open>
  The interleaving. \<open>server->Wait()\<close> returns after \<open>Shutdown\<close> (documented behaviour of gRPC). A
  worker ends when its connection does, which may be at any time.
\<close>

inductive lifecycle_step :: "lifecycle \<Rightarrow> lifecycle \<Rightarrow> bool" where
  signal: "lifecycle_step s (HandleSignal s)"
| resp_start: "lc_resp s = Starting \<Longrightarrow> lifecycle_step s (resp_bind bound s)"
| resp_loop: "lc_resp s = Running \<Longrightarrow> lifecycle_step s (resp_round p s)"
| metrics_start: "lc_metrics s = Starting \<Longrightarrow> lifecycle_step s (metrics_bind bound s)"
| metrics_loop: "lc_metrics s = Running \<Longrightarrow> lifecycle_step s (metrics_round p s)"
| time: "lc_timer s = Sleeping \<Longrightarrow> lifecycle_step s (timer_wake s)"
| grpc: "lc_grpc_shutdown s \<Longrightarrow> lifecycle_step s (s\<lparr>lc_grpc_done := True\<rparr>)"
| worker: "0 < lc_workers s \<Longrightarrow> lifecycle_step s (s\<lparr>lc_workers := lc_workers s - 1\<rparr>)"
| poll: "lc_main s = Polling \<Longrightarrow> lifecycle_step s (main_poll s)"
| join: "lc_main s \<in> {JoinGrpc, JoinResp, JoinMetrics, JoinTimer} \<Longrightarrow> lifecycle_step s (main_join s)"

inductive lifecycle_reachable :: "lifecycle \<Rightarrow> bool" where
  launched: "lifecycle_reachable (launch run_for)"
| step: "lifecycle_reachable s \<Longrightarrow> lifecycle_step s s' \<Longrightarrow> lifecycle_reachable s'"

lemmas lifecycle_defs = RequestStop_def HandleSignal_def resp_bind_def resp_round_def metrics_bind_def
  metrics_round_def timer_wake_def main_poll_def main_join_def

section \<open>Invariant\<close>

text \<open>How far the joins have come, and what they have waited for.\<close>

fun joined :: "main_thread \<Rightarrow> nat" where
  "joined Polling = 0"
| "joined JoinGrpc = 1"
| "joined JoinResp = 2"
| "joined JoinMetrics = 3"
| "joined JoinTimer = 4"
| "joined (Returned code) = 5"

definition lifecycle_inv :: "lifecycle \<Rightarrow> bool" where
  "lifecycle_inv s \<longleftrightarrow>
     (lc_listener_failed s \<longrightarrow> lc_stop s) \<and>
     (0 < joined (lc_main s) \<longrightarrow> lc_stop s \<and> lc_grpc_shutdown s) \<and>
     (1 < joined (lc_main s) \<longrightarrow> lc_grpc_done s) \<and>
     (2 < joined (lc_main s) \<longrightarrow> lc_resp s = Finished) \<and>
     (3 < joined (lc_main s) \<longrightarrow> lc_metrics s = Finished) \<and>
     (\<forall>code. lc_main s = Returned code \<longrightarrow>
        lc_timer s \<noteq> Sleeping \<and> code = (if lc_listener_failed s then 1 else 0))"

lemma lifecycle_inv_step: "lifecycle_step s s' \<Longrightarrow> lifecycle_inv s \<Longrightarrow> lifecycle_inv s'"
proof (induction rule: lifecycle_step.induct)
  case (join s)
  then show ?case by (cases "lc_main s") (auto simp: lifecycle_inv_def main_join_def)
qed (auto simp: lifecycle_inv_def lifecycle_defs split: poll.splits)

lemma lifecycle_reachable_inv: "lifecycle_reachable s \<Longrightarrow> lifecycle_inv s"
proof (induction rule: lifecycle_reachable.induct)
  case (launched run_for)
  then show ?case by (simp add: lifecycle_inv_def launch_def)
qed (rule lifecycle_inv_step)

section \<open>Properties\<close>

text \<open>
  The exit code tells whether a listener could not be opened. When \<open>main\<close> returns, a stop was
  requested, the gRPC, RESP, metrics and timer threads have all ended, and the code is 1 exactly
  when a listener failed to bind its port.
\<close>

theorem main_joins_and_reports:
  assumes "lifecycle_reachable s" and "lc_main s = Returned code"
  shows "lc_stop s \<and> lc_grpc_done s \<and> lc_resp s = Finished \<and> lc_metrics s = Finished \<and> lc_timer s \<noteq> Sleeping \<and>
    code = (if lc_listener_failed s then 1 else 0)"
  using lifecycle_reachable_inv [OF assms(1)] assms(2) by (simp add: lifecycle_inv_def)

text \<open>The work left until every thread has ended.\<close>

fun service_work :: "service \<Rightarrow> nat" where
  "service_work Starting = 2"
| "service_work Running = 1"
| "service_work Finished = 0"

definition shutdown_work :: "lifecycle \<Rightarrow> nat" where
  "shutdown_work s =
     service_work (lc_resp s) + service_work (lc_metrics s) + of_bool (lc_timer s = Sleeping) +
     of_bool (\<not> lc_grpc_done s) + (5 - joined (lc_main s)) + lc_workers s"

lemma shutdown_work_decreases:
  assumes "lifecycle_step s s'" "lc_stop s" "s' \<noteq> s"
  shows "shutdown_work s' < shutdown_work s \<and> lc_stop s'"
  using assms
proof (induction rule: lifecycle_step.induct)
  case (grpc s)
  then have "\<not> lc_grpc_done s" by (cases s) auto
  then show ?case using grpc by (simp add: shutdown_work_def)
next
  case (signal s)
  then show ?case by (cases s) (simp add: HandleSignal_def)
next
  case (join s)
  then show ?case by (cases "lc_main s") (auto simp: shutdown_work_def main_join_def split: if_splits)
qed (auto simp: shutdown_work_def lifecycle_defs)

lemma shutdown_progress:
  assumes inv: "lifecycle_inv s" and stop: "lc_stop s" and running: "\<And>code. lc_main s \<noteq> Returned code"
  shows "\<exists>s'. lifecycle_step s s' \<and> s' \<noteq> s"
proof -
  have service: ?thesis if "lc_resp s \<noteq> Finished \<or> lc_metrics s \<noteq> Finished \<or> lc_timer s = Sleeping"
  proof -
    from that consider "lc_resp s = Starting" | "lc_resp s = Running" | "lc_metrics s = Starting"
      | "lc_metrics s = Running" | "lc_timer s = Sleeping"
      by (cases "lc_resp s"; cases "lc_metrics s") auto
    then show ?thesis
    proof cases
      case 1
      then have "resp_bind True s \<noteq> s" by (cases s) (simp add: resp_bind_def)
      with lifecycle_step.resp_start [OF 1] show ?thesis by blast
    next
      case 2
      then have "resp_round PollIdle s \<noteq> s" using stop by (cases s) (simp add: resp_round_def)
      with lifecycle_step.resp_loop [OF 2] show ?thesis by blast
    next
      case 3
      then have "metrics_bind True s \<noteq> s" by (cases s) (simp add: metrics_bind_def)
      with lifecycle_step.metrics_start [OF 3] show ?thesis by blast
    next
      case 4
      then have "metrics_round PollIdle s \<noteq> s" using stop by (cases s) (simp add: metrics_round_def)
      with lifecycle_step.metrics_loop [OF 4] show ?thesis by blast
    next
      case 5
      then have "timer_wake s \<noteq> s" using stop by (cases s) (simp add: timer_wake_def)
      with lifecycle_step.time [OF 5] show ?thesis by blast
    qed
  qed
  show ?thesis
  proof (cases "lc_main s = Polling")
    case True
    then have "main_poll s \<noteq> s" using stop by (cases s) (simp add: main_poll_def)
    with lifecycle_step.poll [OF True] show ?thesis by blast
  next
    case False
    then have main: "lc_main s \<in> {JoinGrpc, JoinResp, JoinMetrics, JoinTimer}"
      using running by (cases "lc_main s") auto
    show ?thesis
    proof (cases "lc_grpc_done s")
      case finished: True
      show ?thesis
      proof (cases "lc_resp s \<noteq> Finished \<or> lc_metrics s \<noteq> Finished \<or> lc_timer s = Sleeping")
        case False
        then have "main_join s \<noteq> s" using main finished by (cases s) (auto simp: main_join_def)
        with lifecycle_step.join [OF main] show ?thesis by blast
      qed (rule service)
    next
      case False
      then have "s\<lparr>lc_grpc_done := True\<rparr> \<noteq> s" by (cases s) simp
      moreover have "lc_grpc_shutdown s" using inv main by (auto simp: lifecycle_inv_def)
      ultimately show ?thesis using lifecycle_step.grpc by blast
    qed
  qed
qed


text \<open>
  Runs for the witnesses: a listener fails to bind, and an orderly stop with a client connected.
\<close>

definition failed_bind :: lifecycle where
  "failed_bind = main_poll (resp_bind False (launch False))"

lemma failed_bind_reachable: "lifecycle_reachable failed_bind"
proof -
  have "lc_resp (launch False) = Starting" by (simp add: launch_def)
  then have s1: "lifecycle_step (launch False) (resp_bind False (launch False))" by (rule lifecycle_step.resp_start)
  have "lc_main (resp_bind False (launch False)) = Polling" by code_simp
  then have s2: "lifecycle_step (resp_bind False (launch False)) failed_bind"
    unfolding failed_bind_def by (rule lifecycle_step.poll)
  show ?thesis by (rule lifecycle_reachable.step [OF lifecycle_reachable.step [OF lifecycle_reachable.launched s1] s2])
qed


text \<open>The state at the end of a run in which one client stays connected and a signal arrives.\<close>

definition orphaned :: lifecycle where
  "orphaned = \<lparr>lc_stop = True, lc_listener_failed = False, lc_resp = Finished, lc_metrics = Finished,
     lc_grpc_shutdown = True, lc_grpc_done = True, lc_timer = NoTimer, lc_main = Returned 0, lc_workers = 1\<rparr>"

lemma orphaned_reachable: "lifecycle_reachable orphaned"
proof -
  have more: "lifecycle_reachable t" if "lifecycle_reachable s" "lifecycle_step s u" "t = u" for s t u
    using that by (auto intro: lifecycle_reachable.step)
  note L = lifecycle_reachable.launched [of False]
  let ?s = "\<lambda>stop resp metrics down grpc main workers. \<lparr>lc_stop = stop, lc_listener_failed = False, lc_resp = resp,
    lc_metrics = metrics, lc_grpc_shutdown = down, lc_grpc_done = grpc, lc_timer = NoTimer, lc_main = main,
    lc_workers = workers\<rparr>"
  have "lifecycle_reachable (?s False Running Starting False False Polling 0)"
    by (rule more [OF L lifecycle_step.resp_start [of _ True]]) (simp_all add: launch_def resp_bind_def)
  then have "lifecycle_reachable (?s False Running Starting False False Polling 1)"
    by (rule more [OF _ lifecycle_step.resp_loop [of _ PollClient]]) (simp_all add: resp_round_def)
  then have "lifecycle_reachable (?s False Running Running False False Polling 1)"
    by (rule more [OF _ lifecycle_step.metrics_start [of _ True]]) (simp_all add: metrics_bind_def)
  then have "lifecycle_reachable (?s True Running Running False False Polling 1)"
    by (rule more [OF _ lifecycle_step.signal]) (simp add: HandleSignal_def)
  then have "lifecycle_reachable (?s True Finished Running False False Polling 1)"
    by (rule more [OF _ lifecycle_step.resp_loop [of _ PollIdle]]) (simp_all add: resp_round_def)
  then have "lifecycle_reachable (?s True Finished Finished False False Polling 1)"
    by (rule more [OF _ lifecycle_step.metrics_loop [of _ PollIdle]]) (simp_all add: metrics_round_def)
  then have "lifecycle_reachable (?s True Finished Finished True False JoinGrpc 1)"
    by (rule more [OF _ lifecycle_step.poll]) (simp_all add: main_poll_def)
  then have "lifecycle_reachable (?s True Finished Finished True True JoinGrpc 1)"
    by (rule more [OF _ lifecycle_step.grpc]) simp_all
  then have "lifecycle_reachable (?s True Finished Finished True True JoinResp 1)"
    by (rule more [OF _ lifecycle_step.join]) (simp_all add: main_join_def)
  then have "lifecycle_reachable (?s True Finished Finished True True JoinMetrics 1)"
    by (rule more [OF _ lifecycle_step.join]) (simp_all add: main_join_def)
  then have "lifecycle_reachable (?s True Finished Finished True True JoinTimer 1)"
    by (rule more [OF _ lifecycle_step.join]) (simp_all add: main_join_def)
  then have "lifecycle_reachable (?s True Finished Finished True True (Returned 0) 1)"
    by (rule more [OF _ lifecycle_step.join]) (simp_all add: main_join_def)
  then show ?thesis by (simp add: orphaned_def)
qed

theorem main_joins_and_reports_witness: "lc_main orphaned = Returned 0 \<and> lc_grpc_done orphaned"
proof -
  have "lc_main orphaned = Returned 0" by (simp add: orphaned_def)
  with main_joins_and_reports [OF orphaned_reachable this] show ?thesis by blast
qed

text \<open>
  \<open>main\<close> does not wait for the detached worker threads. It can return, and destroy the store,
  the metrics and the flags the workers refer to, while a worker of a connected client still
  runs.
\<close>

theorem main_may_return_before_workers:
  "\<exists>s code. lifecycle_reachable s \<and> lc_main s = Returned code \<and> 0 < lc_workers s"
proof -
  have "lc_main orphaned = Returned 0" "0 < lc_workers orphaned" by (simp_all add: orphaned_def)
  then show ?thesis using orphaned_reachable by blast
qed

text \<open>
  A failing \<open>select\<close> ends a listener unnoticed: the RESP listener is gone, but neither a stop
  is requested nor a failure recorded, and \<open>main\<close> goes on polling.
\<close>

theorem select_error_ends_listener_silently:
  "\<exists>s. lifecycle_reachable s \<and> lc_resp s = Finished \<and> \<not> lc_listener_failed s \<and> \<not> lc_stop s \<and> lc_main s = Polling"
proof -
  let ?s = "resp_bind True (launch False)" and ?s' = "resp_round PollError (resp_bind True (launch False))"
  have "lc_resp (launch False) = Starting" by (simp add: launch_def)
  then have s1: "lifecycle_step (launch False) ?s" by (rule lifecycle_step.resp_start)
  have "lc_resp ?s = Running" by code_simp
  then have s2: "lifecycle_step ?s ?s'" by (rule lifecycle_step.resp_loop)
  have "lifecycle_reachable ?s'"
    by (rule lifecycle_reachable.step [OF lifecycle_reachable.step [OF lifecycle_reachable.launched s1] s2])
  moreover have "lc_resp ?s' = Finished \<and> \<not> lc_listener_failed ?s' \<and> \<not> lc_stop ?s' \<and> lc_main ?s' = Polling" by code_simp
  ultimately show ?thesis by blast
qed

end
