(* ===== verification/Store_Roomy.thy ===== *)
theory Store_Roomy
  imports Store_Spec
begin

text \<open>
  A store with room for every key that is ever written loses nothing before it expires: the counter
  \<open>total_entries_\<close> never passes the limit, so that \<open>EnforceCapacity\<close> returns at once. This covers the
  server, which sets no limit, and the benchmark, whose limit is twice the number of its keys.
\<close>

section \<open>Entries and keys\<close>

lemma distinct_concat_index:
  assumes "\<And>i. i < length xss \<Longrightarrow> distinct (xss ! i)"
    and "\<And>i x. i < length xss \<Longrightarrow> x \<in> set (xss ! i) \<Longrightarrow> slot x = (i :: nat)"
  shows "distinct (concat xss)"
  using assms
proof (induction xss rule: rev_induct)
  case (snoc xs xss)
  have "slot x < length xss" if "x \<in> set (concat xss)" for x
  proof -
    from that obtain i where "i < length xss" "x \<in> set (xss ! i)" by (auto simp: in_set_conv_nth [of _ xss])
    then show ?thesis using snoc.prems(2) [of i x] by (simp add: nth_append)
  qed
  moreover have "slot x = length xss" if "x \<in> set xs" for x
    using that snoc.prems(2) [of "length xss" x] by simp
  ultimately have "set (concat xss) \<inter> set xs = {}" by fastforce
  moreover have "distinct (concat xss)"
    using snoc.prems by (intro snoc.IH) (metis length_append_singleton less_Suc_eq nth_append)+
  ultimately show ?case using snoc.prems(1) [of "length xss"] by simp
qed simp

lemma distinct_entries:
  assumes "store_inv hash s"
  shows "distinct (map fst (entries s))"
  unfolding entries_def map_concat
  by (rule distinct_concat_index [where slot = "\<lambda>k. unat (hash k) mod length (st_stripes s)"])
    (use assms in \<open>auto simp: store_inv_def placed_def umap_inv_def\<close>)

lemma entry_count_card:
  assumes "store_inv hash s"
  shows "entry_count s = card (dom (contents hash s))"
proof -
  have "fst ` set (entries s) = dom (contents hash s)"
    using entries_iff_find [OF assms] by (force simp: contents_def dom_def image_iff)
  then show ?thesis
    using distinct_card [OF distinct_entries [OF assms]] by (simp add: count_entries_def)
qed

section \<open>Writes that fit\<close>

definition room_for :: "ConcurrentStore \<Rightarrow> string set \<Rightarrow> bool" where
  "room_for s K \<longleftrightarrow> finite K \<and> (st_max_entries s = 0 \<or> card K \<le> unat (st_max_entries s))"

lemma Store_Set_roomy:
  assumes inv: "store_inv hash s" and room: "room_for s K" and K: "dom (contents hash s) \<subseteq> K" "k \<in> K"
  shows "\<exists>s'. Store_Set hash k v ttl (t0, t1, t2) s = Some s' \<and> store_inv hash s' \<and>
    contents hash s' = (contents hash s)(k \<mapsto> (v, expiry_of ttl t0)) \<and> st_max_entries s' = st_max_entries s"
proof -
  let ?s1 = "set_locked hash k v (expiry_of ttl t0) t1 s"
  have inv1: "store_inv hash ?s1" using inv by (rule inv_pres)
  have c1: "contents hash ?s1 = (contents hash s)(k \<mapsto> (v, expiry_of ttl t0))"
    using inv by (rule contents_set_locked)
  have "st_max_entries s = 0 \<or> st_total_entries ?s1 \<le> st_max_entries s"
  proof (cases "st_max_entries s = 0")
    case False
    have "entry_count ?s1 \<le> card K"
      unfolding entry_count_card [OF inv1] c1 using K room by (intro card_mono) (auto simp: room_for_def)
    also have "\<dots> \<le> unat (st_max_entries s)" using room False by (simp add: room_for_def)
    finally have le: "entry_count ?s1 \<le> unat (st_max_entries s)" .
    then have "unat (st_total_entries ?s1) = entry_count ?s1"
      using unsigned_less [of "st_max_entries s", where ?'a = nat] by (intro total_exact [OF inv1]) simp
    with le show ?thesis by (simp add: word_le_nat_alt)
  qed simp
  with EnforceCapacity_returns [OF inv1, of t2] have "EnforceCapacity hash t2 ?s1 = Some ?s1" by auto
  with inv1 c1 show ?thesis by (simp add: Store_Set_def)
qed

fun written_keys :: "store_op \<Rightarrow> string list" where
  "written_keys (OpSet k v ttl clock) = [k]"
| "written_keys (OpGet k now) = []"

lemma run_ops_roomy:
  assumes "store_inv hash s" "room_for s K" "dom (contents hash s) \<subseteq> K"
    and "set (concat (map written_keys ops)) \<subseteq> K" "list_all (read_time_le now) ops"
    and "drop_expired now (contents hash s) = drop_expired now W"
  shows "\<exists>s'. run_ops hash ops s = Some s' \<and> store_inv hash s' \<and> dom (contents hash s') \<subseteq> K \<and>
    st_max_entries s' = st_max_entries s \<and>
    drop_expired now (contents hash s') = drop_expired now (fold note_write ops W)"
  using assms
proof (induction ops arbitrary: s W)
  case Nil
  then show ?case by simp
next
  case (Cons op ops)
  have "\<exists>s1. run_op hash op s = Some s1 \<and> store_inv hash s1 \<and> dom (contents hash s1) \<subseteq> K \<and>
      st_max_entries s1 = st_max_entries s \<and>
      drop_expired now (contents hash s1) = drop_expired now (note_write op W)"
  proof (cases op)
    case (OpSet k v ttl clock)
    obtain t0 t1 t2 where clock: "clock = (t0, t1, t2)" by (cases clock)
    from Store_Set_roomy [OF Cons.prems(1-3), of k v ttl t0 t1 t2] Cons.prems show ?thesis
      by (auto simp: OpSet clock drop_expired_upd)
  next
    case (OpGet k t)
    have "dom ((contents hash s)(k := drop_expired t (contents hash s) k)) \<subseteq> K"
      using Cons.prems(3) by (auto simp: drop_expired_def dom_def split: option.splits if_splits)
    with OpGet Cons.prems show ?thesis by (simp add: Store_Get_refines inv_pres drop_expired_absorb)
  qed
  then obtain s1 where s1: "run_op hash op s = Some s1" "store_inv hash s1" "dom (contents hash s1) \<subseteq> K"
    "st_max_entries s1 = st_max_entries s" "drop_expired now (contents hash s1) = drop_expired now (note_write op W)"
    by blast
  then have "room_for s1 K" using Cons.prems(2) by (simp add: room_for_def)
  from Cons.IH [OF s1(2) this s1(3) _ _ s1(5)] Cons.prems(4,5) s1(1,4) show ?case by simp
qed

text \<open>
  C11: a store that has room for all the keys written to it is exact: it has no limit, or no more keys
  than the limit are written. Under a clock that never runs backwards every operation returns, a
  \<open>Get\<close> returns the last write of its key if that has not expired and nothing otherwise, so that no
  entry is lost to eviction; and the store holds at most one entry per key that was written.
\<close>

theorem roomy_store_is_exact:
  assumes "list_all (read_time_le now) ops"
    and "m = 0 \<or> length (remdups (concat (map written_keys ops))) \<le> unat m"
  shows "\<exists>s. run_ops hash ops (new_store stripes m) = Some s \<and>
    fst (Store_Get hash k now s) = map_option fst (drop_expired now (last_writes ops) k) \<and>
    entry_count s \<le> length (remdups (concat (map written_keys ops)))"
proof -
  let ?K = "set (concat (map written_keys ops))"
  have K: "card ?K = length (remdups (concat (map written_keys ops)))" by (metis length_remdups_card_conv)
  have "room_for (new_store stripes m) ?K"
    unfolding room_for_def K using assms(2) by (simp add: new_store_def)
  from run_ops_roomy [OF store_inv_new_store this _ subset_refl assms(1) refl, of hash] obtain s where
    s: "run_ops hash ops (new_store stripes m) = Some s" "store_inv hash s" "dom (contents hash s) \<subseteq> ?K"
    "drop_expired now (contents hash s) = drop_expired now (fold note_write ops Map.empty)" by auto
  have "card (dom (contents hash s)) \<le> card ?K" using s(3) by (intro card_mono) auto
  then show ?thesis
    using s K by (auto simp: last_writes_def Store_Get_refines entry_count_card)
qed

theorem roomy_store_is_exact_witness:
  "\<exists>s. run_ops (\<lambda>_. 0) [OpSet ''a'' ''1'' None (0, 0, 0), OpSet ''b'' ''2'' (Some 1) (0, 0, 0), OpGet ''a'' 4,
        OpSet ''a'' ''3'' None (5, 5, 5)] (new_store 4 2) = Some s \<and>
     fst (Store_Get (\<lambda>_. 0) ''a'' 9 s) = Some ''3'' \<and> entry_count s \<le> 2"
proof -
  let ?ops = "[OpSet ''a'' ''1'' None (0, 0, 0), OpSet ''b'' ''2'' (Some 1) (0, 0, 0), OpGet ''a'' 4,
        OpSet ''a'' ''3'' None (5, 5, 5)]"
  have "list_all (read_time_le 9) ?ops" by simp
  moreover have "(2 :: size_t) = 0 \<or> length (remdups (concat (map written_keys ?ops))) \<le> unat (2 :: size_t)" by simp
  ultimately have "\<exists>s. run_ops (\<lambda>_. 0) ?ops (new_store 4 2) = Some s \<and>
    fst (Store_Get (\<lambda>_. 0) ''a'' 9 s) = map_option fst (drop_expired 9 (last_writes ?ops) ''a'') \<and>
    entry_count s \<le> length (remdups (concat (map written_keys ?ops)))"
    by (rule roomy_store_is_exact)
  then show ?thesis by (simp add: last_writes_def expiry_of_def drop_expired_def dead_at_def numeral_2_eq_2)
qed

end
