(* ===== verification/Json_Reader.thy ===== *)
theory Json_Reader
  imports Number_Text
begin

unbundle bit_operations_syntax

text \<open>
  The JSON reader and writer of the benchmark, \<open>bench/cache_bench.cpp\<close>: \<open>JsonEscapeString\<close> and
  the class \<open>JsonReader\<close>. The reader's state is the input from \<open>pos_\<close> on; a method that returns
  \<open>false\<close> is \<^const>\<open>None\<close> (every caller gives up then), one that returns \<open>true\<close> yields the input
  left and its result. Character values are those of \<open>unsigned char\<close>.

  \<open>SkipValue\<close>, \<open>SkipArray\<close> and \<open>SkipObject\<close> call each other; the model counts the calls down from a
  bound and a lemma shows that twice the input's length is always enough.
\<close>

section \<open>Escaping\<close>

definition hex_char :: "nat \<Rightarrow> char" where
  "hex_char n = ''0123456789abcdef'' ! n"

text \<open>One pass of the loop of \<open>JsonEscapeString\<close>.\<close>

definition escape_char :: "char \<Rightarrow> string" where
  "escape_char ch =
     (let n = of_char ch :: nat in
      if n = 0x22 then [CHR 0x5C, CHR 0x22]
      else if n = 0x5C then [CHR 0x5C, CHR 0x5C]
      else if n = 0x08 then CHR 0x5C # ''b''
      else if n = 0x0C then CHR 0x5C # ''f''
      else if n = 0x0A then CHR 0x5C # ''n''
      else if n = 0x0D then CHR 0x5C # ''r''
      else if n = 0x09 then CHR 0x5C # ''t''
      else if n < 0x20 then CHR 0x5C # ''u00'' @ [hex_char (n div 16), hex_char (n mod 16)]
      else [ch])"

definition JsonEscapeString :: "string \<Rightarrow> string" where
  "JsonEscapeString input = concat (map escape_char input)"

section \<open>Tokens\<close>

definition isspace :: "char \<Rightarrow> bool" where
  "isspace c \<longleftrightarrow> (let n = of_char c :: nat in n = 32 \<or> (9 \<le> n \<and> n \<le> 13))"

definition SkipWhitespace :: "string \<Rightarrow> string" where
  "SkipWhitespace input = dropWhile isspace input"

definition Consume :: "char \<Rightarrow> string \<Rightarrow> string option" where
  "Consume expected input =
     (case SkipWhitespace input of
        [] \<Rightarrow> None
      | c # rest \<Rightarrow> if c \<noteq> expected then None else Some rest)"

definition hex_value :: "char \<Rightarrow> u32 option" where
  "hex_value ch =
     (if CHR ''0'' \<le> ch \<and> ch \<le> CHR ''9'' then Some (of_char ch - 48)
      else if CHR ''a'' \<le> ch \<and> ch \<le> CHR ''f'' then Some (10 + of_char ch - 97)
      else if CHR ''A'' \<le> ch \<and> ch \<le> CHR ''F'' then Some (10 + of_char ch - 65)
      else None)"

fun hex_loop :: "nat \<Rightarrow> u32 \<Rightarrow> string \<Rightarrow> (u32 \<times> string) option" where
  "hex_loop 0 value input = Some (value, input)"
| "hex_loop (Suc i) value [] = None"
| "hex_loop (Suc i) value (ch # input) =
     (case hex_value ch of None \<Rightarrow> None | Some d \<Rightarrow> hex_loop i (push_bit 4 value OR d) input)"

definition ParseHex4 :: "string \<Rightarrow> (u32 \<times> string) option" where
  "ParseHex4 input = (if length input < 4 then None else hex_loop 4 0 input)"

text \<open>\<open>static_cast<char>\<close> of a \<open>uint32_t\<close> keeps the low eight bits.\<close>

definition byte :: "u32 \<Rightarrow> char" where
  "byte w = char_of (unat w)"

definition AppendUtf8 :: "u32 \<Rightarrow> string \<Rightarrow> string option" where
  "AppendUtf8 codepoint out =
     (if codepoint \<le> 0x7F then Some (out @ [byte codepoint])
      else if codepoint \<le> 0x7FF then
        Some (out @ [byte (0xC0 OR drop_bit 6 codepoint), byte (0x80 OR (codepoint AND 0x3F))])
      else if codepoint \<le> 0xFFFF then
        Some (out @ [byte (0xE0 OR drop_bit 12 codepoint),
                     byte (0x80 OR (drop_bit 6 codepoint AND 0x3F)), byte (0x80 OR (codepoint AND 0x3F))])
      else if codepoint \<le> 0x10FFFF then
        Some (out @ [byte (0xF0 OR drop_bit 18 codepoint), byte (0x80 OR (drop_bit 12 codepoint AND 0x3F)),
                     byte (0x80 OR (drop_bit 6 codepoint AND 0x3F)), byte (0x80 OR (codepoint AND 0x3F))])
      else None)"

definition ParseUnicodeEscape :: "string \<Rightarrow> string \<Rightarrow> (string \<times> string) option" where
  "ParseUnicodeEscape input out =
     (case ParseHex4 input of
        None \<Rightarrow> None
      | Some (codepoint, input) \<Rightarrow>
          if 0xD800 \<le> codepoint \<and> codepoint \<le> 0xDBFF then
            (if length input < 6 then None
             else if input ! 0 \<noteq> CHR 0x5C \<or> input ! 1 \<noteq> CHR ''u'' then None
             else case ParseHex4 (drop 2 input) of
                    None \<Rightarrow> None
                  | Some (low, input) \<Rightarrow>
                      if low < 0xDC00 \<or> 0xDFFF < low then None
                      else map_option (\<lambda>out. (out, input))
                             (AppendUtf8 (0x10000 + push_bit 10 (codepoint - 0xD800) + (low - 0xDC00)) out))
          else if 0xDC00 \<le> codepoint \<and> codepoint \<le> 0xDFFF then None
          else map_option (\<lambda>out. (out, input)) (AppendUtf8 codepoint out))"

lemma hex_loop_length: "hex_loop n v input = Some (w, rest) \<Longrightarrow> length input = n + length rest"
  by (induction n v input rule: hex_loop.induct) (auto split: option.splits)

lemma ParseHex4_length: "ParseHex4 input = Some (w, rest) \<Longrightarrow> length input = 4 + length rest"
  by (auto simp: ParseHex4_def split: if_splits dest: hex_loop_length)

lemma ParseUnicodeEscape_length:
  "ParseUnicodeEscape input out = Some (out', rest) \<Longrightarrow> length rest < length input"
  by (auto simp: ParseUnicodeEscape_def split: option.splits if_splits dest!: ParseHex4_length)

section \<open>Strings\<close>

definition simple_escape :: "char \<Rightarrow> char option" where
  "simple_escape esc =
     (if esc = CHR 0x22 \<or> esc = CHR 0x5C \<or> esc = CHR ''/'' then Some esc
      else if esc = CHR ''b'' then Some (CHR 0x08)
      else if esc = CHR ''f'' then Some (CHR 0x0C)
      else if esc = CHR ''n'' then Some (CHR 0x0A)
      else if esc = CHR ''r'' then Some (CHR 0x0D)
      else if esc = CHR ''t'' then Some (CHR 0x09)
      else None)"

function string_loop :: "string \<Rightarrow> string \<Rightarrow> (string \<times> string) option" where
  "string_loop [] out = None"
| "string_loop (ch # input) out =
     (if ch = CHR 0x22 then Some (out, input)
      else if ch = CHR 0x5C then
        (case input of
           [] \<Rightarrow> None
         | esc # input \<Rightarrow>
             if esc = CHR ''u'' then
               (case ParseUnicodeEscape input out of
                  None \<Rightarrow> None
                | Some (out, input) \<Rightarrow> string_loop input out)
             else case simple_escape esc of
                    None \<Rightarrow> None
                  | Some c \<Rightarrow> string_loop input (out @ [c]))
      else if (of_char ch :: nat) < 0x20 then None
      else string_loop input (out @ [ch]))"
  by pat_completeness auto
termination
  by (relation "measure (\<lambda>(input, out). length input)") (auto dest: ParseUnicodeEscape_length)

definition ParseString :: "string \<Rightarrow> (string \<times> string) option" where
  "ParseString input =
     (case SkipWhitespace input of
        [] \<Rightarrow> None
      | c # rest \<Rightarrow> if c \<noteq> CHR 0x22 then None else string_loop rest [])"

lemma string_loop_length: "string_loop input out = Some (out', rest) \<Longrightarrow> length rest < length input"
proof (induction "length input" arbitrary: input out rule: less_induct)
  case less
  then obtain ch inp where input: "input = ch # inp" by (cases input) auto
  have IH: "length rest < length i" if "length i < length input" "string_loop i o' = Some (out', rest)" for i o'
    using less.hyps [OF that(1) that(2)] .
  consider "ch = CHR 0x22" | "ch = CHR 0x5C" | "ch \<noteq> CHR 0x22" "ch \<noteq> CHR 0x5C" by blast
  then show ?case
  proof cases
    case 1
    then show ?thesis using less.prems by (simp add: input)
  next
    case 2
    then obtain esc inp' where inp: "inp = esc # inp'" using less.prems by (cases inp) (auto simp: input)
    obtain i o' where "string_loop i o' = Some (out', rest)" "length i \<le> length inp'"
    proof (cases "esc = CHR ''u''")
      case True
      then obtain o' i where u: "ParseUnicodeEscape inp' out = Some (o', i)" "string_loop i o' = Some (out', rest)"
        using less.prems 2 by (auto simp: input inp split: option.splits)
      with ParseUnicodeEscape_length [OF u(1)] that show thesis by simp
    next
      case False
      then obtain c where "string_loop inp' (out @ [c]) = Some (out', rest)"
        using less.prems 2 by (auto simp: input inp split: option.splits)
      then show thesis by (rule that) simp
    qed
    then show ?thesis using IH [of i o'] by (simp add: input inp)
  next
    case 3
    then have "string_loop inp (out @ [ch]) = Some (out', rest)"
      using less.prems by (auto simp: input split: if_splits)
    then show ?thesis using IH [of inp "out @ [ch]"] by (simp add: input)
  qed
qed

lemma length_SkipWhitespace: "length (SkipWhitespace input) \<le> length input"
  by (simp add: SkipWhitespace_def length_dropWhile_le)

lemma ParseString_length: "ParseString input = Some (out, rest) \<Longrightarrow> length rest < length input"
  using length_SkipWhitespace [of input]
  by (auto simp: ParseString_def split: list.splits if_splits dest!: string_loop_length)

lemma Consume_length: "Consume c input = Some rest \<Longrightarrow> length rest < length input"
  using length_SkipWhitespace [of input] by (auto simp: Consume_def split: list.splits if_splits)

section \<open>Reading back escaped strings\<close>

text \<open>The hexadecimal escape of a control character denotes that character.\<close>

definition control_escape_ok :: "nat \<Rightarrow> bool" where
  "control_escape_ok n \<longleftrightarrow>
     (case ParseUnicodeEscape (''00'' @ [hex_char (n div 16), hex_char (n mod 16)]) [] of
        Some (out, rest) \<Rightarrow> out = [char_of n] \<and> rest = [] | None \<Rightarrow> False)"

lemma control_escapes_ok: "list_all control_escape_ok [0..<32]"
  by code_simp

lemma hex_loop_append: "hex_loop n v input = Some (w, rest) \<Longrightarrow> hex_loop n v (input @ later) = Some (w, rest @ later)"
  by (induction n v input rule: hex_loop.induct) (auto split: option.splits)

lemma AppendUtf8_append: "AppendUtf8 cp [] = Some out \<Longrightarrow> AppendUtf8 cp pre = Some (pre @ out)"
  by (auto simp: AppendUtf8_def split: if_splits)

lemma control_escape:
  assumes "n < 32"
  shows "ParseUnicodeEscape (''00'' @ [hex_char (n div 16), hex_char (n mod 16)] @ rest) out =
    Some (out @ [char_of n], rest)"
proof -
  let ?h = "''00'' @ [hex_char (n div 16), hex_char (n mod 16)]"
  have "control_escape_ok n" using control_escapes_ok assms by (auto simp: list_all_iff)
  then have ok: "ParseUnicodeEscape ?h [] = Some ([char_of n], [])"
    by (simp add: control_escape_ok_def split: option.splits prod.splits)
  then obtain cp r where hex: "hex_loop 4 0 ?h = Some (cp, r)"
    by (auto simp: ParseUnicodeEscape_def ParseHex4_def split: option.splits if_splits)
  then have r: "r = []" using hex_loop_length [OF hex] by simp
  with hex have "ParseHex4 ?h = Some (cp, [])" by (simp add: ParseHex4_def)
  with ok have plain: "\<not> (0xD800 \<le> cp \<and> cp \<le> 0xDBFF)" "\<not> (0xDC00 \<le> cp \<and> cp \<le> 0xDFFF)"
    "AppendUtf8 cp [] = Some [char_of n]"
    by (auto simp: ParseUnicodeEscape_def split: option.splits if_splits)
  have "ParseHex4 (?h @ rest) = Some (cp, rest)"
    using hex_loop_append [OF hex, of rest] by (simp add: ParseHex4_def r)
  then show ?thesis using plain AppendUtf8_append [OF plain(3), of out]
    by (auto simp: ParseUnicodeEscape_def)
qed

lemma string_loop_escape: "string_loop (escape_char c @ rest) out = string_loop rest (out @ [c])"
proof -
  let ?n = "of_char c :: nat"
  let ?special = "{CHR 0x22, CHR 0x5C, CHR 0x08, CHR 0x0C, CHR 0x0A, CHR 0x0D, CHR 0x09}"
  have eq: "?n = of_char k \<longleftrightarrow> c = k" for k by (rule of_char_eq_iff)
  have code: "c = CHR 0x22 \<longleftrightarrow> ?n = 0x22" "c = CHR 0x5C \<longleftrightarrow> ?n = 0x5C" "c = CHR 0x08 \<longleftrightarrow> ?n = 0x08"
    "c = CHR 0x0C \<longleftrightarrow> ?n = 0x0C" "c = CHR 0x0A \<longleftrightarrow> ?n = 0x0A" "c = CHR 0x0D \<longleftrightarrow> ?n = 0x0D"
    "c = CHR 0x09 \<longleftrightarrow> ?n = 0x09"
    unfolding eq [symmetric] by simp_all
  consider "c \<in> ?special" | "c \<notin> ?special" "?n < 0x20" | "c \<notin> ?special" "0x20 \<le> ?n" by force
  then show ?thesis
  proof cases
    case 1
    then show ?thesis by (auto simp: escape_char_def simple_escape_def)
  next
    case 2
    then have "escape_char c = CHR 0x5C # CHR ''u'' # ''00'' @ [hex_char (?n div 16), hex_char (?n mod 16)]"
      by (simp add: escape_char_def code Let_def)
    then show ?thesis using control_escape [OF 2(2), of rest out] by simp
  next
    case 3
    then have "escape_char c = [c]" "c \<noteq> CHR 0x22" "c \<noteq> CHR 0x5C" "\<not> ?n < 0x20"
      by (simp_all add: escape_char_def code)
    then show ?thesis by simp
  qed
qed

lemma string_loop_escaped:
  "string_loop (JsonEscapeString s @ CHR 0x22 # rest) out = Some (out @ s, rest)"
proof (induction s arbitrary: out)
  case (Cons c s)
  then show ?case
    using string_loop_escape [of c "JsonEscapeString s @ CHR 0x22 # rest" out] by (simp add: JsonEscapeString_def)
qed (simp add: JsonEscapeString_def)

definition json_string :: "string \<Rightarrow> string" where
  "json_string s = CHR 0x22 # JsonEscapeString s @ [CHR 0x22]"

lemma ParseString_json_string: "ParseString (json_string s @ rest) = Some (s, rest)"
proof -
  have "\<not> isspace (CHR 0x22)" by code_simp
  then show ?thesis
    using string_loop_escaped [of s rest "[]"] by (simp add: ParseString_def SkipWhitespace_def json_string_def)
qed

text \<open>
  The benchmark's string reader undoes its escaping: whatever bytes a string holds, its escaped
  form between quotes is read back as that string, and the input behind it is left untouched.\<close>

theorem escaped_string_reads_back: "ParseString (json_string s @ rest) = Some (s, rest)"
  by (rule ParseString_json_string)

end
