(* ===== verification/Json_Skip.thy ===== *)
theory Json_Skip
  imports Json_Reader
begin

text \<open>
  The methods of \<open>JsonReader\<close> (\<open>bench/cache_bench.cpp\<close>) that pass over a value: \<open>SkipValue\<close>,
  \<open>SkipArray\<close> and \<open>SkipObject\<close>, with the number reader \<open>ParseUnsigned\<close>. The three call each other,
  with the input that the callee left as the argument of the next call, so they are defined with a
  bound on the depth of the calls. Three calls per character of the input are always enough
  (\<open>skip_stable\<close>); \<open>SkipValue\<close>, \<open>SkipArray\<close> and \<open>SkipObject\<close> are the functions with that bound, and
  they satisfy the code's recursion equations.

  The theory ends with the reader's meaning on JSON documents: the text of every document, with any
  white space between its tokens, is passed over exactly.
\<close>

section \<open>Unsigned numbers\<close>

definition number_tail :: "char \<Rightarrow> bool" where
  "number_tail c \<longleftrightarrow> c = CHR ''.'' \<or> c = CHR ''e'' \<or> c = CHR ''E'' \<or> c = CHR ''-'' \<or> c = CHR ''+''"

fun unsigned_loop :: "size_t \<Rightarrow> string \<Rightarrow> (size_t \<times> string) option" where
  "unsigned_loop value [] = Some (value, [])"
| "unsigned_loop value (c # input) =
     (if is_digit c then
        let digit = of_char c - 48 in
        if (- 1 - digit) div 10 < value then None
        else unsigned_loop (value * 10 + digit) input
      else Some (value, c # input))"

definition ParseUnsigned :: "string \<Rightarrow> (size_t \<times> string) option" where
  "ParseUnsigned input =
     (let input = SkipWhitespace input in
      case input of
        [] \<Rightarrow> None
      | c # _ \<Rightarrow>
          if \<not> is_digit c then None
          else case unsigned_loop 0 input of
                 None \<Rightarrow> None
               | Some (value, input) \<Rightarrow>
                   (case input of
                      [] \<Rightarrow> Some (value, input)
                    | next # _ \<Rightarrow> if number_tail next then None else Some (value, input)))"

section \<open>Values that are passed over\<close>

text \<open>
  The end of a pass through the loops over the items of an array or an object: the closing bracket
  ends the loop, a comma starts the next pass, anything else is an error.
\<close>

definition after_item :: "char \<Rightarrow> string \<Rightarrow> (bool \<times> string) option" where
  "after_item close input =
     (let input = SkipWhitespace input in
      case Consume close input of
        Some rest \<Rightarrow> Some (True, rest)
      | None \<Rightarrow> map_option (Pair False) (Consume CHR '','' input))"

definition skip_scalar :: "char \<Rightarrow> string \<Rightarrow> string option" where
  "skip_scalar ch input =
     (if ch = CHR ''t'' \<and> take 4 input = ''true'' then Some (drop 4 input)
      else if ch = CHR ''f'' \<and> take 5 input = ''false'' then Some (drop 5 input)
      else if ch = CHR ''n'' \<and> take 4 input = ''null'' then Some (drop 4 input)
      else if ch = CHR ''-'' \<or> is_digit ch then
        Some (dropWhile (\<lambda>c. is_digit c \<or> number_tail c) (drop 1 input))
      else None)"

fun skip_value :: "nat \<Rightarrow> string \<Rightarrow> string option"
and skip_array :: "nat \<Rightarrow> string \<Rightarrow> string option"
and skip_elements :: "nat \<Rightarrow> string \<Rightarrow> string option"
and skip_object :: "nat \<Rightarrow> string \<Rightarrow> string option"
and skip_members :: "nat \<Rightarrow> string \<Rightarrow> string option" where
  "skip_value 0 input = None"
| "skip_value (Suc n) input =
     (let input = SkipWhitespace input in
      case input of
        [] \<Rightarrow> None
      | ch # _ \<Rightarrow>
          if ch = CHR 0x22 then map_option snd (ParseString input)
          else if ch = CHR ''{'' then skip_object n input
          else if ch = CHR ''['' then skip_array n input
          else skip_scalar ch input)"
| "skip_array 0 input = None"
| "skip_array (Suc n) input =
     (case Consume CHR ''['' input of
        None \<Rightarrow> None
      | Some input \<Rightarrow>
          let input = SkipWhitespace input in
          case Consume CHR '']'' input of
            Some rest \<Rightarrow> Some rest
          | None \<Rightarrow> skip_elements n input)"
| "skip_elements 0 input = None"
| "skip_elements (Suc n) input =
     (case skip_value n input of
        None \<Rightarrow> None
      | Some input \<Rightarrow>
          (case after_item CHR '']'' input of
             None \<Rightarrow> None
           | Some (stop, input) \<Rightarrow> if stop then Some input else skip_elements n input))"
| "skip_object 0 input = None"
| "skip_object (Suc n) input =
     (case Consume CHR ''{'' input of
        None \<Rightarrow> None
      | Some input \<Rightarrow>
          let input = SkipWhitespace input in
          case Consume CHR ''}'' input of
            Some rest \<Rightarrow> Some rest
          | None \<Rightarrow> skip_members n input)"
| "skip_members 0 input = None"
| "skip_members (Suc n) input =
     (case ParseString input of
        None \<Rightarrow> None
      | Some (key, input) \<Rightarrow>
          (case Consume CHR '':'' input of
             None \<Rightarrow> None
           | Some input \<Rightarrow>
               (case skip_value n input of
                  None \<Rightarrow> None
                | Some input \<Rightarrow>
                    (case after_item CHR ''}'' input of
                       None \<Rightarrow> None
                     | Some (stop, input) \<Rightarrow> if stop then Some input else skip_members n input))))"

definition SkipValue :: "string \<Rightarrow> string option" where
  "SkipValue input = skip_value (3 * length input + 1) input"

definition SkipArray :: "string \<Rightarrow> string option" where
  "SkipArray input = skip_array (3 * length input + 1) input"

definition SkipObject :: "string \<Rightarrow> string option" where
  "SkipObject input = skip_object (3 * length input + 1) input"

definition skip_elements_loop :: "string \<Rightarrow> string option" where
  "skip_elements_loop input = skip_elements (3 * length input + 2) input"

definition skip_members_loop :: "string \<Rightarrow> string option" where
  "skip_members_loop input = skip_members (3 * length input + 2) input"

definition AtEnd :: "string \<Rightarrow> bool" where
  "AtEnd input \<longleftrightarrow> SkipWhitespace input = []"

section \<open>Progress\<close>

lemma after_item_length: "after_item close input = Some (stop, rest) \<Longrightarrow> length rest < length input"
  using length_SkipWhitespace [of input]
  by (auto simp: after_item_def Let_def split: option.splits dest!: Consume_length)

lemma skip_scalar_length: "skip_scalar ch (ch # cs) = Some rest \<Longrightarrow> length rest \<le> length cs"
  by (auto simp: skip_scalar_def length_dropWhile_le split: if_splits)

lemma skip_length:
  "skip_value n input = Some rest \<Longrightarrow> length rest < length input"
  "skip_array n input = Some rest \<Longrightarrow> length rest < length input"
  "skip_elements n input = Some rest \<Longrightarrow> length rest < length input"
  "skip_object n input = Some rest \<Longrightarrow> length rest < length input"
  "skip_members n input = Some rest \<Longrightarrow> length rest < length input"
proof (induction n arbitrary: input rest)
  case 0
  { case 1 then show ?case by simp next case 2 then show ?case by simp next case 3 then show ?case by simp
  next case 4 then show ?case by simp next case 5 then show ?case by simp }
next
  case (Suc n)
  note ws = length_SkipWhitespace
  { case 1
    then show ?case
      using ws [of input] Suc.IH(2,4) [of "SkipWhitespace input" rest]
      by (auto simp: Let_def split: list.splits if_splits dest!: ParseString_length
        skip_scalar_length)
  next case 2
    then obtain r where r: "Consume CHR ''['' input = Some r"
      "Consume CHR '']'' (SkipWhitespace r) = Some rest \<or> skip_elements n (SkipWhitespace r) = Some rest"
      by (auto simp: Let_def split: option.splits)
    then have "length rest < length (SkipWhitespace r)" by (auto dest: Consume_length Suc.IH(3))
    then show ?case using ws [of r] Consume_length [OF r(1)] by linarith
  next case 3
    then show ?case
      by (fastforce split: option.splits if_splits dest!: Suc.IH(1,3) after_item_length)
  next case 4
    then obtain r where r: "Consume CHR ''{'' input = Some r"
      "Consume CHR ''}'' (SkipWhitespace r) = Some rest \<or> skip_members n (SkipWhitespace r) = Some rest"
      by (auto simp: Let_def split: option.splits)
    then have "length rest < length (SkipWhitespace r)" by (auto dest: Consume_length Suc.IH(5))
    then show ?case using ws [of r] Consume_length [OF r(1)] by linarith
  next case 5
    then show ?case
      by (fastforce split: option.splits if_splits prod.splits
        dest!: Suc.IH(1,5) after_item_length ParseString_length Consume_length) }
qed

section \<open>The bound is enough\<close>

lemma skip_stable:
  "3 * length input + 1 \<le> n \<Longrightarrow> skip_value (Suc n) input = skip_value n input"
  "3 * length input \<le> n \<Longrightarrow> 1 \<le> n \<Longrightarrow> skip_array (Suc n) input = skip_array n input"
  "3 * length input + 2 \<le> n \<Longrightarrow> skip_elements (Suc n) input = skip_elements n input"
  "3 * length input \<le> n \<Longrightarrow> 1 \<le> n \<Longrightarrow> skip_object (Suc n) input = skip_object n input"
  "3 * length input + 2 \<le> n \<Longrightarrow> skip_members (Suc n) input = skip_members n input"
proof (induction n arbitrary: input)
  case 0
  { case 1 then show ?case by simp next case 2 then show ?case by simp next case 3 then show ?case by simp
  next case 4 then show ?case by simp next case 5 then show ?case by simp }
next
  case (Suc n)
  have shorter: "length (SkipWhitespace r) < length input" if "Consume c input = Some r" for c r input
    using Consume_length [OF that] length_SkipWhitespace [of r] by simp
  { case 1
    let ?ws = "SkipWhitespace input"
    have ws: "length ?ws \<le> length input" by (rule length_SkipWhitespace)
    show ?case
    proof (cases ?ws)
      case (Cons ch cs)
      then have "1 \<le> length ?ws" by simp
      then have "3 * length ?ws \<le> n" using ws 1 by linarith
      moreover from this \<open>1 \<le> length ?ws\<close> have "1 \<le> n" by linarith
      ultimately show ?thesis using Suc.IH(2,4) [of ?ws] by (auto simp: Let_def Cons simp del: skip_array.simps skip_object.simps)
    qed simp
  next case 2
    show ?case
    proof (cases "Consume CHR ''['' input")
      case (Some r)
      then have "3 * length (SkipWhitespace r) + 2 \<le> n" using shorter [OF Some] 2 by simp
      then show ?thesis using Suc.IH(3) [of "SkipWhitespace r"]
        by (simp add: Let_def Some del: skip_elements.simps split: option.splits)
    qed simp
  next case 3
    then have "skip_value (Suc n) input = skip_value n input" by (intro Suc.IH(1)) simp
    moreover have "skip_elements (Suc n) r = skip_elements n r"
      if "skip_value n input = Some i" "after_item CHR '']'' i = Some (stop, r)" for i stop r
      using skip_length(1) [OF that(1)] after_item_length [OF that(2)] 3 by (intro Suc.IH(3)) simp
    ultimately show ?case
      by (simp del: skip_value.simps split: option.splits prod.splits)
  next case 4
    show ?case
    proof (cases "Consume CHR ''{'' input")
      case (Some r)
      then have "3 * length (SkipWhitespace r) + 2 \<le> n" using shorter [OF Some] 4 by simp
      then show ?thesis using Suc.IH(5) [of "SkipWhitespace r"]
        by (simp add: Let_def Some del: skip_members.simps split: option.splits)
    qed simp
  next case 5
    have val_eq: "skip_value (Suc n) r = skip_value n r"
      if "ParseString input = Some (k, i)" "Consume CHR '':'' i = Some r" for k i r
      using ParseString_length [OF that(1)] Consume_length [OF that(2)] 5 by (intro Suc.IH(1)) simp
    have rest: "skip_members (Suc n) r = skip_members n r"
      if "ParseString input = Some (k, i)" "Consume CHR '':'' i = Some i'" "skip_value n i' = Some v"
        "after_item CHR ''}'' v = Some (stop, r)" for k i i' v stop r
      using ParseString_length [OF that(1)] Consume_length [OF that(2)] skip_length(1) [OF that(3)]
        after_item_length [OF that(4)] 5 by (intro Suc.IH(5)) simp
    show ?case
      using val_eq rest by (simp del: skip_value.simps split: option.splits prod.splits) }
qed

lemma stable_enough: "(\<And>m. b \<le> m \<Longrightarrow> f (Suc m) = f m) \<Longrightarrow> b \<le> n \<Longrightarrow> f n = f b"
proof (induction n)
  case (Suc n)
  then show ?case by (cases "b = Suc n") simp_all
qed simp

lemma skip_enough:
  "3 * length input + 1 \<le> n \<Longrightarrow> skip_value n input = SkipValue input"
  "3 * length input + 1 \<le> n \<Longrightarrow> skip_array n input = SkipArray input"
  "3 * length input + 1 \<le> n \<Longrightarrow> skip_object n input = SkipObject input"
  "3 * length input + 2 \<le> n \<Longrightarrow> skip_elements n input = skip_elements_loop input"
  "3 * length input + 2 \<le> n \<Longrightarrow> skip_members n input = skip_members_loop input"
  unfolding SkipValue_def SkipArray_def SkipObject_def skip_elements_loop_def skip_members_loop_def
  by (rule stable_enough [where f = "\<lambda>n. skip_value n input"] stable_enough [where f = "\<lambda>n. skip_array n input"]
      stable_enough [where f = "\<lambda>n. skip_object n input"] stable_enough [where f = "\<lambda>n. skip_elements n input"]
      stable_enough [where f = "\<lambda>n. skip_members n input"]; simp add: skip_stable
      del: skip_value.simps skip_array.simps skip_object.simps skip_elements.simps skip_members.simps)+

text \<open>The recursion equations of the code, without the bound.\<close>

lemma SkipValue_eq:
  "SkipValue input =
     (case SkipWhitespace input of
        [] \<Rightarrow> None
      | ch # cs \<Rightarrow>
          if ch = CHR 0x22 then map_option snd (ParseString (ch # cs))
          else if ch = CHR ''{'' then SkipObject (ch # cs)
          else if ch = CHR ''['' then SkipArray (ch # cs)
          else skip_scalar ch (ch # cs))"
proof -
  let ?n = "3 * length input + 1" and ?ws = "SkipWhitespace input"
  have "skip_object ?n ?ws = SkipObject ?ws" "skip_array ?n ?ws = SkipArray ?ws"
    using length_SkipWhitespace [of input] by (simp_all add: skip_enough del: skip_object.simps skip_array.simps)
  moreover have "SkipValue input = skip_value (Suc ?n) input" by (simp add: skip_enough del: skip_value.simps)
  ultimately show ?thesis by (auto simp: Let_def split: list.splits)
qed

lemma SkipArray_eq:
  "SkipArray input =
     (case Consume CHR ''['' input of
        None \<Rightarrow> None
      | Some input \<Rightarrow>
          (case Consume CHR '']'' (SkipWhitespace input) of
             Some rest \<Rightarrow> Some rest
           | None \<Rightarrow> skip_elements_loop (SkipWhitespace input)))"
proof -
  let ?n = "3 * length input + 1"
  have "skip_elements ?n (SkipWhitespace r) = skip_elements_loop (SkipWhitespace r)"
    if "Consume c input = Some r" for c r
    using Consume_length [OF that] length_SkipWhitespace [of r] by (intro skip_enough) simp
  moreover have "SkipArray input = skip_array (Suc ?n) input" by (simp add: skip_enough del: skip_array.simps)
  ultimately show ?thesis by (auto simp: Let_def split: option.splits)
qed

lemma SkipObject_eq:
  "SkipObject input =
     (case Consume CHR ''{'' input of
        None \<Rightarrow> None
      | Some input \<Rightarrow>
          (case Consume CHR ''}'' (SkipWhitespace input) of
             Some rest \<Rightarrow> Some rest
           | None \<Rightarrow> skip_members_loop (SkipWhitespace input)))"
proof -
  let ?n = "3 * length input + 1"
  have "skip_members ?n (SkipWhitespace r) = skip_members_loop (SkipWhitespace r)"
    if "Consume c input = Some r" for c r
    using Consume_length [OF that] length_SkipWhitespace [of r] by (intro skip_enough) simp
  moreover have "SkipObject input = skip_object (Suc ?n) input" by (simp add: skip_enough del: skip_object.simps)
  ultimately show ?thesis by (auto simp: Let_def split: option.splits)
qed

lemma skip_elements_loop_eq:
  "skip_elements_loop input =
     (case SkipValue input of
        None \<Rightarrow> None
      | Some input \<Rightarrow>
          (case after_item CHR '']'' input of
             None \<Rightarrow> None
           | Some (stop, input) \<Rightarrow> if stop then Some input else skip_elements_loop input))"
proof -
  define n where "n = 3 * length input + 2"
  have val_eq: "skip_value n input = SkipValue input" by (rule skip_enough) (simp add: n_def)
  have "skip_elements n r = skip_elements_loop r"
    if "SkipValue input = Some i" "after_item CHR '']'' i = Some (stop, r)" for i stop r
    using skip_length(1) [OF that(1) [folded val_eq]] after_item_length [OF that(2)] by (intro skip_enough) (simp add: n_def)
  moreover have "skip_elements_loop input = skip_elements (Suc n) input"
    by (simp add: skip_enough n_def del: skip_elements.simps)
  ultimately show ?thesis
    by (auto simp: val_eq simp del: skip_value.simps split: option.splits)
qed

lemma skip_members_loop_eq:
  "skip_members_loop input =
     (case ParseString input of
        None \<Rightarrow> None
      | Some (key, input) \<Rightarrow>
          (case Consume CHR '':'' input of
             None \<Rightarrow> None
           | Some input \<Rightarrow>
               (case SkipValue input of
                  None \<Rightarrow> None
                | Some input \<Rightarrow>
                    (case after_item CHR ''}'' input of
                       None \<Rightarrow> None
                     | Some (stop, input) \<Rightarrow> if stop then Some input else skip_members_loop input))))"
proof -
  define n where "n = 3 * length input + 2"
  have val_eq: "skip_value n r = SkipValue r"
    if "ParseString input = Some (k, i)" "Consume CHR '':'' i = Some r" for k i r
    using ParseString_length [OF that(1)] Consume_length [OF that(2)] by (intro skip_enough) (simp add: n_def)
  have "skip_members n r = skip_members_loop r"
    if "ParseString input = Some (k, i)" "Consume CHR '':'' i = Some i'" "SkipValue i' = Some v"
      "after_item CHR ''}'' v = Some (stop, r)" for k i i' v stop r
    using ParseString_length [OF that(1)] Consume_length [OF that(2)]
      skip_length(1) [OF that(3) [unfolded SkipValue_def]] after_item_length [OF that(4)]
    by (intro skip_enough) (simp add: n_def)
  moreover have "skip_members_loop input = skip_members (Suc n) input"
    by (simp add: skip_enough n_def del: skip_members.simps)
  ultimately show ?thesis
    using val_eq by (simp del: skip_value.simps split: option.splits prod.splits)
qed

lemma SkipValue_length: "SkipValue input = Some rest \<Longrightarrow> length rest < length input"
  unfolding SkipValue_def by (rule skip_length)

section \<open>Documents\<close>

text \<open>
  A JSON document. A number is its text; \<open>json_ok\<close> asks that it looks like one to the reader. The
  text of a document has the white space \<open>w\<close> before every token.
\<close>

datatype json =
    Jstring string
  | Jnumber string
  | Jtrue
  | Jfalse
  | Jnull
  | Jarray "json list"
  | Jobject "(string \<times> json) list"

definition number_ok :: "string \<Rightarrow> bool" where
  "number_ok t \<longleftrightarrow>
     t \<noteq> [] \<and> (hd t = CHR ''-'' \<or> is_digit (hd t)) \<and> list_all (\<lambda>c. is_digit c \<or> number_tail c) (tl t)"

fun json_ok :: "json \<Rightarrow> bool" where
  "json_ok (Jnumber t) = number_ok t"
| "json_ok (Jarray js) = list_all json_ok js"
| "json_ok (Jobject fields) = list_all (\<lambda>(k, j). json_ok j) fields"
| "json_ok _ = True"

fun comma_separated :: "string \<Rightarrow> string list \<Rightarrow> string" where
  "comma_separated w [] = []"
| "comma_separated w [t] = t"
| "comma_separated w (t # ts) = t @ w @ '','' @ comma_separated w ts"

fun json_text :: "string \<Rightarrow> json \<Rightarrow> string" where
  "json_text w (Jstring s) = w @ json_string s"
| "json_text w (Jnumber t) = w @ t"
| "json_text w Jtrue = w @ ''true''"
| "json_text w Jfalse = w @ ''false''"
| "json_text w Jnull = w @ ''null''"
| "json_text w (Jarray js) = w @ ''['' @ comma_separated w (map (json_text w) js) @ w @ '']''"
| "json_text w (Jobject fields) =
     w @ ''{'' @ comma_separated w (map (\<lambda>(k, j). w @ json_string k @ w @ '':'' @ json_text w j) fields) @ w @ ''}''"

definition json_field :: "string \<Rightarrow> string \<times> json \<Rightarrow> string" where
  "json_field w = (\<lambda>(k, j). w @ json_string k @ w @ '':'' @ json_text w j)"

lemma json_text_object:
  "json_text w (Jobject fields) = w @ ''{'' @ comma_separated w (map (json_field w) fields) @ w @ ''}''"
  by (simp add: json_field_def)

text \<open>What may follow a value: nothing that continues a number.\<close>

definition ends_number :: "string \<Rightarrow> bool" where
  "ends_number rest \<longleftrightarrow> (case rest of [] \<Rightarrow> True | c # _ \<Rightarrow> \<not> (is_digit c \<or> number_tail c))"

lemma space_codes: "isspace c \<Longrightarrow> (of_char c :: nat) \<in> {9, 10, 11, 12, 13, 32}"
  unfolding isspace_def Let_def by (simp, presburger)

lemma not_space [simp]:
  "\<not> isspace CHR 0x22" "\<not> isspace CHR ''{''" "\<not> isspace CHR ''}''" "\<not> isspace CHR ''[''"
  "\<not> isspace CHR '']''" "\<not> isspace CHR '',''" "\<not> isspace CHR '':''" "\<not> isspace CHR ''t''"
  "\<not> isspace CHR ''f''" "\<not> isspace CHR ''n''" "\<not> isspace CHR ''-''"
  by (simp_all add: isspace_def)

lemma digit_not_space [simp]: "is_digit c \<Longrightarrow> \<not> isspace c"
  by (auto simp: is_digit_def isspace_def Let_def)

lemma space_ends_number: "isspace c \<Longrightarrow> \<not> (is_digit c \<or> number_tail c)"
  by (auto simp: is_digit_def isspace_def number_tail_def Let_def)

lemma ends_number_append:
  "list_all isspace w \<Longrightarrow> \<not> (is_digit c \<or> number_tail c) \<Longrightarrow> ends_number (w @ c # rest)"
  by (cases w) (auto simp: ends_number_def dest: space_ends_number)

lemma closing_ends_number [simp]:
  "\<not> is_digit CHR ''}''" "\<not> number_tail CHR ''}''" "\<not> is_digit CHR '']''" "\<not> number_tail CHR '']''"
  "\<not> is_digit CHR '',''" "\<not> number_tail CHR '',''"
  by (simp_all add: is_digit_def number_tail_def)

lemma SkipWhitespace_append [simp]:
  "list_all isspace w \<Longrightarrow> SkipWhitespace (w @ rest) = SkipWhitespace rest"
  by (induction w) (auto simp: SkipWhitespace_def)

lemma SkipWhitespace_Cons [simp]: "\<not> isspace c \<Longrightarrow> SkipWhitespace (c # rest) = c # rest"
  by (simp add: SkipWhitespace_def)

lemma SkipWhitespace_idem [simp]: "SkipWhitespace (SkipWhitespace input) = SkipWhitespace input"
  by (simp add: SkipWhitespace_def dropWhile_idem)

lemma after_skip [simp]:
  "Consume c (SkipWhitespace input) = Consume c input"
  "ParseString (SkipWhitespace input) = ParseString input"
  "SkipValue (SkipWhitespace input) = SkipValue input"
  "after_item c (SkipWhitespace input) = after_item c input"
  by (simp_all add: Consume_def ParseString_def SkipValue_eq [of input] SkipValue_eq [of "SkipWhitespace input"]
    after_item_def)

lemma loops_after_skip [simp]:
  "skip_elements_loop (SkipWhitespace input) = skip_elements_loop input"
  "skip_members_loop (SkipWhitespace input) = skip_members_loop input"
  by (simp_all add: skip_elements_loop_eq [of input] skip_elements_loop_eq [of "SkipWhitespace input"]
    skip_members_loop_eq [of input] skip_members_loop_eq [of "SkipWhitespace input"])

lemma after_spaces [simp]:
  assumes "list_all isspace w"
  shows "Consume c (w @ rest) = Consume c rest" "ParseString (w @ rest) = ParseString rest"
    "SkipValue (w @ rest) = SkipValue rest" "after_item c (w @ rest) = after_item c rest"
  using SkipWhitespace_append [OF assms, of rest]
  by (metis after_skip)+

lemma Consume_Cons [simp]: "\<not> isspace c \<Longrightarrow> Consume e (c # rest) = (if c = e then Some rest else None)"
  by (simp add: Consume_def)

lemma after_item_simps [simp]:
  "\<not> isspace c \<Longrightarrow> after_item c (c # rest) = Some (True, rest)"
  "c \<noteq> CHR '','' \<Longrightarrow> after_item c (CHR '','' # rest) = Some (False, rest)"
  by (simp_all add: after_item_def)

lemma comma_separated_Cons:
  "comma_separated w (t # ts) = t @ (if ts = [] then [] else w @ '','' @ comma_separated w ts)"
  by (cases ts) simp_all

lemma skip_scalar_number:
  assumes "number_ok t" "ends_number rest"
  shows "skip_scalar (hd t) (t @ rest) = Some rest"
proof -
  obtain c cs where t: "t = c # cs" using assms(1) by (auto simp: number_ok_def neq_Nil_conv)
  let ?p = "\<lambda>c. is_digit c \<or> number_tail c"
  have "\<forall>x \<in> set cs. ?p x" using assms(1) by (auto simp: t number_ok_def list_all_iff)
  then have "dropWhile ?p (cs @ rest) = dropWhile ?p rest" by (simp add: dropWhile_append2)
  also have "\<dots> = rest" using assms(2) by (cases rest) (auto simp: ends_number_def)
  finally have "dropWhile ?p (cs @ rest) = rest" .
  moreover have "c = CHR ''-'' \<or> is_digit c" using assms(1) by (simp add: t number_ok_def)
  moreover have "\<not> is_digit CHR ''t''" "\<not> is_digit CHR ''f''" "\<not> is_digit CHR ''n''"
    by (simp_all add: is_digit_def)
  ultimately show ?thesis by (auto simp: t skip_scalar_def)
qed

section \<open>Loops over items\<close>

text \<open>
  Five loops of the code read items up to a closing bracket and differ only in what they do with an
  item: those of \<open>SkipArray\<close>, \<open>SkipObject\<close>, \<open>ParseScenarioObject\<close>, \<open>ParseScenarioArray\<close> and
  \<open>ParseScenarioMatrix\<close>. If the body reads the text of every item as a step on the loop's variables
  then the loop reads a comma-separated list of items as the sequence of the steps.
\<close>

fun run_steps :: "('s \<Rightarrow> 'a \<Rightarrow> 's option) \<Rightarrow> 's \<Rightarrow> 'a list \<Rightarrow> 's option" where
  "run_steps step s [] = Some s"
| "run_steps step s (x # xs) = (case step s x of None \<Rightarrow> None | Some s \<Rightarrow> run_steps step s xs)"

lemma run_steps_always: "run_steps (\<lambda>s x. Some ()) () xs = Some ()"
  by (induction xs) simp_all

locale item_loop =
  fixes close :: char
    and loop :: "'s \<Rightarrow> string \<Rightarrow> 'r option"
    and item :: "'s \<Rightarrow> string \<Rightarrow> ('s \<times> string) option"
    and finish :: "'s \<Rightarrow> string \<Rightarrow> 'r option"
  assumes closes: "close = CHR '']'' \<or> close = CHR ''}''"
    and loop_eq: "loop s input =
      (case item s input of
         None \<Rightarrow> None
       | Some (s', input') \<Rightarrow>
           (case after_item close input' of
              None \<Rightarrow> None
            | Some (stop, input'') \<Rightarrow> if stop then finish s' input'' else loop s' input''))"
begin

lemma after_last: "list_all isspace w \<Longrightarrow> after_item close (w @ close # rest) = Some (True, rest)"
  using closes by auto

lemma after_other: "list_all isspace w \<Longrightarrow> after_item close (w @ CHR '','' # rest) = Some (False, rest)"
  using closes by auto

lemma ends_item:
  "list_all isspace w \<Longrightarrow> ends_number (w @ close # rest)" "list_all isspace w \<Longrightarrow> ends_number (w @ CHR '','' # rest)"
  using closes by (auto intro: ends_number_append)

lemma reads_items:
  assumes w: "list_all isspace w" and "xs \<noteq> []"
    and items: "\<And>x s rest. x \<in> set xs \<Longrightarrow> ends_number rest \<Longrightarrow>
      item s (item_text x @ rest) = map_option (\<lambda>s. (s, rest)) (step s x)"
  shows "loop s (comma_separated w (map item_text xs) @ w @ close # rest) =
    (case run_steps step s xs of None \<Rightarrow> None | Some s \<Rightarrow> finish s rest)"
  using assms(2) items
proof (induction xs arbitrary: s)
  case (Cons x xs)
  note item = Cons.prems(2) [of x, OF list.set_intros(1) ends_item(1) [OF w]]
    Cons.prems(2) [of x, OF list.set_intros(1) ends_item(2) [OF w]]
  show ?case
  proof (cases "xs = []")
    case True
    then show ?thesis
      using item(1) by (subst loop_eq) (cases "step s x"; simp add: comma_separated_Cons after_last [OF w])
  next
    case False
    have "loop s' (comma_separated w (map item_text xs) @ w @ close # rest) =
        (case run_steps step s' xs of None \<Rightarrow> None | Some s \<Rightarrow> finish s rest)" for s'
      by (rule Cons.IH [OF False]) (rule Cons.prems(2) [OF list.set_intros(2)])
    then show ?thesis
      using item(2) False
      by (subst loop_eq) (cases "step s x"; simp add: comma_separated_Cons after_other [OF w])
  qed
qed simp

end

interpretation elements: item_loop "CHR '']''" "\<lambda>_ :: unit. skip_elements_loop"
    "\<lambda>_ input. map_option (Pair ()) (SkipValue input)" "\<lambda>_. Some"
  by unfold_locales (simp, subst skip_elements_loop_eq, auto split: option.splits)

interpretation members: item_loop "CHR ''}''" "\<lambda>_ :: unit. skip_members_loop"
    "\<lambda>_ input. case ParseString input of None \<Rightarrow> None | Some (key, input) \<Rightarrow>
       (case Consume CHR '':'' input of None \<Rightarrow> None | Some input \<Rightarrow> map_option (Pair ()) (SkipValue input))"
    "\<lambda>_. Some"
  by unfold_locales (simp, subst skip_members_loop_eq, auto split: option.splits)

section \<open>Documents are passed over\<close>

lemma skip_elements_json:
  assumes w: "list_all isspace w"
    and skips: "\<And>j rest. j \<in> set js \<Longrightarrow> ends_number rest \<Longrightarrow> SkipValue (json_text w j @ rest) = Some rest"
    and "js \<noteq> []"
  shows "skip_elements_loop (comma_separated w (map (json_text w) js) @ w @ CHR '']'' # rest) = Some rest"
  using elements.reads_items [OF w assms(3), where step = "\<lambda>s x. Some s" and item_text = "json_text w" and rest = rest] skips
  by (simp add: run_steps_always)

lemma skip_members_json:
  assumes w: "list_all isspace w"
    and skips: "\<And>k j rest. (k, j) \<in> set fields \<Longrightarrow> ends_number rest \<Longrightarrow> SkipValue (json_text w j @ rest) = Some rest"
    and "fields \<noteq> []"
  shows "skip_members_loop (comma_separated w (map (json_field w) fields) @ w @ CHR ''}'' # rest) = Some rest"
proof -
  have "(case ParseString (json_field w f @ rest) of None \<Rightarrow> None | Some (key, input) \<Rightarrow>
      (case Consume CHR '':'' input of None \<Rightarrow> None | Some input \<Rightarrow> map_option (Pair ()) (SkipValue input))) =
      Some ((), rest)" if "f \<in> set fields" "ends_number rest" for f rest
    using w skips [of "fst f" "snd f" rest] that by (cases f) (simp add: json_field_def ParseString_json_string)
  then show ?thesis
    using members.reads_items [OF w assms(3), where step = "\<lambda>s x. Some s" and item_text = "json_field w" and rest = rest]
    by (simp add: run_steps_always)
qed

text \<open>The first character of an item's text, behind the white space, is not a closing bracket.\<close>

definition opens :: "string \<Rightarrow> bool" where
  "opens t \<longleftrightarrow> (case SkipWhitespace t of [] \<Rightarrow> False | c # _ \<Rightarrow> c \<noteq> CHR '']'' \<and> c \<noteq> CHR ''}'')"

lemma opens_Consume: "opens t \<Longrightarrow> Consume CHR '']'' t = None" "opens t \<Longrightarrow> Consume CHR ''}'' t = None"
  by (auto simp: opens_def Consume_def split: list.splits)

lemma opens_json_text:
  assumes "list_all isspace w" "json_ok j"
  shows "opens (json_text w j @ rest)"
proof (cases j)
  case (Jnumber t)
  obtain c cs where t: "t = c # cs" "c = CHR ''-'' \<or> is_digit c"
    using assms(2) by (cases t) (auto simp: Jnumber number_ok_def)
  then have "\<not> isspace c" "c \<noteq> CHR '']''" "c \<noteq> CHR ''}''" by (auto simp: is_digit_def)
  then show ?thesis using assms(1) by (simp add: opens_def Jnumber t(1))
qed (use assms in \<open>simp_all add: opens_def json_string_def\<close>)

lemma opens_field: "list_all isspace w \<Longrightarrow> opens (json_field w f @ rest)"
  by (cases f) (simp add: opens_def json_field_def json_string_def)

lemma SkipValue_json:
  assumes w: "list_all isspace w"
  shows "json_ok j \<Longrightarrow> ends_number rest \<Longrightarrow> SkipValue (json_text w j @ rest) = Some rest"
proof (induction j arbitrary: rest)
  case (Jstring s)
  then show ?case using w ParseString_json_string [of s rest]
    by (subst SkipValue_eq) (simp add: json_string_def)
next
  case (Jnumber t)
  then obtain c cs where t: "t = c # cs" by (auto simp: number_ok_def neq_Nil_conv)
  have c: "c = CHR ''-'' \<or> is_digit c" using Jnumber.prems(1) by (simp add: number_ok_def t)
  then have "\<not> isspace c" "c \<noteq> CHR 0x22" "c \<noteq> CHR ''{''" "c \<noteq> CHR ''[''" by (auto simp: is_digit_def)
  then show ?case using w skip_scalar_number [of t rest] Jnumber.prems
    by (subst SkipValue_eq) (simp add: t)
next
  case (Jarray js)
  show ?case
  proof (cases "js = []")
    case False
    then obtain j js' where js: "js = j # js'" by (cases js) auto
    have "opens (comma_separated w (map (json_text w) js) @ x)" for x
      using opens_json_text [OF w, of j] Jarray.prems(1) by (simp add: js comma_separated_Cons)
    note open_first = opens_Consume(1) [OF this]
    have "skip_elements_loop (comma_separated w (map (json_text w) js) @ w @ CHR '']'' # rest) = Some rest"
      by (rule skip_elements_json [OF w Jarray.IH False]) (use Jarray.prems in \<open>auto simp: list_all_iff\<close>)
    then show ?thesis using w open_first
      by (subst SkipValue_eq, simp, subst SkipArray_eq, simp)
  qed (use w in \<open>subst SkipValue_eq, simp, subst SkipArray_eq, simp\<close>)
next
  case (Jobject fields)
  show ?case unfolding json_text_object
  proof (cases "fields = []")
    case False
    then obtain f fields' where fields: "fields = f # fields'" by (cases fields) auto
    have "opens (comma_separated w (map (json_field w) fields) @ x)" for x
      using opens_field [OF w, of f] by (simp add: fields comma_separated_Cons)
    note open_first = opens_Consume(2) [OF this]
    have "skip_members_loop (comma_separated w (map (json_field w) fields) @ w @ CHR ''}'' # rest) = Some rest"
      by (rule skip_members_json [OF w _ False], rule Jobject.IH) (use Jobject.prems in \<open>auto simp: list_all_iff\<close>)
    then show "SkipValue ((w @ ''{'' @ comma_separated w (map (json_field w) fields) @ w @ ''}'') @ rest) = Some rest"
      using w open_first by (subst SkipValue_eq, simp, subst SkipObject_eq, simp)
  qed (use w in \<open>subst SkipValue_eq, simp, subst SkipObject_eq, simp\<close>)
qed (use w in \<open>(subst SkipValue_eq, simp add: skip_scalar_def)+\<close>)

end
