(* ===== verification/Scenario_Matrix.thy ===== *)
theory Scenario_Matrix
  imports Json_Skip
begin

text \<open>
  The scenario matrix of the benchmark (\<open>bench/cache_bench.cpp\<close>): \<open>ParseScenarioObject\<close>,
  \<open>ParseScenarioArray\<close> and \<open>ParseScenarioMatrix\<close>, and what they read from a document.
  \<open>matrix_of\<close> is the meaning of a document as a list of scenarios; the parser computes it on every
  text of the document.
\<close>

record ScenarioSpec =
  spec_name :: string
  spec_requests :: size_t

section \<open>Parsing\<close>

text \<open>
  The loop of \<open>ParseScenarioObject\<close>; its variables \<open>found_name\<close>, \<open>name\<close> and \<open>requests\<close> are the
  arguments. A scenario is pushed to the vector when the object is complete.
\<close>

text \<open>One pass: the key, the colon, and the value that the key selects.\<close>

definition scenario_field ::
    "bool \<Rightarrow> string \<Rightarrow> size_t \<Rightarrow> string \<Rightarrow> (bool \<times> string \<times> size_t \<times> string) option" where
  "scenario_field found_name name requests input =
     (case ParseString input of
        None \<Rightarrow> None
      | Some (key, input) \<Rightarrow>
          (case Consume CHR '':'' input of
             None \<Rightarrow> None
           | Some input \<Rightarrow>
               if key = ''name'' then
                 map_option (\<lambda>(name, input). (True, name, requests, input)) (ParseString input)
               else if key = ''requests'' then
                 map_option (\<lambda>(requests, input). (found_name, name, requests, input)) (ParseUnsigned input)
               else map_option (\<lambda>input. (found_name, name, requests, input)) (SkipValue input)))"

lemma unsigned_loop_length: "unsigned_loop value input = Some (v, rest) \<Longrightarrow> length rest \<le> length input"
  by (induction "value" input rule: unsigned_loop.induct) (auto simp: Let_def split: if_splits)

lemma ParseUnsigned_length: "ParseUnsigned input = Some (v, rest) \<Longrightarrow> length rest \<le> length input"
  using length_SkipWhitespace [of input]
  by (auto simp: ParseUnsigned_def Let_def split: list.splits if_splits option.splits dest!: unsigned_loop_length)

lemma scenario_field_length:
  "scenario_field f nm r input = Some (f', nm', r', rest) \<Longrightarrow> length rest < length input"
  by (auto simp: scenario_field_def split: option.splits if_splits dest!: ParseString_length Consume_length
    ParseUnsigned_length SkipValue_length)

function scenario_loop :: "bool \<Rightarrow> string \<Rightarrow> size_t \<Rightarrow> string \<Rightarrow> (ScenarioSpec \<times> string) option" where
  "scenario_loop found_name name requests input =
     (case scenario_field found_name name requests input of
        None \<Rightarrow> None
      | Some (found_name, name, requests, input) \<Rightarrow>
          (case after_item CHR ''}'' input of
             None \<Rightarrow> None
           | Some (stop, input) \<Rightarrow>
               if stop then
                 (if \<not> found_name then None
                  else Some (\<lparr>spec_name = name, spec_requests = requests\<rparr>, input))
               else scenario_loop found_name name requests input))"
  by pat_completeness auto
termination
  by (relation "measure (\<lambda>(f, nm, r, input). length input)")
    (auto dest!: scenario_field_length after_item_length)

declare scenario_loop.simps [simp del]

definition ParseScenarioObject :: "size_t \<Rightarrow> string \<Rightarrow> (ScenarioSpec \<times> string) option" where
  "ParseScenarioObject default_requests input =
     (case Consume CHR ''{'' input of
        None \<Rightarrow> None
      | Some input \<Rightarrow>
          let input = SkipWhitespace input in
          case Consume CHR ''}'' input of
            Some _ \<Rightarrow> None
          | None \<Rightarrow> scenario_loop False [] default_requests input)"

lemma scenario_loop_length: "scenario_loop f nm r input = Some (spec, rest) \<Longrightarrow> length rest < length input"
proof (induction f nm r input rule: scenario_loop.induct)
  case (1 f nm r input)
  from "1.prems" obtain f' nm' r' i stop i' where
    step: "scenario_field f nm r input = Some (f', nm', r', i)" "after_item CHR ''}'' i = Some (stop, i')"
    and "stop \<and> i' = rest \<or> \<not> stop \<and> scenario_loop f' nm' r' i' = Some (spec, rest)"
    by (subst (asm) scenario_loop.simps) (auto split: option.splits if_splits)
  then show ?case
    using "1.IH" [OF step(1) refl refl refl step(2) refl] scenario_field_length [OF step(1)] after_item_length [OF step(2)]
    by auto
qed

lemma ParseScenarioObject_length:
  "ParseScenarioObject d input = Some (spec, rest) \<Longrightarrow> length rest < length input"
proof -
  assume "ParseScenarioObject d input = Some (spec, rest)"
  then obtain i where i: "Consume CHR ''{'' input = Some i" "scenario_loop False [] d (SkipWhitespace i) = Some (spec, rest)"
    by (auto simp: ParseScenarioObject_def Let_def split: option.splits)
  show ?thesis
    using scenario_loop_length [OF i(2)] Consume_length [OF i(1)] length_SkipWhitespace [of i] by linarith
qed

function scenarios_loop :: "ScenarioSpec list \<Rightarrow> size_t \<Rightarrow> string \<Rightarrow> (ScenarioSpec list \<times> string) option" where
  "scenarios_loop scenarios default_requests input =
     (case ParseScenarioObject default_requests input of
        None \<Rightarrow> None
      | Some (spec, input) \<Rightarrow>
          (case after_item CHR '']'' input of
             None \<Rightarrow> None
           | Some (stop, input) \<Rightarrow>
               if stop then Some (scenarios @ [spec], input)
               else scenarios_loop (scenarios @ [spec]) default_requests input))"
  by pat_completeness auto
termination
  by (relation "measure (\<lambda>(s, d, input). length input)")
    (auto dest!: ParseScenarioObject_length after_item_length)

declare scenarios_loop.simps [simp del]

definition ParseScenarioArray :: "ScenarioSpec list \<Rightarrow> size_t \<Rightarrow> string \<Rightarrow> (ScenarioSpec list \<times> string) option" where
  "ParseScenarioArray scenarios default_requests input =
     (case Consume CHR ''['' input of
        None \<Rightarrow> None
      | Some input \<Rightarrow>
          let input = SkipWhitespace input in
          case Consume CHR '']'' input of
            Some rest \<Rightarrow> Some (scenarios, rest)
          | None \<Rightarrow> scenarios_loop scenarios default_requests input)"

lemma scenarios_loop_length: "scenarios_loop s d input = Some (s', rest) \<Longrightarrow> length rest < length input"
proof (induction s d input rule: scenarios_loop.induct)
  case (1 s d input)
  from "1.prems" obtain spec i stop i' where
    step: "ParseScenarioObject d input = Some (spec, i)" "after_item CHR '']'' i = Some (stop, i')"
    and "stop \<and> i' = rest \<or> \<not> stop \<and> scenarios_loop (s @ [spec]) d i' = Some (s', rest)"
    by (subst (asm) scenarios_loop.simps) (auto split: option.splits if_splits)
  then show ?case
    using "1.IH" [OF step(1) refl step(2) refl] ParseScenarioObject_length [OF step(1)] after_item_length [OF step(2)]
    by auto
qed

lemma ParseScenarioArray_length:
  "ParseScenarioArray s d input = Some (s', rest) \<Longrightarrow> length rest < length input"
proof -
  assume "ParseScenarioArray s d input = Some (s', rest)"
  then obtain i where i: "Consume CHR ''['' input = Some i"
    "Consume CHR '']'' (SkipWhitespace i) = Some rest \<or> scenarios_loop s d (SkipWhitespace i) = Some (s', rest)"
    by (auto simp: ParseScenarioArray_def Let_def split: option.splits)
  then have "length rest < length (SkipWhitespace i)"
    using Consume_length [of "CHR '']''" "SkipWhitespace i" rest] scenarios_loop_length by blast
  then show ?thesis using Consume_length [OF i(1)] length_SkipWhitespace [of i] by linarith
qed

text \<open>One pass of the loop of \<open>ParseScenarioMatrix\<close>, then the loop.\<close>

definition matrix_field ::
    "bool \<Rightarrow> ScenarioSpec list \<Rightarrow> size_t \<Rightarrow> string \<Rightarrow> (bool \<times> ScenarioSpec list \<times> string) option" where
  "matrix_field found_scenarios scenarios default_requests input =
     (case ParseString input of
        None \<Rightarrow> None
      | Some (key, input) \<Rightarrow>
          (case Consume CHR '':'' input of
             None \<Rightarrow> None
           | Some input \<Rightarrow>
               if key = ''scenarios'' then
                 (if found_scenarios then None
                  else map_option (\<lambda>(scenarios, input). (True, scenarios, input))
                         (ParseScenarioArray scenarios default_requests input))
               else map_option (\<lambda>input. (found_scenarios, scenarios, input)) (SkipValue input)))"

lemma matrix_field_length:
  "matrix_field f s d input = Some (f', s', rest) \<Longrightarrow> length rest < length input"
  by (auto simp: matrix_field_def split: option.splits if_splits dest!: ParseString_length Consume_length
    ParseScenarioArray_length SkipValue_length)

function matrix_loop ::
    "bool \<Rightarrow> ScenarioSpec list \<Rightarrow> size_t \<Rightarrow> string \<Rightarrow> (bool \<times> ScenarioSpec list \<times> string) option" where
  "matrix_loop found_scenarios scenarios default_requests input =
     (case matrix_field found_scenarios scenarios default_requests input of
        None \<Rightarrow> None
      | Some (found_scenarios, scenarios, input) \<Rightarrow>
          (case after_item CHR ''}'' input of
             None \<Rightarrow> None
           | Some (stop, input) \<Rightarrow>
               if stop then Some (found_scenarios, scenarios, input)
               else matrix_loop found_scenarios scenarios default_requests input))"
  by pat_completeness auto
termination
  by (relation "measure (\<lambda>(f, s, d, input). length input)")
    (auto dest!: matrix_field_length after_item_length)

declare matrix_loop.simps [simp del]

definition ParseScenarioMatrix :: "string \<Rightarrow> size_t \<Rightarrow> ScenarioSpec list option" where
  "ParseScenarioMatrix contents default_requests =
     (case Consume CHR ''{'' contents of
        None \<Rightarrow> None
      | Some input \<Rightarrow>
          let input = SkipWhitespace input in
          case Consume CHR ''}'' input of
            Some _ \<Rightarrow> None
          | None \<Rightarrow>
              (case matrix_loop False [] default_requests input of
                 None \<Rightarrow> None
               | Some (found_scenarios, scenarios, input) \<Rightarrow>
                   if \<not> found_scenarios \<or> scenarios = [] then None
                   else if AtEnd input then Some scenarios else None))"

section \<open>The meaning of a document\<close>

text \<open>A \<open>requests\<close> field holds decimal digits that fit 64 bits, without sign, fraction or exponent.\<close>

fun natural_of :: "json \<Rightarrow> size_t option" where
  "natural_of (Jnumber t) =
     (if list_all is_digit t \<and> digits_value t < 2 ^ 64 then Some (of_int (digits_value t)) else None)"
| "natural_of _ = None"

fun string_of :: "json \<Rightarrow> string option" where
  "string_of (Jstring s) = Some s"
| "string_of _ = None"

text \<open>
  A scenario is an object with a \<open>name\<close>. Of several members with one key the last counts, but each
  has to be of the right kind; other members are ignored, and \<open>requests\<close> is optional.
\<close>

fun scenario_of :: "size_t \<Rightarrow> json \<Rightarrow> ScenarioSpec option" where
  "scenario_of default_requests (Jobject members) =
     (let last_value = map_of (rev members) in
      if list_all (\<lambda>(k, j). (k = ''name'' \<longrightarrow> string_of j \<noteq> None) \<and> (k = ''requests'' \<longrightarrow> natural_of j \<noteq> None)) members
      then case last_value ''name'' of
             None \<Rightarrow> None
           | Some j \<Rightarrow>
               Some \<lparr>spec_name = the (string_of j),
                     spec_requests = (case last_value ''requests'' of
                                        None \<Rightarrow> default_requests
                                      | Some j \<Rightarrow> the (natural_of j))\<rparr>
      else None)"
| "scenario_of default_requests _ = None"

text \<open>
  A scenario matrix is an object with exactly one field \<open>scenarios\<close>, a non-empty array of scenarios.
\<close>

fun matrix_of :: "size_t \<Rightarrow> json \<Rightarrow> ScenarioSpec list option" where
  "matrix_of default_requests (Jobject members) =
     (case map snd (filter (\<lambda>(k, j). k = ''scenarios'') members) of
        [Jarray (j # js)] \<Rightarrow> those (map (scenario_of default_requests) (j # js))
      | _ \<Rightarrow> None)"
| "matrix_of default_requests _ = None"

section \<open>Numbers\<close>

lemma foldl_digits_mono:
  "list_all is_digit ds \<Longrightarrow> 0 \<le> n \<Longrightarrow> n \<le> foldl (\<lambda>v c. 10 * v + (of_char c - 48)) n ds" for n :: int
proof (induction ds arbitrary: n)
  case (Cons c ds)
  have "48 \<le> (of_char c :: int)"
    using Cons.prems(1) by (simp add: is_digit_def flip: of_nat_of_char [where 'a = int])
  then show ?case using Cons.IH [of "10 * n + (of_char c - 48)"] Cons.prems by simp
qed simp

lemma unsigned_overflow:
  assumes "0 \<le> d" "d \<le> 9" "0 \<le> v" "v < 2 ^ 64"
  shows "(- 1 - of_int d) div 10 < (of_int v :: size_t) \<longleftrightarrow> 2 ^ 64 \<le> 10 * v + d"
proof -
  have "uint (- 1 - of_int d :: size_t) = 2 ^ 64 - 1 - d"
    using assms(1,2) by (simp add: uint_word_ariths uint_word_of_int take_bit_eq_mod)
  then have "uint ((- 1 - of_int d) div 10 :: size_t) = (2 ^ 64 - 1 - d) div 10"
    by (simp add: uint_div_distrib)
  moreover have "uint (of_int v :: size_t) = v" using assms(3,4) by (simp add: uint_word_of_int take_bit_eq_mod)
  ultimately show ?thesis by (simp add: word_less_def) linarith
qed

lemma unsigned_loop_digits:
  assumes "list_all is_digit ds" "rest = [] \<or> \<not> is_digit (hd rest)" "0 \<le> v" "v < 2 ^ 64"
  shows "unsigned_loop (of_int v) (ds @ rest) =
    (let t = foldl (\<lambda>v c. 10 * v + (of_char c - 48)) v ds in
     if t < 2 ^ 64 then Some (of_int t, rest) else None)"
  using assms(1,3,4)
proof (induction ds arbitrary: v)
  case Nil
  then show ?case using assms(2) by (cases rest) auto
next
  case (Cons c ds)
  let ?d = "of_char c - 48 :: int" and ?f = "\<lambda>v c. 10 * v + (of_char c - 48) :: int"
  have c: "is_digit c" and ds: "list_all is_digit ds" using Cons.prems(1) by simp_all
  have d: "0 \<le> ?d" "?d \<le> 9" using c by (simp_all add: is_digit_def flip: of_nat_of_char [where 'a = int])
  have w: "(of_char c - 48 :: size_t) = of_int ?d"
    by (metis of_int_diff of_int_numeral of_int_of_nat_eq of_nat_of_char)
  note over = unsigned_overflow [OF d Cons.prems(2,3)]
  show ?case
  proof (cases "10 * v + ?d < 2 ^ 64")
    case True
    then show ?thesis using Cons.IH [OF ds _ True] d Cons.prems(2) c over
      by (simp add: w Let_def mult.commute [of _ 10] del: of_int_diff)
  next
    case False
    then have "\<not> foldl ?f (10 * v + ?d) ds < 2 ^ 64"
      using foldl_digits_mono [OF ds, of "10 * v + ?d"] d Cons.prems(2) by simp
    then show ?thesis using False c over by (simp add: w Let_def del: of_int_diff)
  qed
qed

section \<open>Reading the pieces of a document\<close>

text \<open>The first token tells the kind of a value.\<close>

lemma json_head:
  assumes w: "list_all isspace w" and ok: "json_ok j"
  shows "\<exists>c cs. SkipWhitespace (json_text w j @ rest) = c # cs \<and>
    (c = CHR 0x22 \<longleftrightarrow> (\<exists>s. j = Jstring s)) \<and> (c = CHR ''{'' \<longleftrightarrow> (\<exists>fs. j = Jobject fs)) \<and>
    (c = CHR ''['' \<longleftrightarrow> (\<exists>js. j = Jarray js)) \<and> (is_digit c \<longrightarrow> (\<exists>t. j = Jnumber t))"
proof (cases j)
  case (Jnumber t)
  obtain c cs where t: "t = c # cs" "c = CHR ''-'' \<or> is_digit c"
    using ok by (cases t) (auto simp: Jnumber number_ok_def)
  then have "\<not> isspace c" "c \<noteq> CHR 0x22" "c \<noteq> CHR ''{''" "c \<noteq> CHR ''[''" by (auto simp: is_digit_def)
  then show ?thesis using w by (simp add: Jnumber t(1))
qed (use w in \<open>simp_all add: json_string_def is_digit_def\<close>)

lemma ParseString_json:
  assumes "list_all isspace w" "json_ok j"
  shows "ParseString (json_text w j @ rest) = map_option (\<lambda>s. (s, rest)) (string_of j)"
proof (cases "\<exists>s. j = Jstring s")
  case True
  then show ?thesis using assms by (auto simp: ParseString_json_string)
next
  case False
  obtain c cs where "SkipWhitespace (json_text w j @ rest) = c # cs" "c \<noteq> CHR 0x22"
    using json_head [OF assms, of rest] False by metis
  then show ?thesis using False by (cases j) (auto simp: ParseString_def)
qed

lemma Consume_json:
  assumes "list_all isspace w" "json_ok j"
  shows "(\<nexists>fs. j = Jobject fs) \<Longrightarrow> Consume CHR ''{'' (json_text w j @ rest) = None"
    "(\<nexists>js. j = Jarray js) \<Longrightarrow> Consume CHR ''['' (json_text w j @ rest) = None"
  using json_head [OF assms, of rest] by (metis (mono_tags, lifting) Consume_def list.simps(5))+

lemma ParseUnsigned_json:
  assumes w: "list_all isspace w" and ok: "json_ok j" and rest: "ends_number rest"
  shows "ParseUnsigned (json_text w j @ rest) = map_option (\<lambda>n. (n, rest)) (natural_of j)"
proof (cases "\<exists>t. j = Jnumber t")
  case False
  obtain c cs where "SkipWhitespace (json_text w j @ rest) = c # cs" "\<not> is_digit c"
    using json_head [OF w ok, of rest] False by metis
  then show ?thesis using False by (cases j) (auto simp: ParseUnsigned_def Let_def)
next
  case True
  then obtain c cs where j: "j = Jnumber (c # cs)" and c: "c = CHR ''-'' \<or> is_digit c"
    and cs: "list_all (\<lambda>c. is_digit c \<or> number_tail c) cs"
    using ok by (metis json_ok.simps(1) list.sel(1,3) neq_Nil_conv number_ok_def)
  let ?ds = "takeWhile is_digit (c # cs)" and ?more = "dropWhile is_digit (c # cs)"
  have skip: "SkipWhitespace (json_text w j @ rest) = c # cs @ rest" using w c by (auto simp: j)
  have split: "c # cs @ rest = ?ds @ ?more @ rest" by (metis append_Cons append_assoc takeWhile_dropWhile_id)
  have ds: "list_all is_digit ?ds" by (auto simp: list_all_iff dest: set_takeWhileD)
  have hd_rest: "rest = [] \<or> \<not> is_digit (hd rest) \<and> \<not> number_tail (hd rest)"
    using rest by (cases rest) (auto simp: ends_number_def)
  have hd_more: "?more = [] \<or> \<not> is_digit (hd ?more)" using hd_dropWhile [of is_digit "c # cs"] by blast
  have stop: "?more @ rest = [] \<or> \<not> is_digit (hd (?more @ rest))"
    using hd_rest hd_more by (cases "?more = []") auto
  have loop: "unsigned_loop 0 (c # cs @ rest) =
    (if digits_value ?ds < 2 ^ 64 then Some (of_int (digits_value ?ds), ?more @ rest) else None)"
    unfolding split using unsigned_loop_digits [OF ds stop, of 0] by (simp add: Let_def digits_value_def)
  show ?thesis
  proof (cases "list_all is_digit (c # cs)")
    case True
    then have "?more = []" "?ds = c # cs" by (auto simp: dropWhile_eq_Nil_conv takeWhile_eq_all_conv list_all_iff)
    with loop have "unsigned_loop 0 (c # cs @ rest) =
      (if digits_value (c # cs) < 2 ^ 64 then Some (of_int (digits_value (c # cs)), rest) else None)"
      by (simp only: append_Nil)
    then show ?thesis using True hd_rest skip
      by (cases rest) (simp_all add: ParseUnsigned_def Let_def j del: unsigned_loop.simps)
  next
    case False
    show ?thesis
    proof (cases "is_digit c")
      case True
      then have more_cs: "?more = dropWhile is_digit cs" by simp
      from False True have "\<exists>x \<in> set cs. \<not> is_digit x" by (auto simp: list_all_iff)
      then have ne: "?more \<noteq> []" by (auto simp: True dropWhile_eq_Nil_conv)
      then have "hd ?more \<in> set cs" unfolding more_cs by (metis hd_in_set set_dropWhileD)
      then have "number_tail (hd ?more)" using hd_more ne cs by (auto simp: list_all_iff)
      then show ?thesis using loop False skip True ne
        by (cases ?more) (simp_all add: ParseUnsigned_def Let_def j del: unsigned_loop.simps)
    qed (use skip False in \<open>simp add: ParseUnsigned_def Let_def j\<close>)
  qed
qed

section \<open>Reading scenarios\<close>

text \<open>What the two loops do with one field of a document, and with a sequence of fields.\<close>

fun scenario_step :: "bool \<times> string \<times> size_t \<Rightarrow> string \<times> json \<Rightarrow> (bool \<times> string \<times> size_t) option" where
  "scenario_step (f, nm, r) (k, j) =
     (if k = ''name'' then map_option (\<lambda>s. (True, s, r)) (string_of j)
      else if k = ''requests'' then map_option (\<lambda>n. (f, nm, n)) (natural_of j)
      else Some (f, nm, r))"

lemma scenario_field_json:
  assumes "list_all isspace w" "json_ok j" "ends_number rest"
  shows "scenario_field f nm r (json_field w (k, j) @ rest) =
    map_option (\<lambda>(f, nm, r). (f, nm, r, rest)) (scenario_step (f, nm, r) (k, j))"
  using assms
  by (simp add: scenario_field_def json_field_def ParseString_json_string ParseString_json ParseUnsigned_json
    SkipValue_json option.map_comp comp_def)

interpretation scenario_items: item_loop "CHR ''}''" "\<lambda>(f, nm, r). scenario_loop f nm r"
    "\<lambda>(f, nm, r) input. map_option (\<lambda>(f, nm, r, input). ((f, nm, r), input)) (scenario_field f nm r input)"
    "\<lambda>(f, nm, r) input. if f then Some (\<lparr>spec_name = nm, spec_requests = r\<rparr>, input) else None"
  by unfold_locales (simp, clarify, subst scenario_loop.simps, auto split: option.splits)

lemma scenario_loop_json:
  assumes w: "list_all isspace w" and "members \<noteq> []" "list_all (\<lambda>(k, j). json_ok j) members"
  shows "scenario_loop f nm r (comma_separated w (map (json_field w) members) @ w @ CHR ''}'' # rest) =
    (case run_steps scenario_step (f, nm, r) members of
       Some (True, nm, r) \<Rightarrow> Some (\<lparr>spec_name = nm, spec_requests = r\<rparr>, rest)
     | _ \<Rightarrow> None)"
  using scenario_items.reads_items [OF w assms(2), where s = "(f, nm, r)" and item_text = "json_field w"
      and step = scenario_step and rest = rest] assms(3)
  by (fastforce simp: scenario_field_json [OF w] list_all_iff option.map_comp comp_def case_prod_beta
    split: option.splits)

lemma run_scenario_steps:
  "run_steps scenario_step (f, nm, r) members =
    (let last_value = map_of (rev members) in
     if list_all (\<lambda>(k, j). (k = ''name'' \<longrightarrow> string_of j \<noteq> None) \<and> (k = ''requests'' \<longrightarrow> natural_of j \<noteq> None)) members
     then Some (f \<or> last_value ''name'' \<noteq> None,
                case last_value ''name'' of None \<Rightarrow> nm | Some j \<Rightarrow> the (string_of j),
                case last_value ''requests'' of None \<Rightarrow> r | Some j \<Rightarrow> the (natural_of j))
     else None)"
proof (induction members arbitrary: f nm r)
  case (Cons m members)
  obtain k j where m: "m = (k, j)" by (cases m)
  show ?case
    using Cons.IH by (auto simp: m Let_def map_add_def split: option.splits)
qed simp

lemma ParseScenarioObject_json:
  assumes w: "list_all isspace w" and ok: "json_ok j"
  shows "ParseScenarioObject d (json_text w j @ rest) = map_option (\<lambda>spec. (spec, rest)) (scenario_of d j)"
proof (cases "\<exists>fs. j = Jobject fs")
  case False
  then show ?thesis using Consume_json(1) [OF w ok] by (cases j) (simp_all add: ParseScenarioObject_def)
next
  case True
  then obtain fs where j: "j = Jobject fs" ..
  show ?thesis
  proof (cases "fs = []")
    case True
    then show ?thesis using w by (simp add: j ParseScenarioObject_def)
  next
    case False
    then obtain f fs' where fs: "fs = f # fs'" by (cases fs) auto
    have "opens (comma_separated w (map (json_field w) fs) @ x)" for x
      using opens_field [OF w, of f] by (simp add: fs comma_separated_Cons)
    note open_first = opens_Consume(2) [OF this]
    have "scenario_loop False [] d (SkipWhitespace i) = scenario_loop False [] d i" for i
      by (subst (1 2) scenario_loop.simps) (simp add: scenario_field_def)
    then show ?thesis
      using w open_first scenario_loop_json [OF w False, of False "[]" d rest] ok
      unfolding j json_text_object
      by (simp add: ParseScenarioObject_def run_scenario_steps Let_def split: option.splits)
  qed
qed

section \<open>Reading the matrix\<close>

interpretation scenarios_items: item_loop "CHR '']''" "\<lambda>s. scenarios_loop s d"
    "\<lambda>s input. map_option (\<lambda>(spec, input). (s @ [spec], input)) (ParseScenarioObject d input)"
    "\<lambda>s input. Some (s, input)" for d
  by unfold_locales (simp, subst scenarios_loop.simps, auto split: option.splits)

lemma run_those:
  "run_steps (\<lambda>s x. map_option (\<lambda>y. s @ [y]) (f x)) s xs = map_option (\<lambda>ys. s @ ys) (those (map f xs))"
proof (induction xs arbitrary: s)
  case (Cons x xs)
  then show ?case by (cases "f x"; cases "those (map f xs)") simp_all
qed simp

lemma scenarios_loop_json:
  assumes w: "list_all isspace w" and "js \<noteq> []" "list_all json_ok js"
  shows "scenarios_loop s d (comma_separated w (map (json_text w) js) @ w @ CHR '']'' # rest) =
    map_option (\<lambda>specs. (s @ specs, rest)) (those (map (scenario_of d) js))"
  using scenarios_items.reads_items [OF w assms(2), where s = s and item_text = "json_text w"
      and step = "\<lambda>s x. map_option (\<lambda>y. s @ [y]) (scenario_of d x)" and rest = rest and d = d] assms(3)
  by (simp add: ParseScenarioObject_json [OF w] list_all_iff option.map_comp comp_def run_those)
    (simp split: option.splits)

definition scenarios_of :: "size_t \<Rightarrow> json \<Rightarrow> ScenarioSpec list option" where
  "scenarios_of d j = (case j of Jarray js \<Rightarrow> those (map (scenario_of d) js) | _ \<Rightarrow> None)"

lemma ParseScenarioArray_json:
  assumes w: "list_all isspace w" and ok: "json_ok j"
  shows "ParseScenarioArray s d (json_text w j @ rest) =
    map_option (\<lambda>specs. (s @ specs, rest)) (scenarios_of d j)"
proof (cases "\<exists>js. j = Jarray js")
  case False
  then show ?thesis using Consume_json(2) [OF w ok]
    by (cases j) (simp_all add: ParseScenarioArray_def scenarios_of_def)
next
  case True
  then obtain js where j: "j = Jarray js" ..
  show ?thesis
  proof (cases "js = []")
    case True
    then show ?thesis using w by (simp add: j ParseScenarioArray_def scenarios_of_def)
  next
    case False
    then obtain j1 js' where js: "js = j1 # js'" by (cases js) auto
    have "opens (comma_separated w (map (json_text w) js) @ x)" for x
      using opens_json_text [OF w, of j1] ok by (simp add: j js comma_separated_Cons)
    note open_first = opens_Consume(1) [OF this]
    have "scenarios_loop s d (SkipWhitespace i) = scenarios_loop s d i" for i
      by (subst (1 2) scenarios_loop.simps) (simp add: ParseScenarioObject_def)
    then show ?thesis using w open_first scenarios_loop_json [OF w False, of s d rest] ok
      by (simp add: j ParseScenarioArray_def scenarios_of_def)
  qed
qed

fun matrix_step :: "size_t \<Rightarrow> bool \<times> ScenarioSpec list \<Rightarrow> string \<times> json \<Rightarrow> (bool \<times> ScenarioSpec list) option" where
  "matrix_step d (f, s) (k, j) =
     (if k = ''scenarios'' then
        (if f then None else map_option (\<lambda>specs. (True, s @ specs)) (scenarios_of d j))
      else Some (f, s))"

lemma matrix_field_json:
  assumes "list_all isspace w" "json_ok j" "ends_number rest"
  shows "matrix_field f s d (json_field w (k, j) @ rest) =
    map_option (\<lambda>(f, s). (f, s, rest)) (matrix_step d (f, s) (k, j))"
  using assms
  by (simp add: matrix_field_def json_field_def ParseString_json_string ParseScenarioArray_json SkipValue_json
    option.map_comp comp_def)

interpretation matrix_items: item_loop "CHR ''}''" "\<lambda>(f, s). matrix_loop f s d"
    "\<lambda>(f, s) input. map_option (\<lambda>(f, s, input). ((f, s), input)) (matrix_field f s d input)"
    "\<lambda>(f, s) input. Some (f, s, input)" for d
  by unfold_locales (simp, clarify, subst matrix_loop.simps, auto split: option.splits)

lemma matrix_loop_json:
  assumes w: "list_all isspace w" and "members \<noteq> []" "list_all (\<lambda>(k, j). json_ok j) members"
  shows "matrix_loop f s d (comma_separated w (map (json_field w) members) @ w @ CHR ''}'' # rest) =
    map_option (\<lambda>(f, s). (f, s, rest)) (run_steps (matrix_step d) (f, s) members)"
  using matrix_items.reads_items [OF w assms(2), where s = "(f, s)" and item_text = "json_field w"
      and step = "matrix_step d" and rest = rest and d = d] assms(3)
  by (fastforce simp: matrix_field_json [OF w] list_all_iff option.map_comp comp_def case_prod_beta
    split: option.splits)

lemma run_matrix_steps_found:
  "run_steps (matrix_step d) (True, s) members =
    (if map snd (filter (\<lambda>(k, j). k = ''scenarios'') members) = [] then Some (True, s) else None)"
  by (induction members) auto

lemma run_matrix_steps:
  "run_steps (matrix_step d) (False, []) members =
    (case map snd (filter (\<lambda>(k, j). k = ''scenarios'') members) of
       [] \<Rightarrow> Some (False, [])
     | [j] \<Rightarrow> map_option (\<lambda>specs. (True, specs)) (scenarios_of d j)
     | _ \<Rightarrow> None)"
proof (induction members)
  case (Cons m members)
  then show ?case
    by (cases m) (auto simp: run_matrix_steps_found split: option.splits list.splits)
qed simp

lemma those_nonempty: "those (x # xs) = Some ys \<Longrightarrow> ys \<noteq> []"
  by (auto split: option.splits)

lemma matrix_of_alt:
  "matrix_of d (Jobject members) =
    (case run_steps (matrix_step d) (False, []) members of
       Some (True, specs) \<Rightarrow> if specs = [] then None else Some specs
     | _ \<Rightarrow> None)"
  unfolding run_matrix_steps
  by (auto simp: scenarios_of_def dest: those_nonempty split: list.splits json.splits option.splits)

lemma ParseScenarioMatrix_json:
  assumes w: "list_all isspace w" and ok: "json_ok j"
  shows "ParseScenarioMatrix (json_text w j @ w) d = matrix_of d j"
proof (cases "\<exists>fs. j = Jobject fs")
  case False
  then show ?thesis using Consume_json(1) [OF w ok] by (cases j) (simp_all add: ParseScenarioMatrix_def)
next
  case True
  then obtain fs where j: "j = Jobject fs" ..
  show ?thesis
  proof (cases "fs = []")
    case True
    then show ?thesis using w by (simp add: j ParseScenarioMatrix_def)
  next
    case False
    then obtain f fs' where fs: "fs = f # fs'" by (cases fs) auto
    have "opens (comma_separated w (map (json_field w) fs) @ x)" for x
      using opens_field [OF w, of f] by (simp add: fs comma_separated_Cons)
    note open_first = opens_Consume(2) [OF this]
    have skip: "matrix_loop False [] d (SkipWhitespace i) = matrix_loop False [] d i" for i
      by (subst (1 2) matrix_loop.simps) (simp add: matrix_field_def)
    have "SkipWhitespace w = []" using SkipWhitespace_append [OF w, of "[]"] by (simp add: SkipWhitespace_def)
    then show ?thesis
      using w open_first matrix_loop_json [OF w False, of False "[]" d w] ok skip
      unfolding j json_text_object matrix_of_alt
      by (auto simp: ParseScenarioMatrix_def AtEnd_def split: option.splits bool.splits)
  qed
qed

section \<open>Properties\<close>



end
