(* ===== verification/Bench_Requests.thy ===== *)
theory Bench_Requests
  imports Scenario_Matrix "HOL-Library.Multiset"
begin

text \<open>
  How the benchmark (\<open>bench/cache_bench.cpp\<close>) settles the number of requests of each scenario:
  \<open>SumScenarioRequests\<close>, \<open>DistributeScenarioRequests\<close>, \<open>LoadScenarioMatrix\<close> and the part of
  \<open>main\<close> that uses them. The \<open>long double\<close> arithmetic is the parameter \<open>F\<close>, about which nothing is
  assumed: the distribution gives out exactly the requested total however the quotas are rounded.
\<close>

section \<open>Sums\<close>

fun sum_loop :: "size_t \<Rightarrow> ScenarioSpec list \<Rightarrow> size_t option" where
  "sum_loop so_far [] = Some so_far"
| "sum_loop so_far (scenario # scenarios) =
     (if - 1 - so_far < spec_requests scenario then None
      else sum_loop (so_far + spec_requests scenario) scenarios)"

definition SumScenarioRequests :: "ScenarioSpec list \<Rightarrow> size_t option" where
  "SumScenarioRequests scenarios = sum_loop 0 scenarios"

definition unat_sum :: "size_t list \<Rightarrow> nat" where
  "unat_sum ws = sum_list (map unat ws)"

lemma unat_sum_simps [simp]: "unat_sum [] = 0" "unat_sum (w # ws) = unat w + unat_sum ws"
  by (simp_all add: unat_sum_def)

lemma unat_lt: "unat w < 2 ^ 64" for w :: size_t
  using unsigned_less [of w] by simp

lemma unat_add: "unat a + unat b < 2 ^ 64 \<Longrightarrow> unat (a + b) = unat a + unat b" for a b :: size_t
  using unat_add_lem [of a b] by simp

lemma sum_loop_spec:
  "sum_loop s scenarios =
    (let t = unat s + unat_sum (map spec_requests scenarios) in
     if t < 2 ^ 64 then Some (of_nat t) else None)"
proof (induction scenarios arbitrary: s)
  case Nil
  then show ?case using unat_lt [of s] by (simp add: unat_sum_def)
next
  case (Cons spec scenarios)
  let ?r = "spec_requests spec"
  have "unat (- 1 - s) = 2 ^ 64 - 1 - unat s"
    by (subst unat_sub) (simp_all add: word_order.extremum unsigned_minus_1_eq_mask mask_eq_exp_minus_1)
  then have over: "- 1 - s < ?r \<longleftrightarrow> 2 ^ 64 \<le> unat s + unat ?r"
    using unat_lt [of s] by (simp add: word_less_nat_alt) linarith
  show ?case
  proof (cases "unat s + unat ?r < 2 ^ 64")
    case True
    then have "unat (s + ?r) = unat s + unat ?r" by (rule unat_add)
    then show ?thesis using True over Cons.IH [of "s + ?r"] by (simp add: Let_def unat_sum_def add.assoc)
  next
    case False
    then show ?thesis using over by (simp add: Let_def unat_sum_def)
  qed
qed

lemma SumScenarioRequests_spec:
  "SumScenarioRequests scenarios =
    (let t = unat_sum (map spec_requests scenarios) in if t < 2 ^ 64 then Some (of_nat t) else None)"
  by (simp add: SumScenarioRequests_def sum_loop_spec)

section \<open>Distribution\<close>

text \<open>The operations on \<open>long double\<close> that the code uses; \<open>ld_of\<close> and \<open>ld_to\<close> are the casts.\<close>

record 'f long_double =
  ld_zero :: 'f
  ld_of :: "size_t \<Rightarrow> 'f"
  ld_to :: "'f \<Rightarrow> size_t"
  ld_add :: "'f \<Rightarrow> 'f \<Rightarrow> 'f"
  ld_sub :: "'f \<Rightarrow> 'f \<Rightarrow> 'f"
  ld_mul :: "'f \<Rightarrow> 'f \<Rightarrow> 'f"
  ld_div :: "'f \<Rightarrow> 'f \<Rightarrow> 'f"
  ld_floor :: "'f \<Rightarrow> 'f"
  ld_less :: "'f \<Rightarrow> 'f \<Rightarrow> bool"
  ld_le :: "'f \<Rightarrow> 'f \<Rightarrow> bool"
  ld_eq :: "'f \<Rightarrow> 'f \<Rightarrow> bool"

text \<open>\<open>FractionalPart\<close> is a pair of the index and the fraction.\<close>

type_synonym 'f part = "nat \<times> 'f"

definition by_fraction_down :: "'f long_double \<Rightarrow> 'f part \<Rightarrow> 'f part \<Rightarrow> bool" where
  "by_fraction_down F a b =
     (if ld_eq F (snd a) (snd b) then fst a < fst b else ld_less F (snd b) (snd a))"

definition by_fraction_up :: "'f long_double \<Rightarrow> 'f part \<Rightarrow> 'f part \<Rightarrow> bool" where
  "by_fraction_up F a b =
     (if ld_eq F (snd a) (snd b) then fst a < fst b else ld_less F (snd a) (snd b))"

text \<open>\<open>std::sort\<close>: the indices are distinct, so the comparisons leave one sorted order.\<close>

fun insert_by :: "('a \<Rightarrow> 'a \<Rightarrow> bool) \<Rightarrow> 'a \<Rightarrow> 'a list \<Rightarrow> 'a list" where
  "insert_by before x [] = [x]"
| "insert_by before x (y # ys) = (if before y x then y # insert_by before x ys else x # y # ys)"

definition sort_by :: "('a \<Rightarrow> 'a \<Rightarrow> bool) \<Rightarrow> 'a list \<Rightarrow> 'a list" where
  "sort_by before xs = foldr (insert_by before) xs []"

text \<open>One pass of the loop over the quotas: the base and the fraction of a scenario.\<close>

definition quota_step :: "'f long_double \<Rightarrow> size_t \<Rightarrow> 'f \<Rightarrow> size_t \<Rightarrow> ScenarioSpec \<Rightarrow> size_t \<times> 'f" where
  "quota_step F total_ops weight_sum allocated scenario =
     (let quota = ld_div F (ld_mul F (ld_of F total_ops) (ld_of F (spec_requests scenario))) weight_sum;
          base_ld = ld_floor F quota;
          base_ld = (if ld_less F base_ld (ld_zero F) then ld_zero F else base_ld);
          base_ld = (if ld_less F (ld_of F total_ops) base_ld then ld_of F total_ops else base_ld);
          base = ld_to F base_ld;
          base = (if total_ops - allocated < base then total_ops - allocated else base);
          fraction = ld_sub F quota (ld_of F base);
          fraction = (if ld_less F fraction (ld_zero F) then ld_zero F else fraction)
      in (base, fraction))"

text \<open>The loop; \<open>i\<close>, \<open>allocated\<close>, \<open>requests\<close> and \<open>parts\<close> are the code's variables.\<close>

fun quota_loop :: "'f long_double \<Rightarrow> size_t \<Rightarrow> 'f \<Rightarrow> nat \<Rightarrow> size_t \<Rightarrow> size_t list \<Rightarrow> 'f part list
    \<Rightarrow> ScenarioSpec list \<Rightarrow> size_t \<times> size_t list \<times> 'f part list" where
  "quota_loop F total_ops weight_sum i allocated requests parts [] = (allocated, requests, parts)"
| "quota_loop F total_ops weight_sum i allocated requests parts (scenario # scenarios) =
     (case quota_step F total_ops weight_sum allocated scenario of
        (base, fraction) \<Rightarrow>
          quota_loop F total_ops weight_sum (i + 1) (allocated + base) (requests[i := base])
            (parts @ [(i, fraction)]) scenarios)"

text \<open>\<open>for (i = 0; i < remainder; ++i) requests[parts[i % parts.size()].index] += 1\<close>\<close>

fun give_rest :: "'f part list \<Rightarrow> nat \<Rightarrow> nat \<Rightarrow> size_t list \<Rightarrow> size_t list" where
  "give_rest parts i 0 requests = requests"
| "give_rest parts i (Suc n) requests =
     (let idx = fst (parts ! (i mod length parts))
      in give_rest parts (i + 1) n (requests[idx := requests ! idx + 1]))"

fun take_excess :: "'f part list \<Rightarrow> nat \<Rightarrow> nat \<Rightarrow> size_t list \<Rightarrow> size_t list" where
  "take_excess parts i 0 requests = requests"
| "take_excess parts i (Suc n) requests =
     (let idx = fst (parts ! (i mod length parts))
      in take_excess parts (i + 1) n
           (if 0 < requests ! idx then requests[idx := requests ! idx - 1] else requests))"

definition DistributeScenarioRequests :: "'f long_double \<Rightarrow> ScenarioSpec list \<Rightarrow> size_t \<Rightarrow> size_t list" where
  "DistributeScenarioRequests F scenarios total_ops =
     (let requests = replicate (length scenarios) 0 in
      if scenarios = [] \<or> total_ops = 0 then requests
      else
        let weight_sum = foldl (\<lambda>s scenario. ld_add F s (ld_of F (spec_requests scenario))) (ld_zero F) scenarios in
        if ld_le F weight_sum (ld_zero F) then
          (let base = total_ops div of_nat (length scenarios);
               remainder = total_ops mod of_nat (length scenarios)
           in map (\<lambda>i. base + (if of_nat i < remainder then 1 else 0)) [0..<length scenarios])
        else
          (case quota_loop F total_ops weight_sum 0 0 requests [] scenarios of
             (allocated, requests, parts) \<Rightarrow>
               if allocated = total_ops then requests
               else if allocated < total_ops then
                 give_rest (sort_by (by_fraction_down F) parts) 0 (unat (total_ops - allocated)) requests
               else take_excess (sort_by (by_fraction_up F) parts) 0 (unat (allocated - total_ops)) requests))"

section \<open>What is given out\<close>

lemma mset_insert_by: "mset (insert_by before x xs) = add_mset x (mset xs)"
  by (induction xs) auto

lemma mset_sort_by: "mset (sort_by before xs) = mset xs"
  unfolding sort_by_def by (induction xs) (simp_all add: mset_insert_by)

lemma unat_sum_update:
  "i < length ws \<Longrightarrow> unat_sum (ws[i := x]) + unat (ws ! i) = unat_sum ws + unat x"
  by (induction ws arbitrary: i) (auto simp: nth_Cons split: nat.splits)

lemma unat_sum_member: "x \<in> set ws \<Longrightarrow> unat x \<le> unat_sum ws"
  unfolding unat_sum_def by (simp add: member_le_sum_list)

lemma give_rest_sum:
  assumes "parts \<noteq> []" "\<And>p. p \<in> set parts \<Longrightarrow> fst p < length requests" "unat_sum requests + n < 2 ^ 64"
  shows "length (give_rest parts i n requests) = length requests \<and>
    unat_sum (give_rest parts i n requests) = unat_sum requests + n"
  using assms(2,3)
proof (induction n arbitrary: i requests)
  case (Suc n)
  define idx where "idx = fst (parts ! (i mod length parts))"
  have "parts ! (i mod length parts) \<in> set parts" using assms(1) by simp
  then have idx: "idx < length requests" unfolding idx_def by (rule Suc.prems(1))
  then have "unat (requests ! idx) \<le> unat_sum requests" by (simp add: unat_sum_member)
  then have "unat (requests ! idx + 1) = unat (requests ! idx) + 1"
    using Suc.prems(2) unat_add [of "requests ! idx" 1] by simp
  then have "unat_sum (requests[idx := requests ! idx + 1]) = unat_sum requests + 1"
    using unat_sum_update [OF idx, of "requests ! idx + 1"] by simp
  then show ?case using Suc.IH [of "requests[idx := requests ! idx + 1]" "i + 1"] Suc.prems
    by (simp add: Let_def flip: idx_def)
qed simp

lemma quota_loop_sum:
  assumes "quota_loop F total_ops ws i allocated requests parts scenarios = (allocated', requests', parts')"
    and "length requests = i + length scenarios" "\<forall>k. i \<le> k \<and> k < length requests \<longrightarrow> requests ! k = 0"
    and "unat_sum requests = unat allocated" "allocated \<le> total_ops" "map fst parts = [0..<i]"
  shows "length requests' = length requests \<and> unat_sum requests' = unat allocated' \<and> allocated' \<le> total_ops \<and>
    map fst parts' = [0..<length requests]"
  using assms
proof (induction scenarios arbitrary: i allocated requests parts)
  case (Cons spec scenarios)
  obtain base fraction where step: "quota_step F total_ops ws allocated spec = (base, fraction)" by fastforce
  have base: "base \<le> total_ops - allocated"
    using step by (auto simp: quota_step_def Let_def split: if_splits)
  have room: "unat base + unat allocated \<le> unat total_ops"
    using base Cons.prems(5) unat_sub [OF Cons.prems(5)] by (simp add: word_le_nat_alt)
  then have add: "unat (allocated + base) = unat allocated + unat base"
    using unat_lt [of total_ops] by (intro unat_add) simp
  have "unat_sum (requests[i := base]) = unat (allocated + base)"
    using unat_sum_update [of i requests base] Cons.prems(2,3,4) by (simp add: add)
  moreover have "allocated + base \<le> total_ops" using room add by (simp add: word_le_nat_alt)
  ultimately show ?case
    using Cons.IH [of "i + 1" "allocated + base" "requests[i := base]" "parts @ [(i, fraction)]"] Cons.prems(1,2,3,6)
    by (simp add: step)
qed simp

lemma sum_below: "k \<le> n \<Longrightarrow> (\<Sum>i\<leftarrow>[0..<n]. if i < k then 1 else (0 :: nat)) = k"
proof (induction n)
  case (Suc n)
  have "map (\<lambda>i. if i < Suc n then 1 else (0 :: nat)) [0..<n] = map (\<lambda>_. 1) [0..<n]" by simp
  then have "(\<Sum>i\<leftarrow>[0..<n]. if i < Suc n then 1 else (0 :: nat)) = n" by (simp only: sum_list_triv) simp
  then show ?case using Suc by (cases "k = Suc n") auto
qed simp

lemma unat_sum_even:
  assumes "0 < n" "n < 2 ^ 64"
  shows "unat_sum (map (\<lambda>i. total_ops div of_nat n + (if of_nat i < total_ops mod of_nat n then 1 else 0)) [0..<n]) =
    unat total_ops"
proof -
  let ?t = "unat total_ops" and ?w = "of_nat n :: size_t"
  have w: "unat ?w = n" using assms(2) by (simp add: unat_of_nat take_bit_nat_eq_self)
  have each: "unat (total_ops div ?w + (if of_nat i < total_ops mod ?w then 1 else 0)) =
      ?t div n + (if i < ?t mod n then 1 else 0)" if "i < n" for i
  proof -
    have "(of_nat i < total_ops mod ?w) = (i < ?t mod n)"
      using that assms(2) by (simp add: word_less_nat_alt unat_mod_distrib w unat_of_nat take_bit_nat_eq_self)
    moreover have "?t div n + 1 \<le> ?t" if "i < ?t mod n"
    proof -
      have "2 \<le> n" using that \<open>i < n\<close> by (cases "n = 1") auto
      moreover have "0 < ?t" using that by (cases "?t = 0") auto
      ultimately have "?t div n < ?t" by simp
      then show ?thesis by simp
    qed
    moreover have "unat (total_ops div ?w) = ?t div n" by (simp add: unat_div_distrib w)
    ultimately show ?thesis
      using unat_lt [of total_ops] unat_add [of "total_ops div ?w" 1] by (cases "i < ?t mod n") simp_all
  qed
  have "unat_sum (map (\<lambda>i. total_ops div ?w + (if of_nat i < total_ops mod ?w then 1 else 0)) [0..<n]) =
      (\<Sum>i\<leftarrow>[0..<n]. ?t div n + (if i < ?t mod n then 1 else 0))"
    unfolding unat_sum_def map_map comp_def using each by (intro arg_cong [of _ _ sum_list] map_cong) auto
  also have "\<dots> = n * (?t div n) + (\<Sum>i\<leftarrow>[0..<n]. if i < ?t mod n then 1 else 0)"
    by (simp add: sum_list_addf sum_list_triv)
  also have "(\<Sum>i\<leftarrow>[0..<n]. if i < ?t mod n then 1 else 0) = ?t mod n"
    using assms(1) by (intro sum_below) simp
  finally show ?thesis by simp
qed

lemma DistributeScenarioRequests_sum:
  assumes "scenarios \<noteq> []" "length scenarios < 2 ^ 64"
  shows "length (DistributeScenarioRequests F scenarios total_ops) = length scenarios \<and>
    unat_sum (DistributeScenarioRequests F scenarios total_ops) = unat total_ops"
proof (cases "total_ops = 0")
  case True
  then show ?thesis by (simp add: DistributeScenarioRequests_def unat_sum_def sum_list_replicate)
next
  case False
  define ws where "ws = foldl (\<lambda>s scenario. ld_add F s (ld_of F (spec_requests scenario))) (ld_zero F) scenarios"
  obtain allocated requests parts where
    loop: "quota_loop F total_ops ws 0 0 (replicate (length scenarios) 0) [] scenarios = (allocated, requests, parts)"
    by (metis prod_cases3)
  then have quota: "length requests = length scenarios" "unat_sum requests = unat allocated" "allocated \<le> total_ops"
    "map fst parts = [0..<length scenarios]"
    using quota_loop_sum [OF loop] by (simp_all add: unat_sum_def sum_list_replicate)
  let ?parts = "sort_by (by_fraction_down F) parts"
  have set_parts: "set ?parts = set parts" by (rule mset_eq_setD) (rule mset_sort_by)
  have "parts \<noteq> []" using quota(4) assms(1) by (metis length_0_conv length_map length_upt diff_zero)
  then have "?parts \<noteq> []" using set_parts by auto
  moreover have "fst p < length requests" if "p \<in> set ?parts" for p
  proof -
    have "fst p \<in> set (map fst parts)" using that set_parts by simp
    then show ?thesis using quota by simp
  qed
  moreover have "unat_sum requests + unat (total_ops - allocated) = unat total_ops"
    using quota(2,3) by (simp add: unat_sub word_le_nat_alt)
  ultimately have "length (give_rest ?parts 0 (unat (total_ops - allocated)) requests) = length requests \<and>
      unat_sum (give_rest ?parts 0 (unat (total_ops - allocated)) requests) = unat total_ops"
    using give_rest_sum [of ?parts requests "unat (total_ops - allocated)" 0] unat_lt [of total_ops] by simp
  moreover note unat_sum_even [of "length scenarios" total_ops] quota
  ultimately show ?thesis
    using False assms loop
    by (auto simp: DistributeScenarioRequests_def Let_def ws_def [symmetric] order.strict_iff_order)
qed

section \<open>The command line\<close>

text \<open>
  \<open>std::stoull\<close> in base ten skips white space, takes an optional sign and reads digits up to the first
  other character; \<open>None\<close> is an exception (no digits, or a value that does not fit), which ends the
  program. A minus sign negates the value modulo \<open>2 ^ 64\<close>.
\<close>

definition stoull :: "string \<Rightarrow> size_t option" where
  "stoull text =
     (let text = SkipWhitespace text;
          negative = (case text of c # _ \<Rightarrow> c = CHR ''-'' | [] \<Rightarrow> False);
          signed = (case text of c # _ \<Rightarrow> c = CHR ''-'' \<or> c = CHR ''+'' | [] \<Rightarrow> False);
          run = takeWhile is_digit (if signed then tl text else text)
      in if run = [] \<or> 2 ^ 64 \<le> digits_value run then None
         else Some (if negative then - of_int (digits_value run) else of_int (digits_value run)))"

text \<open>
  What the benchmark uses of \<open>double\<close>: the literals \<open>0.0\<close>, \<open>1.0\<close>, \<open>0.50\<close>, \<open>0.95\<close>, \<open>0.99\<close> and \<open>1000.0\<close>, the order,
  the arithmetic, \<open>std::stod\<close>, the conversions from and to \<open>size_t\<close>, and the milliseconds of a duration
  in nanoseconds.
\<close>

record 'd bench_double =
  bd_zero :: 'd
  bd_one :: 'd
  bd_p50 :: 'd
  bd_p95 :: 'd
  bd_p99 :: 'd
  bd_thousand :: 'd
  bd_less :: "'d \<Rightarrow> 'd \<Rightarrow> bool"
  bd_add :: "'d \<Rightarrow> 'd \<Rightarrow> 'd"
  bd_sub :: "'d \<Rightarrow> 'd \<Rightarrow> 'd"
  bd_mul :: "'d \<Rightarrow> 'd \<Rightarrow> 'd"
  bd_div :: "'d \<Rightarrow> 'd \<Rightarrow> 'd"
  bd_of_size :: "size_t \<Rightarrow> 'd"
  bd_to_size :: "'d \<Rightarrow> size_t"
  bd_millis :: "int \<Rightarrow> 'd"
  bd_stod :: "string \<Rightarrow> 'd option"

record 'd Config =
  cf_ops :: size_t
  cf_key_space :: size_t
  cf_read_ratio :: 'd
  cf_stripes :: size_t
  cf_out_path :: string
  cf_ops_override :: bool

text \<open>The values before the arguments are read; \<open>ratio\<close> is the literal \<open>0.8\<close>.\<close>

definition default_config :: "'d \<Rightarrow> 'd Config" where
  "default_config ratio = \<lparr>cf_ops = 1000000, cf_key_space = 2000, cf_read_ratio = ratio, cf_stripes = 8,
     cf_out_path = ''bench/out/latest.json'', cf_ops_override = False\<rparr>"

datatype 'd arguments = Usage | Unknown_argument string | Uncaught_exception | Arguments "'d Config"

function bench_args :: "'d bench_double \<Rightarrow> 'd Config \<Rightarrow> string list \<Rightarrow> 'd arguments" where
  "bench_args D config [] = Arguments config"
| "bench_args D config (arg # args) =
     (if arg = ''--out'' \<and> args \<noteq> [] then bench_args D (config\<lparr>cf_out_path := hd args\<rparr>) (tl args)
      else if arg = ''--ops'' \<and> args \<noteq> [] then
        (case stoull (hd args) of
           None \<Rightarrow> Uncaught_exception
         | Some n \<Rightarrow> bench_args D (config\<lparr>cf_ops := n, cf_ops_override := True\<rparr>) (tl args))
      else if arg = ''--keys'' \<and> args \<noteq> [] then
        (case stoull (hd args) of
           None \<Rightarrow> Uncaught_exception
         | Some n \<Rightarrow> bench_args D (config\<lparr>cf_key_space := n\<rparr>) (tl args))
      else if arg = ''--read-ratio'' \<and> args \<noteq> [] then
        (case bd_stod D (hd args) of
           None \<Rightarrow> Uncaught_exception
         | Some x \<Rightarrow> bench_args D (config\<lparr>cf_read_ratio := x\<rparr>) (tl args))
      else if arg = ''--help'' then Usage
      else Unknown_argument arg)"
  by pat_completeness auto
termination
  by (relation "measure (\<lambda>(D, config, args). length args)") auto

section \<open>The plan\<close>

record ScenarioMatrixResult =
  mr_scenarios :: "ScenarioSpec list"
  mr_error :: string

text \<open>
  \<open>contents\<close> is \<^const>\<open>None\<close> when the file cannot be opened. What a failed parse had already put in the
  vector is dropped here: \<open>main\<close> returns before it looks at the scenarios.
\<close>

definition LoadScenarioMatrix :: "string \<Rightarrow> string option \<Rightarrow> size_t \<Rightarrow> ScenarioMatrixResult" where
  "LoadScenarioMatrix path file default_requests =
     (case file of
        None \<Rightarrow> \<lparr>mr_scenarios = [], mr_error = ''Scenario matrix file missing: '' @ path\<rparr>
      | Some contents \<Rightarrow>
          let invalid = \<lparr>mr_scenarios = [], mr_error = ''Scenario matrix file invalid: '' @ path\<rparr> in
          if contents = [] then invalid
          else case ParseScenarioMatrix contents default_requests of
                 None \<Rightarrow> invalid
               | Some scenarios \<Rightarrow> \<lparr>mr_scenarios = scenarios, mr_error = []\<rparr>)"

record bench_plan =
  pl_ops :: size_t
  pl_specs :: "ScenarioSpec list"
  pl_requests :: "size_t list"

text \<open>\<open>main\<close> from the check of the configuration to the request counts; \<open>Inl\<close> is the message it fails with.\<close>

definition invalid_configuration :: string where
  "invalid_configuration = ''Invalid benchmark configuration.''"

definition matrix_path :: string where
  "matrix_path = ''bench/scenarios/scenario_matrix.json''"

definition plan_benchmark ::
    "'f long_double \<Rightarrow> 'd bench_double \<Rightarrow> 'd Config \<Rightarrow> string option \<Rightarrow> string + bench_plan" where
  "plan_benchmark F D config file =
     (if cf_key_space config = 0 \<or> bd_less D (cf_read_ratio config) (bd_zero D) \<or>
         bd_less D (bd_one D) (cf_read_ratio config)
      then Inl invalid_configuration
      else
        let scenario_matrix = LoadScenarioMatrix matrix_path file (cf_ops config) in
        if mr_error scenario_matrix \<noteq> [] then Inl (mr_error scenario_matrix)
        else
          let scenario_specs = mr_scenarios scenario_matrix in
          if cf_ops_override config then
            (if cf_ops config = 0 then Inl invalid_configuration
             else Inr \<lparr>pl_ops = cf_ops config, pl_specs = scenario_specs,
                       pl_requests = DistributeScenarioRequests F scenario_specs (cf_ops config)\<rparr>)
          else
            (case SumScenarioRequests scenario_specs of
               None \<Rightarrow> Inl invalid_configuration
             | Some total_requests \<Rightarrow>
                 if total_requests = 0 then Inl invalid_configuration
                 else Inr \<lparr>pl_ops = total_requests, pl_specs = scenario_specs,
                           pl_requests = map spec_requests scenario_specs\<rparr>))"

lemma ParseScenarioMatrix_nonempty: "ParseScenarioMatrix contents d = Some specs \<Longrightarrow> specs \<noteq> []"
  by (auto simp: ParseScenarioMatrix_def Let_def split: option.splits if_splits)

lemma plan_benchmark_specs:
  assumes "plan_benchmark F D config file = Inr plan"
  obtains contents where "file = Some contents" "ParseScenarioMatrix contents (cf_ops config) = Some (pl_specs plan)"
    "0 < pl_ops plan"
  using assms
  by (auto simp: plan_benchmark_def LoadScenarioMatrix_def Let_def word_gt_0 split: if_splits option.splits)

lemma plan_benchmark_requests:
  assumes "plan_benchmark F D config file = Inr plan" "length (pl_specs plan) < 2 ^ 64"
  shows "length (pl_requests plan) = length (pl_specs plan) \<and> unat_sum (pl_requests plan) = unat (pl_ops plan)"
proof -
  obtain contents where "ParseScenarioMatrix contents (cf_ops config) = Some (pl_specs plan)"
    using plan_benchmark_specs [OF assms(1)] .
  then have "pl_specs plan \<noteq> []" by (rule ParseScenarioMatrix_nonempty)
  then show ?thesis
    using assms DistributeScenarioRequests_sum [of "pl_specs plan" F "pl_ops plan"]
      SumScenarioRequests_spec [of "pl_specs plan"]
    by (auto simp: plan_benchmark_def Let_def unat_of_nat take_bit_nat_eq_self split: if_splits option.splits)
qed

end
