(* ===== verification/Bench_Report.thy ===== *)
theory Bench_Report
  imports Bench_Requests
begin

text \<open>
  The report that the benchmark writes (\<open>bench/cache_bench.cpp\<close>, end of \<open>main\<close>), and that the
  benchmark's own reader takes it back: a report is again a scenario matrix with the names and the
  request counts of the scenarios that were run. \<open>show_double\<close> is the output of a \<open>double\<close> with
  \<open>std::fixed\<close> and three decimals.
\<close>

section \<open>The report\<close>

record 'd ScenarioResult =
  rs_name :: string
  rs_requests :: size_t
  rs_ops_per_sec :: 'd
  rs_p50_ms :: 'd
  rs_p99_ms :: 'd
  rs_error_rate :: 'd
  rs_coalescing_hit_ratio :: 'd
  rs_duplicate_backend_hits :: 'd
  rs_status :: string

record 'd CoalescingBenchmarkResult =
  cb_duplicate_backend_hits :: 'd
  cb_coalescing_hit_ratio :: 'd

text \<open>What \<open>main\<close> has measured when it writes the report.\<close>

record 'd bench_totals =
  tt_timestamp :: string
  tt_ops :: size_t
  tt_duration_ms :: 'd
  tt_ops_per_sec :: 'd
  tt_p50 :: 'd
  tt_p95 :: 'd
  tt_p99 :: 'd
  tt_read_ops :: size_t
  tt_write_ops :: size_t
  tt_read_ratio :: 'd
  tt_key_space :: size_t

text \<open>The loop that fills \<open>scenario_results\<close> from the plan and the two coalescing measurements.\<close>

definition scenario_result :: "'d bench_double \<Rightarrow> 'd bench_totals \<Rightarrow> 'd CoalescingBenchmarkResult
    \<Rightarrow> 'd CoalescingBenchmarkResult \<Rightarrow> ScenarioSpec \<times> size_t \<Rightarrow> 'd ScenarioResult" where
  "scenario_result D totals coalescing_off coalescing_on = (\<lambda>(spec, requests).
     let name = spec_name spec;
         (hit_ratio, duplicates) =
           (if name = ''coalescing_off'' then
              (cb_coalescing_hit_ratio coalescing_off, cb_duplicate_backend_hits coalescing_off)
            else if name = ''coalescing_on'' then
              (cb_coalescing_hit_ratio coalescing_on, cb_duplicate_backend_hits coalescing_on)
            else (bd_zero D, bd_zero D))
     in \<lparr>rs_name = name, rs_requests = requests, rs_ops_per_sec = tt_ops_per_sec totals,
         rs_p50_ms = tt_p50 totals, rs_p99_ms = tt_p99 totals, rs_error_rate = bd_zero D,
         rs_coalescing_hit_ratio = hit_ratio, rs_duplicate_backend_hits = duplicates, rs_status = ''ok''\<rparr>)"

definition scenario_results :: "'d bench_double \<Rightarrow> 'd bench_totals \<Rightarrow> 'd CoalescingBenchmarkResult
    \<Rightarrow> 'd CoalescingBenchmarkResult \<Rightarrow> bench_plan \<Rightarrow> 'd ScenarioResult list" where
  "scenario_results D totals coalescing_off coalescing_on plan =
     map (scenario_result D totals coalescing_off coalescing_on) (zip (pl_specs plan) (pl_requests plan))"

definition quoted :: "string \<Rightarrow> string" where
  "quoted s = CHR 0x22 # s @ [CHR 0x22]"

definition line :: "string \<Rightarrow> string \<Rightarrow> string \<Rightarrow> string \<Rightarrow> string" where
  "line indent key val end_of_line = indent @ quoted key @ '': '' @ val @ end_of_line @ [CHR 0x0A]"

definition show_size :: "size_t \<Rightarrow> string" where
  "show_size n = to_string (uint n)"

definition scenario_block :: "('d \<Rightarrow> string) \<Rightarrow> 'd ScenarioResult \<Rightarrow> string" where
  "scenario_block show_double r =
     (let entry = line ''      '' in
      ''    {'' @ [CHR 0x0A] @
      entry ''name'' (quoted (JsonEscapeString (rs_name r))) '','' @
      entry ''requests'' (show_size (rs_requests r)) '','' @
      entry ''ops_per_sec'' (show_double (rs_ops_per_sec r)) '','' @
      entry ''p50_ms'' (show_double (rs_p50_ms r)) '','' @
      entry ''p99_ms'' (show_double (rs_p99_ms r)) '','' @
      entry ''error_rate'' (show_double (rs_error_rate r)) '','' @
      entry ''coalescing_hit_ratio'' (show_double (rs_coalescing_hit_ratio r)) '','' @
      entry ''duplicate_backend_hits'' (show_double (rs_duplicate_backend_hits r)) '','' @
      entry ''status'' (quoted (JsonEscapeString (rs_status r))) '''' @
      ''    }'')"

fun scenario_blocks :: "('d \<Rightarrow> string) \<Rightarrow> 'd ScenarioResult list \<Rightarrow> string" where
  "scenario_blocks show_double [] = []"
| "scenario_blocks show_double (r # rs) =
     scenario_block show_double r @ (if rs \<noteq> [] then '','' else '''') @ [CHR 0x0A] @ scenario_blocks show_double rs"

definition bench_report :: "('d \<Rightarrow> string) \<Rightarrow> 'd bench_totals \<Rightarrow> 'd ScenarioResult list \<Rightarrow> string" where
  "bench_report show_double t results =
     (let entry = line ''  '' in
      ''{'' @ [CHR 0x0A] @
      entry ''timestamp'' (quoted (JsonEscapeString (tt_timestamp t))) '','' @
      entry ''ops_total'' (show_size (tt_ops t)) '','' @
      entry ''duration_ms'' (show_double (tt_duration_ms t)) '','' @
      entry ''ops_per_sec'' (show_double (tt_ops_per_sec t)) '','' @
      entry ''p50_ms'' (show_double (tt_p50 t)) '','' @
      entry ''p95_ms'' (show_double (tt_p95 t)) '','' @
      entry ''p99_ms'' (show_double (tt_p99 t)) '','' @
      entry ''read_ops'' (show_size (tt_read_ops t)) '','' @
      entry ''write_ops'' (show_size (tt_write_ops t)) '','' @
      entry ''read_ratio'' (show_double (tt_read_ratio t)) '','' @
      entry ''key_space'' (show_size (tt_key_space t)) '','' @
      ''  '' @ quoted ''scenarios'' @ '': ['' @ [CHR 0x0A] @
      scenario_blocks show_double results @
      ''  ]'' @ [CHR 0x0A] @
      ''}'' @ [CHR 0x0A])"

section \<open>Reading the lines\<close>

definition plain :: "string \<Rightarrow> bool" where
  "plain key \<longleftrightarrow> list_all (\<lambda>c. escape_char c = [c]) key"

lemma JsonEscapeString_plain: "plain key \<Longrightarrow> JsonEscapeString key = key"
  by (induction key) (auto simp: plain_def JsonEscapeString_def)

lemma quoted_plain: "plain key \<Longrightarrow> quoted key = json_string key"
  by (simp add: quoted_def json_string_def JsonEscapeString_plain)

lemma quoted_escaped: "quoted (JsonEscapeString s) = json_string s"
  by (simp add: quoted_def json_string_def)

lemma plain_keys:
  "plain ''name''" "plain ''requests''" "plain ''ops_per_sec''" "plain ''p50_ms''" "plain ''p95_ms''" "plain ''p99_ms''"
  "plain ''error_rate''" "plain ''coalescing_hit_ratio''" "plain ''duplicate_backend_hits''" "plain ''status''"
  "plain ''timestamp''" "plain ''ops_total''" "plain ''duration_ms''" "plain ''read_ops''" "plain ''write_ops''"
  "plain ''read_ratio''" "plain ''key_space''" "plain ''scenarios''"
  by code_simp+

lemma number_ok_show_size: "number_ok (show_size n)"
proof -
  let ?ds = "digits (nat (uint n))"
  have "is_digit (hd ?ds)" by (rule digits_all_digits) (rule hd_in_set, simp)
  moreover have "list_all is_digit (tl ?ds)"
    by (auto simp: list_all_iff dest: list.set_sel(2) [rotated] intro: digits_all_digits)
  ultimately show ?thesis by (auto simp: show_size_def to_string_def number_ok_def list_all_iff)
qed

lemma natural_of_show_size: "natural_of (Jnumber (show_size n)) = Some n"
proof -
  have "digits_value (digits (nat (uint n))) = uint n" by (simp add: digits_value_digits)
  moreover have "uint n < 2 ^ 64" using uint_bounded [of n] by simp
  ultimately show ?thesis by (simp add: show_size_def to_string_def list_all_iff digits_all_digits)
qed

text \<open>One line read by the loop over a scenario's fields, and by the loop over the matrix.\<close>

lemma scenario_loop_space [simp]: "isspace c \<Longrightarrow> scenario_loop f nm r (c # input) = scenario_loop f nm r input"
  using after_spaces(2) [of "[c]" input]
  by (subst (1 2) scenario_loop.simps) (simp add: scenario_field_def)

lemma matrix_loop_space [simp]: "isspace c \<Longrightarrow> matrix_loop f s d (c # input) = matrix_loop f s d input"
  using after_spaces(2) [of "[c]" input]
  by (subst (1 2) matrix_loop.simps) (simp add: matrix_field_def)

lemma space_chars [simp]: "isspace CHR 0x0A" "isspace CHR '' ''"
  by (simp_all add: isspace_def)

text \<open>A line is a field, as far as the reader is concerned.\<close>

lemma ParseString_line:
  "list_all isspace w \<Longrightarrow> plain k \<Longrightarrow> ParseString (w @ quoted k @ rest) = Some (k, rest)"
  by (simp add: quoted_plain ParseString_json_string)

lemma after_blank:
  "ParseString (CHR '' '' # i) = ParseString i" "SkipValue (CHR '' '' # i) = SkipValue i"
  "ParseUnsigned (CHR '' '' # i) = ParseUnsigned i"
  using after_spaces(2,3) [of "'' ''" i] by (simp_all add: ParseUnsigned_def SkipWhitespace_def)

lemma scenario_field_line:
  assumes "list_all isspace w" "plain k" "json_ok j" "ends_number rest"
  shows "scenario_field f nm r (w @ quoted k @ '': '' @ json_text [] j @ rest) =
    map_option (\<lambda>(f, nm, r). (f, nm, r, rest)) (scenario_step (f, nm, r) (k, j))"
  using assms(3,4) unfolding scenario_field_def ParseString_line [OF assms(1,2)]
  by (simp add: after_blank ParseString_json ParseUnsigned_json SkipValue_json option.map_comp comp_def)

lemma matrix_field_line:
  assumes "list_all isspace w" "plain k" "json_ok j" "ends_number rest" "k \<noteq> ''scenarios''"
  shows "matrix_field f s d (w @ quoted k @ '': '' @ json_text [] j @ rest) = Some (f, s, rest)"
  using assms(3-5) unfolding matrix_field_def ParseString_line [OF assms(1,2)]
  by (simp add: after_blank SkipValue_json)

lemma comma_ends: "ends_number (CHR '','' # rest)" "ends_number (CHR 0x0A # rest)"
  by (simp_all add: ends_number_def space_ends_number)

lemma scenario_loop_line:
  assumes "list_all isspace w" "plain k" "json_ok j" "scenario_step (f, nm, r) (k, j) = Some (f', nm', r')"
  shows "scenario_loop f nm r (line w k (json_text [] j) '','' @ rest) = scenario_loop f' nm' r' rest"
  using scenario_field_line [OF assms(1-3) comma_ends(1), of f nm r "CHR 0x0A # rest"] assms(4)
  by (subst scenario_loop.simps) (simp add: line_def)

lemma scenario_loop_last:
  assumes "list_all isspace w" "plain k" "json_ok j" "scenario_step (f, nm, r) (k, j) = Some (True, nm', r')"
  shows "scenario_loop f nm r (line w k (json_text [] j) '''' @ ''    }'' @ rest) =
    Some (\<lparr>spec_name = nm', spec_requests = r'\<rparr>, rest)"
  using scenario_field_line [OF assms(1-3) comma_ends(2), of f nm r "''    }'' @ rest"] assms(4)
    after_spaces(4) [of "[CHR 0x0A] @ ''    ''" "CHR ''}''" "CHR ''}'' # rest"]
  by (subst scenario_loop.simps) (simp add: line_def)

lemma matrix_loop_line:
  assumes "list_all isspace w" "plain k" "json_ok j" "k \<noteq> ''scenarios''"
  shows "matrix_loop f s d (line w k (json_text [] j) '','' @ rest) = matrix_loop f s d rest"
  using matrix_field_line [OF assms(1-3) comma_ends(1) assms(4), of f s d "CHR 0x0A # rest"]
  by (subst matrix_loop.simps) (simp add: line_def)

section \<open>Reading the report\<close>

lemma indent_space: "list_all isspace ''      ''" "list_all isspace ''  ''"
  by simp_all

lemma block_lines:
  "scenario_loop f nm r (line ''      '' ''name'' (json_string s) '','' @ rest) = scenario_loop True s r rest"
  "scenario_loop f nm r (line ''      '' ''requests'' (show_size n) '','' @ rest) = scenario_loop f nm n rest"
  "scenario_loop True nm r (line ''      '' ''status'' (json_string s) '''' @ ''    }'' @ rest) =
    Some (\<lparr>spec_name = nm, spec_requests = r\<rparr>, rest)"
  using scenario_loop_line [OF indent_space(1) plain_keys(1), of "Jstring s"]
    scenario_loop_line [OF indent_space(1) plain_keys(2), of "Jnumber (show_size n)"]
    scenario_loop_last [OF indent_space(1) plain_keys(10), of "Jstring s" True]
  by (simp_all add: number_ok_show_size natural_of_show_size del: natural_of.simps)

lemma block_number_line:
  assumes "number_ok t" "plain k" "k \<noteq> ''name''" "k \<noteq> ''requests''"
  shows "scenario_loop f nm r (line ''      '' k t '','' @ rest) = scenario_loop f nm r rest"
  using scenario_loop_line [OF indent_space(1) assms(2), of "Jnumber t" f nm r] assms by simp

lemma ParseScenarioObject_block:
  assumes "\<And>x. number_ok (show_double x)"
  shows "ParseScenarioObject d (scenario_block show_double r @ rest) =
    Some (\<lparr>spec_name = rs_name r, spec_requests = rs_requests r\<rparr>, rest)"
proof -
  let ?body = "tl (dropWhile (\<lambda>c. c \<noteq> CHR 0x0A) (scenario_block show_double r @ rest))"
  have "scenario_loop False [] d ?body = Some (\<lparr>spec_name = rs_name r, spec_requests = rs_requests r\<rparr>, rest)"
    by (simp add: scenario_block_def Let_def quoted_escaped block_lines
      block_lines(3) [simplified] block_number_line assms plain_keys)
  moreover have "opens (CHR 0x0A # ?body)"
    by (simp add: opens_def scenario_block_def Let_def line_def quoted_def SkipWhitespace_def)
  moreover have "Consume CHR ''{'' (scenario_block show_double r @ rest) = Some (CHR 0x0A # ?body)"
    by (simp add: scenario_block_def Let_def Consume_def SkipWhitespace_def)
  moreover have "scenario_loop False [] d (SkipWhitespace i) = scenario_loop False [] d i" for i
    by (subst (1 2) scenario_loop.simps) (simp add: scenario_field_def)
  ultimately show ?thesis using opens_Consume(2) by (simp add: ParseScenarioObject_def)
qed

definition run_spec :: "'d ScenarioResult \<Rightarrow> ScenarioSpec" where
  "run_spec r = \<lparr>spec_name = rs_name r, spec_requests = rs_requests r\<rparr>"

lemma scenarios_loop_blocks:
  assumes "\<And>x. number_ok (show_double x)"
  shows "rs \<noteq> [] \<Longrightarrow> scenarios_loop s d (scenario_blocks show_double rs @ ''  ]'' @ rest) =
    Some (s @ map run_spec rs, rest)"
proof (induction rs arbitrary: s)
  case (Cons r rs)
  have newline: "scenarios_loop s d (CHR 0x0A # i) = scenarios_loop s d i" for s i
    using after_spaces(1) [of "[CHR 0x0A]" "CHR ''{''" i]
    by (subst (1 2) scenarios_loop.simps) (simp add: ParseScenarioObject_def)
  have close: "after_item CHR '']'' (CHR 0x0A # ''  ]'' @ rest) = Some (True, rest)"
    using after_spaces(4) [of "CHR 0x0A # ''  ''" "CHR '']''" "CHR '']'' # rest"] by simp
  show ?case
  proof (cases "rs = []")
    case True
    then show ?thesis using close
      by (subst scenarios_loop.simps) (simp add: ParseScenarioObject_block [OF assms] run_spec_def)
  next
    case False
    then show ?thesis using Cons.IH [OF False]
      by (subst scenarios_loop.simps) (simp add: ParseScenarioObject_block [OF assms] newline run_spec_def)
  qed
qed simp

lemma report_lines:
  "matrix_loop f s d (line ''  '' ''timestamp'' (json_string v) '','' @ rest) = matrix_loop f s d rest"
  "number_ok t \<Longrightarrow> plain k \<Longrightarrow> k \<noteq> ''scenarios'' \<Longrightarrow>
    matrix_loop f s d (line ''  '' k t '','' @ rest) = matrix_loop f s d rest"
  using matrix_loop_line [OF indent_space(2) plain_keys(11), of "Jstring v"]
    matrix_loop_line [OF indent_space(2), of k "Jnumber t"] by simp_all

lemma matrix_loop_report:
  assumes numbers: "\<And>x. number_ok (show_double x)" and "rs \<noteq> []"
  shows "matrix_loop False [] d (''  '' @ quoted ''scenarios'' @ '': ['' @ [CHR 0x0A] @
      scenario_blocks show_double rs @ ''  ]'' @ [CHR 0x0A] @ ''}'' @ rest) = Some (True, map run_spec rs, rest)"
proof -
  let ?blocks = "scenario_blocks show_double rs @ ''  ]'' @ [CHR 0x0A] @ ''}'' @ rest"
  obtain r rs' where rs: "rs = r # rs'" using assms(2) by (cases rs) auto
  have "opens (CHR 0x0A # ?blocks)"
    by (simp add: rs opens_def scenario_block_def Let_def SkipWhitespace_def)
  moreover have "scenarios_loop [] d (SkipWhitespace (CHR 0x0A # ?blocks)) = Some (map run_spec rs, [CHR 0x0A] @ ''}'' @ rest)"
    using scenarios_loop_blocks [OF numbers assms(2), where s = "[]" and d = d and rest = "[CHR 0x0A] @ ''}'' @ rest"]
      after_spaces(1) [of "[CHR 0x0A]" "CHR ''{''" ?blocks]
    by (subst scenarios_loop.simps, subst (asm) scenarios_loop.simps) (simp add: ParseScenarioObject_def)
  moreover have "Consume CHR ''['' (CHR '' '' # CHR ''['' # i) = Some i" for i
    by (simp add: Consume_def SkipWhitespace_def)
  ultimately have "ParseScenarioArray [] d ('' ['' @ [CHR 0x0A] @ ?blocks) = Some (map run_spec rs, [CHR 0x0A] @ ''}'' @ rest)"
    using opens_Consume(1) by (simp add: ParseScenarioArray_def)
  moreover have "after_item CHR ''}'' (CHR 0x0A # CHR ''}'' # rest) = Some (True, rest)"
    using after_spaces(4) [of "[CHR 0x0A]" "CHR ''}''" "CHR ''}'' # rest"] by simp
  ultimately show ?thesis
    using ParseString_line [OF indent_space(2) plain_keys(18)]
    by (subst matrix_loop.simps) (simp add: matrix_field_def)
qed

lemma ParseScenarioMatrix_report:
  assumes numbers: "\<And>x. number_ok (show_double x)" and "results \<noteq> []"
  shows "ParseScenarioMatrix (bench_report show_double t results) d = Some (map run_spec results)"
proof -
  define body where "body = tl (tl (bench_report show_double t results))"
  have report: "bench_report show_double t results = CHR ''{'' # CHR 0x0A # body"
    by (simp add: body_def bench_report_def Let_def)
  have "opens (CHR 0x0A # body)"
    by (simp add: body_def opens_def bench_report_def Let_def line_def quoted_def SkipWhitespace_def)
  moreover have "matrix_loop False [] d (SkipWhitespace i) = matrix_loop False [] d i" for i
    by (subst (1 2) matrix_loop.simps) (simp add: matrix_field_def)
  moreover have "matrix_loop False [] d body = Some (True, map run_spec results, [CHR 0x0A])"
    using matrix_loop_report [OF numbers assms(2), where d = d and rest = "[CHR 0x0A]"]
    by (simp add: body_def bench_report_def Let_def quoted_escaped report_lines numbers number_ok_show_size plain_keys)
  moreover have "AtEnd [CHR 0x0A]" by (simp add: AtEnd_def SkipWhitespace_def)
  ultimately show ?thesis
    using opens_Consume(2) assms(2) by (simp add: report ParseScenarioMatrix_def)
qed

lemma run_spec_results:
  "map run_spec (scenario_results D t off on plan) =
    map (\<lambda>(spec, n). \<lparr>spec_name = spec_name spec, spec_requests = n\<rparr>) (zip (pl_specs plan) (pl_requests plan))"
  by (auto simp: scenario_results_def scenario_result_def run_spec_def Let_def)

section \<open>A sample\<close>

text \<open>A concrete instance of the parameters: integer arithmetic, and three decimals that are zero.\<close>

definition whole_ld :: "int long_double" where
  "whole_ld = \<lparr>ld_zero = 0, ld_of = uint, ld_to = of_int, ld_add = (+), ld_sub = (-), ld_mul = (*), ld_div = (div),
     ld_floor = (\<lambda>x. x), ld_less = (<), ld_le = (\<le>), ld_eq = (=)\<rparr>"

definition whole_double :: "int bench_double" where
  "whole_double = \<lparr>bd_zero = 0, bd_one = 1, bd_p50 = 0, bd_p95 = 0, bd_p99 = 0, bd_thousand = 1000,
     bd_less = (<), bd_add = (+), bd_sub = (-), bd_mul = (*), bd_div = (div), bd_of_size = uint, bd_to_size = of_int,
     bd_millis = (\<lambda>ns. ns div 1000000), bd_stod = (\<lambda>s. None)\<rparr>"

definition show_whole :: "int \<Rightarrow> string" where
  "show_whole i = to_string i @ ''.000''"

definition sample_config :: "int Config" where
  "sample_config = \<lparr>cf_ops = 10, cf_key_space = 5, cf_read_ratio = 1, cf_stripes = 8, cf_out_path = ''o'',
     cf_ops_override = True\<rparr>"

definition sample_json :: json where
  "sample_json = Jobject [(''scenarios'', Jarray [
     Jobject [(''name'', Jstring ''reads''), (''requests'', Jnumber ''3'')],
     Jobject [(''name'', Jstring ''writes''), (''requests'', Jnumber ''4'')]])]"

definition sample_plan :: bench_plan where
  "sample_plan = \<lparr>pl_ops = 10,
     pl_specs = [\<lparr>spec_name = ''reads'', spec_requests = 3\<rparr>, \<lparr>spec_name = ''writes'', spec_requests = 4\<rparr>],
     pl_requests = [5, 5]\<rparr>"

lemma sample_plan_eq:
  "plan_benchmark whole_ld whole_double sample_config (Some (json_text [] sample_json)) = Inr sample_plan"
  by code_simp

section \<open>Properties\<close>

text \<open>
  The request counts that the benchmark settles on are one per scenario and add up, without
  overflow, to its positive number of operations, whether the counts come from the matrix or are
  distributed over the scenarios by weight, for every arithmetic of \<open>long double\<close>.\<close>

theorem benchmark_plan_adds_up:
  assumes "plan_benchmark F D config file = Inr plan" "length (pl_specs plan) < 2 ^ 64"
  shows "pl_specs plan \<noteq> [] \<and> 0 < pl_ops plan \<and> length (pl_requests plan) = length (pl_specs plan) \<and>
    unat_sum (pl_requests plan) = unat (pl_ops plan)"
proof -
  obtain contents where "ParseScenarioMatrix contents (cf_ops config) = Some (pl_specs plan)" "0 < pl_ops plan"
    using plan_benchmark_specs [OF assms(1)] .
  then show ?thesis using ParseScenarioMatrix_nonempty plan_benchmark_requests [OF assms] by blast
qed

theorem benchmark_plan_adds_up_witness:
  "plan_benchmark whole_ld whole_double sample_config (Some (json_text [] sample_json)) = Inr sample_plan \<and>
   pl_specs sample_plan \<noteq> [] \<and> 0 < pl_ops sample_plan \<and>
   length (pl_requests sample_plan) = length (pl_specs sample_plan) \<and>
   unat_sum (pl_requests sample_plan) = unat (pl_ops sample_plan)"
  using sample_plan_eq benchmark_plan_adds_up [OF sample_plan_eq] by (simp add: sample_plan_def)

lemma replayed_specs:
  assumes "length ns = length specs"
  shows "map spec_requests (map (\<lambda>(spec, n). \<lparr>spec_name = spec_name spec, spec_requests = n\<rparr>) (zip specs ns)) = ns"
    "map spec_name (map (\<lambda>(spec, n). \<lparr>spec_name = spec_name spec, spec_requests = n\<rparr>) (zip specs ns)) = map spec_name specs"
  using assms by (auto simp: list_eq_iff_nth_eq)


definition sample_totals :: "int bench_totals" where
  "sample_totals = \<lparr>tt_timestamp = ''now'', tt_ops = 10, tt_duration_ms = 1, tt_ops_per_sec = 2, tt_p50 = 3, tt_p95 = 4,
     tt_p99 = 5, tt_read_ops = 6, tt_write_ops = 4, tt_read_ratio = 1, tt_key_space = 5\<rparr>"

lemma number_ok_show_whole: "number_ok (show_whole i)"
proof -
  have tail: "list_all (\<lambda>c. is_digit c \<or> number_tail c) ''.000''" by code_simp
  have ds: "list_all is_digit (digits n)" for n by (simp add: list_all_iff digits_all_digits)
  obtain c cs where "digits (nat \<bar>i\<bar>) = c # cs" by (cases "digits (nat \<bar>i\<bar>)") auto
  then show ?thesis using ds [of "nat \<bar>i\<bar>"] tail
    by (cases "i < 0") (auto simp: show_whole_def to_string_def number_ok_def list_all_iff)
qed


end
