(* ===== verification/Bench_Workload.thy ===== *)
theory Bench_Workload
  imports Store_Roomy Bench_Report
begin

text \<open>
  The measured part of the benchmark (\<open>main\<close> of \<open>bench/cache_bench.cpp\<close>): the store with a limit of
  twice the number of keys, the warm-up, the loop of reads and writes on random keys, and the
  percentiles of the latencies. The random draws and the readings of the clock are parameters.
\<close>

section \<open>The workload\<close>

record 'd bench_world =
  bw_hash :: hasher
  bw_warm_clock :: "nat \<Rightarrow> time_point \<times> time_point \<times> time_point"
  bw_key :: "nat \<Rightarrow> size_t"
  bw_op :: "nat \<Rightarrow> 'd"
  bw_op_start :: "nat \<Rightarrow> time_point"
  bw_set_clock :: "nat \<Rightarrow> time_point \<times> time_point \<times> time_point"
  bw_get_clock :: "nat \<Rightarrow> time_point"
  bw_op_end :: "nat \<Rightarrow> time_point"
  bw_bench_start :: time_point
  bw_bench_end :: time_point

definition bench_keys :: "'d Config \<Rightarrow> string list" where
  "bench_keys config = map (\<lambda>i. ''key_'' @ to_string (int i)) [0..<unat (cf_key_space config)]"

definition bench_store :: "'d Config \<Rightarrow> ConcurrentStore" where
  "bench_store config = new_store (cf_stripes config) (cf_key_space config * 2)"

fun warm_up :: "'d bench_world \<Rightarrow> nat \<Rightarrow> string list \<Rightarrow> ConcurrentStore \<Rightarrow> ConcurrentStore option" where
  "warm_up W i [] store = Some store"
| "warm_up W i (key # keys) store =
     (case Store_Set (bw_hash W) key ''warm'' None (bw_warm_clock W i) store of
        None \<Rightarrow> None
      | Some store' \<Rightarrow> warm_up W (Suc i) keys store')"

text \<open>
  The variables of the loop. The code discards what \<open>Get\<close> returns; \<open>wl_reads\<close> keeps it, with the key,
  for the statements below.
\<close>

record 'd workload =
  wl_store :: ConcurrentStore
  wl_latencies_ms :: "'d list"
  wl_read_ops :: size_t
  wl_write_ops :: size_t
  wl_reads :: "(string \<times> string option) list"

text \<open>\<open>None\<close>: an operation of the store that does not return, or a key behind the end of \<open>keys\<close>.\<close>

definition workload_step ::
    "'d bench_double \<Rightarrow> 'd bench_world \<Rightarrow> 'd Config \<Rightarrow> string list \<Rightarrow> nat \<Rightarrow> 'd workload \<Rightarrow> 'd workload option" where
  "workload_step D W config keys i wl =
     (if length keys \<le> unat (bw_key W i) then None
      else
        let key = keys ! unat (bw_key W i);
            do_read = bd_less D (bw_op W i) (cf_read_ratio config);
            latency = bd_millis D (bw_op_end W i - bw_op_start W i);
            timed = (\<lambda>wl. wl\<lparr>wl_latencies_ms := wl_latencies_ms wl @ [latency]\<rparr>)
        in if do_read then
             (case Store_Get (bw_hash W) key (bw_get_clock W i) (wl_store wl) of (val, store) \<Rightarrow>
                Some (timed (wl\<lparr>wl_store := store, wl_read_ops := wl_read_ops wl + 1,
                                wl_reads := wl_reads wl @ [(key, val)]\<rparr>)))
           else
             (case Store_Set (bw_hash W) key (''value_'' @ to_string (int i)) None (bw_set_clock W i) (wl_store wl) of
                None \<Rightarrow> None
              | Some store \<Rightarrow> Some (timed (wl\<lparr>wl_store := store, wl_write_ops := wl_write_ops wl + 1\<rparr>))))"

text \<open>The loop, from the iteration \<open>i\<close> on for \<open>n\<close> iterations.\<close>

fun workload_loop ::
    "'d bench_double \<Rightarrow> 'd bench_world \<Rightarrow> 'd Config \<Rightarrow> string list \<Rightarrow> nat \<Rightarrow> nat \<Rightarrow> 'd workload \<Rightarrow> 'd workload option" where
  "workload_loop D W config keys i 0 wl = Some wl"
| "workload_loop D W config keys i (Suc n) wl =
     (case workload_step D W config keys i wl of
        None \<Rightarrow> None
      | Some wl' \<Rightarrow> workload_loop D W config keys (Suc i) n wl')"

definition run_workload ::
    "'d bench_double \<Rightarrow> 'd bench_world \<Rightarrow> 'd Config \<Rightarrow> size_t \<Rightarrow> 'd workload option" where
  "run_workload D W config ops =
     (let keys = bench_keys config in
      case warm_up W 0 keys (bench_store config) of
        None \<Rightarrow> None
      | Some store \<Rightarrow>
          workload_loop D W config keys 0 (unat ops)
            \<lparr>wl_store = store, wl_latencies_ms = [], wl_read_ops = 0, wl_write_ops = 0, wl_reads = []\<rparr>)"

section \<open>Every read hits\<close>

lemma digits_inj: "digits m = digits n \<Longrightarrow> m = n"
  by (metis digits_value_digits of_nat_eq_iff)

lemma distinct_bench_keys: "distinct (bench_keys config)"
  by (auto simp: bench_keys_def distinct_map inj_on_def to_string_def dest: digits_inj)

lemma length_bench_keys [simp]: "length (bench_keys config) = unat (cf_key_space config)"
  by (simp add: bench_keys_def)

text \<open>The store between two operations: exact, without expiry, over a subset of the keys.\<close>

definition bench_store_inv :: "hasher \<Rightarrow> string list \<Rightarrow> (string \<rightharpoonup> string) \<Rightarrow> ConcurrentStore \<Rightarrow> bool" where
  "bench_store_inv hash keys M s \<longleftrightarrow> store_inv hash s \<and> room_for s (set keys) \<and> dom M \<subseteq> set keys \<and>
     contents hash s = map_option (\<lambda>v. (v, None)) \<circ> M"

lemma bench_set:
  assumes "bench_store_inv hash keys M s" "k \<in> set keys"
  shows "\<exists>s'. Store_Set hash k v None clk s = Some s' \<and> bench_store_inv hash keys (M(k \<mapsto> v)) s'"
proof -
  obtain t0 t1 t2 where clk: "clk = (t0, t1, t2)" by (cases clk)
  have inv: "store_inv hash s" "room_for s (set keys)" "dom M \<subseteq> set keys"
    "contents hash s = map_option (\<lambda>v. (v, None)) \<circ> M" using assms(1) by (simp_all add: bench_store_inv_def)
  have "dom (contents hash s) \<subseteq> set keys" using inv(3,4) by auto
  from Store_Set_roomy [OF inv(1,2) this assms(2), of v None t0 t1 t2] show ?thesis
    using inv assms(2) unfolding clk by (auto simp: bench_store_inv_def room_for_def expiry_of_def fun_eq_iff)
qed

lemma bench_get:
  assumes "bench_store_inv hash keys M s"
  shows "fst (Store_Get hash k now s) = M k" "bench_store_inv hash keys M (snd (Store_Get hash k now s))"
proof -
  have inv: "store_inv hash s" and c: "contents hash s = map_option (\<lambda>v. (v, None)) \<circ> M"
    using assms by (simp_all add: bench_store_inv_def)
  have drop: "drop_expired now (contents hash s) = contents hash s"
    by (auto simp: c drop_expired_def dead_at_def fun_eq_iff split: option.splits)
  show "fst (Store_Get hash k now s) = M k"
    unfolding Store_Get_refines(1) [OF inv] drop unfolding c by (cases "M k") simp_all
  show "bench_store_inv hash keys M (snd (Store_Get hash k now s))"
    using assms unfolding bench_store_inv_def Store_Get_refines(2) [OF inv] drop
    by (auto simp: inv_pres room_for_def fun_eq_iff)
qed

definition warm :: "string list \<Rightarrow> string \<rightharpoonup> string" where
  "warm keys = (\<lambda>k. if k \<in> set keys then Some ''warm'' else None)"

lemma warm_up_returns:
  "bench_store_inv (bw_hash W) all M s \<Longrightarrow> set keys \<subseteq> set all \<Longrightarrow>
    \<exists>s'. warm_up W i keys s = Some s' \<and> bench_store_inv (bw_hash W) all (M ++ warm keys) s'"
proof (induction keys arbitrary: i M s)
  case Nil
  moreover have "M ++ warm [] = M" by (auto simp: warm_def fun_eq_iff map_add_def)
  ultimately show ?case by simp
next
  case (Cons k keys)
  then have "k \<in> set all" by simp
  from bench_set [OF Cons.prems(1) this] obtain s1 where
    s1: "Store_Set (bw_hash W) k ''warm'' None (bw_warm_clock W i) s = Some s1"
      "bench_store_inv (bw_hash W) all (M(k \<mapsto> ''warm'')) s1" by blast
  have "M(k \<mapsto> ''warm'') ++ warm keys = M ++ warm (k # keys)"
    by (auto simp: fun_eq_iff map_add_def warm_def)
  then show ?case using Cons.IH [OF s1(2), of "Suc i"] Cons.prems(2) s1(1) by (simp del: fun_upd_apply)
qed

text \<open>
  What the workload reads, by its meaning: all keys start with \<open>warm\<close>, and a read returns what the
  last write of its key in the loop has left.
\<close>

fun expected_reads ::
    "'d bench_double \<Rightarrow> 'd bench_world \<Rightarrow> 'd Config \<Rightarrow> nat \<Rightarrow> nat \<Rightarrow> (string \<rightharpoonup> string) \<Rightarrow> (string \<times> string option) list" where
  "expected_reads D W config i 0 M = []"
| "expected_reads D W config i (Suc n) M =
     (let key = bench_keys config ! unat (bw_key W i) in
      if bd_less D (bw_op W i) (cf_read_ratio config) then (key, M key) # expected_reads D W config (Suc i) n M
      else expected_reads D W config (Suc i) n (M(key \<mapsto> ''value_'' @ to_string (int i))))"

definition tallied :: "nat \<Rightarrow> 'd workload \<Rightarrow> bool" where
  "tallied i wl \<longleftrightarrow> length (wl_latencies_ms wl) = i \<and> wl_read_ops wl = of_nat (length (wl_reads wl)) \<and>
     length (wl_reads wl) \<le> i \<and> wl_write_ops wl = of_nat (i - length (wl_reads wl))"

lemma tallied_counters:
  fixes ops :: size_t
  assumes "tallied (unat ops) wl"
  shows "unat (wl_read_ops wl) = length (wl_reads wl)" "unat (wl_write_ops wl) = unat ops - length (wl_reads wl)"
proof -
  have "unat (of_nat n :: size_t) = n" if "n \<le> unat ops" for n
    using that unsigned_less [of ops, where ?'a = nat] by (simp add: unat_of_nat take_bit_nat_eq_self)
  then show "unat (wl_read_ops wl) = length (wl_reads wl)" "unat (wl_write_ops wl) = unat ops - length (wl_reads wl)"
    using assms unfolding tallied_def by (metis diff_le_self)+
qed

lemma tallied_sum: "tallied (unat (ops :: size_t)) wl \<Longrightarrow> unat (wl_read_ops wl) + unat (wl_write_ops wl) = unat ops"
  using tallied_counters by (fastforce simp: tallied_def)

lemma workload_step_effect:
  assumes inv: "bench_store_inv (bw_hash W) (bench_keys config) M (wl_store wl)"
    and key: "bw_key W i < cf_key_space config" and tally: "tallied i wl"
  defines "key \<equiv> bench_keys config ! unat (bw_key W i)"
  shows "\<exists>wl'. workload_step D W config (bench_keys config) i wl = Some wl' \<and> tallied (Suc i) wl' \<and>
    (if bd_less D (bw_op W i) (cf_read_ratio config)
     then wl_reads wl' = wl_reads wl @ [(key, M key)] \<and>
       bench_store_inv (bw_hash W) (bench_keys config) M (wl_store wl')
     else wl_reads wl' = wl_reads wl \<and>
       bench_store_inv (bw_hash W) (bench_keys config) (M(key \<mapsto> ''value_'' @ to_string (int i))) (wl_store wl'))"
proof -
  have at: "\<not> length (bench_keys config) \<le> unat (bw_key W i)" using key by (simp add: word_less_nat_alt)
  then have mem: "key \<in> set (bench_keys config)" by (simp add: key_def)
  obtain val s1 where get: "Store_Get (bw_hash W) key (bw_get_clock W i) (wl_store wl) = (val, s1)" by fastforce
  obtain s2 where set: "Store_Set (bw_hash W) key (''value_'' @ to_string (int i)) None (bw_set_clock W i) (wl_store wl) = Some s2"
    "bench_store_inv (bw_hash W) (bench_keys config) (M(key \<mapsto> ''value_'' @ to_string (int i))) s2"
    using bench_set [OF inv mem] by blast
  show ?thesis
    unfolding workload_step_def if_not_P [OF at] Let_def key_def [symmetric]
    using get set tally bench_get [OF inv, of key "bw_get_clock W i"]
    by (auto simp: tallied_def Suc_diff_le)
qed

lemma workload_loop_effect:
  assumes "bench_store_inv (bw_hash W) (bench_keys config) M (wl_store wl)" "tallied i wl"
    and keys: "\<And>i. bw_key W i < cf_key_space config"
  shows "\<exists>wl' M'. workload_loop D W config (bench_keys config) i n wl = Some wl' \<and> tallied (i + n) wl' \<and>
    wl_reads wl' = wl_reads wl @ expected_reads D W config i n M \<and> dom M \<subseteq> dom M' \<and>
    bench_store_inv (bw_hash W) (bench_keys config) M' (wl_store wl')"
  using assms(1,2)
proof (induction n arbitrary: i wl M)
  case (Suc n)
  from workload_step_effect [OF Suc.prems(1) keys Suc.prems(2), of D] obtain wl' where
    step: "workload_step D W config (bench_keys config) i wl = Some wl'" and tally: "tallied (Suc i) wl'" and
    eff: "if bd_less D (bw_op W i) (cf_read_ratio config)
     then wl_reads wl' = wl_reads wl @ [(bench_keys config ! unat (bw_key W i), M (bench_keys config ! unat (bw_key W i)))] \<and>
       bench_store_inv (bw_hash W) (bench_keys config) M (wl_store wl')
     else wl_reads wl' = wl_reads wl \<and>
       bench_store_inv (bw_hash W) (bench_keys config)
         (M(bench_keys config ! unat (bw_key W i) \<mapsto> ''value_'' @ to_string (int i))) (wl_store wl')" by blast
  show ?case
  proof (cases "bd_less D (bw_op W i) (cf_read_ratio config)")
    case True
    with eff have "bench_store_inv (bw_hash W) (bench_keys config) M (wl_store wl')" by simp
    from Suc.IH [OF this tally] show ?thesis using True eff step by (auto simp: Let_def)
  next
    case False
    let ?M = "M(bench_keys config ! unat (bw_key W i) \<mapsto> ''value_'' @ to_string (int i))"
    from False eff have "bench_store_inv (bw_hash W) (bench_keys config) ?M (wl_store wl')" by simp
    from Suc.IH [OF this tally] obtain wl2 M' where
      "workload_loop D W config (bench_keys config) (Suc i) n wl' = Some wl2" "tallied (Suc i + n) wl2"
      "wl_reads wl2 = wl_reads wl' @ expected_reads D W config (Suc i) n ?M" "dom ?M \<subseteq> dom M'"
      "bench_store_inv (bw_hash W) (bench_keys config) M' (wl_store wl2)" by blast
    then show ?thesis using False eff step by (auto simp: Let_def simp del: fun_upd_apply)
  qed
qed (use assms in auto)

lemma expected_reads_hit:
  "dom M = set (bench_keys config) \<Longrightarrow> (\<And>i. bw_key W i < cf_key_space config) \<Longrightarrow>
    list_all (\<lambda>(key, val). val \<noteq> None) (expected_reads D W config i n M)"
proof (induction n arbitrary: i M)
  case (Suc n)
  let ?key = "bench_keys config ! unat (bw_key W i)"
  have key: "?key \<in> dom M"
    unfolding Suc.prems(1) using Suc.prems(2) [of i] by (simp add: word_less_nat_alt)
  then have "dom (M(?key \<mapsto> v)) = set (bench_keys config)" for v using Suc.prems(1) by auto
  then show ?case
    using Suc.IH [OF _ Suc.prems(2)] Suc.prems key by (auto simp: Let_def simp del: fun_upd_apply)
qed simp

lemma bench_store_fits:
  assumes "unat (cf_key_space config) < 2 ^ 63"
  shows "bench_store_inv hash (bench_keys config) Map.empty (bench_store config)"
proof -
  have "unat (cf_key_space config * 2) = unat (cf_key_space config) * 2"
    using assms by (subst unat_word_ariths) simp
  then show ?thesis
    using distinct_card [OF distinct_bench_keys [of config]]
    by (simp add: bench_store_inv_def bench_store_def room_for_def store_inv_new_store fun_eq_iff)
      (simp add: new_store_def)
qed

lemma run_workload_effect:
  assumes "unat (cf_key_space config) < 2 ^ 63" "\<And>i. bw_key W i < cf_key_space config"
  shows "\<exists>wl M. run_workload D W config ops = Some wl \<and> tallied (unat ops) wl \<and>
    wl_reads wl = expected_reads D W config 0 (unat ops) (warm (bench_keys config)) \<and>
    dom M = set (bench_keys config) \<and> bench_store_inv (bw_hash W) (bench_keys config) M (wl_store wl)"
proof -
  from warm_up_returns [OF bench_store_fits [OF assms(1)] subset_refl, where W = W and i = 0] obtain s where
    s: "warm_up W 0 (bench_keys config) (bench_store config) = Some s"
      "bench_store_inv (bw_hash W) (bench_keys config) (warm (bench_keys config)) s" by auto
  let ?wl = "\<lparr>wl_store = s, wl_latencies_ms = [] :: 'a list, wl_read_ops = 0, wl_write_ops = 0, wl_reads = []\<rparr>"
  have "bench_store_inv (bw_hash W) (bench_keys config) (warm (bench_keys config)) (wl_store ?wl)" using s(2) by simp
  moreover have "tallied 0 ?wl" by (simp add: tallied_def)
  ultimately obtain wl M where wl: "workload_loop D W config (bench_keys config) 0 (unat ops) ?wl = Some wl"
    "tallied (unat ops) wl" "wl_reads wl = expected_reads D W config 0 (unat ops) (warm (bench_keys config))"
    "dom (warm (bench_keys config)) \<subseteq> dom M" "bench_store_inv (bw_hash W) (bench_keys config) M (wl_store wl)"
    using workload_loop_effect [of W config "warm (bench_keys config)" ?wl 0 D "unat ops"] assms(2) by auto
  moreover have "dom (warm (bench_keys config)) = set (bench_keys config)" by (auto simp: warm_def split: if_splits)
  ultimately have "dom M = set (bench_keys config)" by (auto simp: bench_store_inv_def)
  with wl s(1) show ?thesis by (auto simp: run_workload_def)
qed

section \<open>Percentiles and totals\<close>

text \<open>\<open>None\<close>: the vector is read behind its end.\<close>

definition Percentile :: "'d bench_double \<Rightarrow> 'd list \<Rightarrow> 'd \<Rightarrow> 'd option" where
  "Percentile D latencies percentile =
     (if latencies = [] then Some (bd_zero D)
      else
        let at_least = (if bd_less D percentile (bd_zero D) then bd_zero D else percentile);
            clamped = (if bd_less D (bd_one D) at_least then bd_one D else at_least);
            size = of_nat (length latencies) :: size_t;
            idx = bd_mul D clamped (bd_sub D (bd_of_size D size) (bd_one D));
            lower = bd_to_size D idx;
            upper = min (lower + 1) (size - 1);
            frac = bd_sub D idx (bd_of_size D lower)
        in if length latencies \<le> unat lower \<or> length latencies \<le> unat upper then None
           else
             let low = latencies ! unat lower in
             Some (bd_add D low (bd_mul D (bd_sub D (latencies ! unat upper) low) frac)))"

definition bench_totals_of ::
    "'d bench_double \<Rightarrow> 'd bench_world \<Rightarrow> 'd Config \<Rightarrow> size_t \<Rightarrow> string \<Rightarrow> 'd workload \<Rightarrow> 'd bench_totals option" where
  "bench_totals_of D W config ops timestamp wl =
     (let latencies = sort_by (bd_less D) (wl_latencies_ms wl);
          duration_ms = bd_millis D (bw_bench_end W - bw_bench_start W);
          duration_sec = bd_div D duration_ms (bd_thousand D);
          ops_per_sec =
            (if bd_less D (bd_zero D) duration_sec then bd_div D (bd_of_size D ops) duration_sec else bd_zero D)
      in case (Percentile D latencies (bd_p50 D), Percentile D latencies (bd_p95 D), Percentile D latencies (bd_p99 D)) of
           (Some p50, Some p95, Some p99) \<Rightarrow>
             Some \<lparr>tt_timestamp = timestamp, tt_ops = ops, tt_duration_ms = duration_ms, tt_ops_per_sec = ops_per_sec,
                   tt_p50 = p50, tt_p95 = p95, tt_p99 = p99, tt_read_ops = wl_read_ops wl, tt_write_ops = wl_write_ops wl,
                   tt_read_ratio = cf_read_ratio config, tt_key_space = cf_key_space config\<rparr>
         | _ \<Rightarrow> None)"

text \<open>
  What the percentiles need of \<open>double\<close>: the three literals lie between zero and one, and their product
  with \<open>n - 1\<close> truncates to less than \<open>n\<close> as long as \<open>n\<close> is exact in a \<open>double\<close>.
\<close>

definition percentiles_fit :: "'d bench_double \<Rightarrow> bool" where
  "percentiles_fit D \<longleftrightarrow> (\<forall>p \<in> {bd_p50 D, bd_p95 D, bd_p99 D}.
     \<not> bd_less D p (bd_zero D) \<and> \<not> bd_less D (bd_one D) p \<and>
     (\<forall>n. 0 < n \<and> n \<le> 2 ^ 53 \<longrightarrow> bd_to_size D (bd_mul D p (bd_sub D (bd_of_size D n) (bd_one D))) < n))"

lemma Percentile_returns:
  assumes fit: "percentiles_fit D" and p: "p \<in> {bd_p50 D, bd_p95 D, bd_p99 D}" and len: "length xs \<le> 2 ^ 53"
  shows "\<exists>v. Percentile D xs p = Some v"
proof (cases "xs = []")
  case False
  define n where "n = (of_nat (length xs) :: size_t)"
  have n: "unat n = length xs" using len by (simp add: n_def unat_of_nat)
  have pos: "0 < n" "n \<le> 2 ^ 53" using False n len by (simp_all add: word_less_nat_alt word_le_nat_alt)
  let ?lower = "bd_to_size D (bd_mul D p (bd_sub D (bd_of_size D n) (bd_one D)))"
  have lower: "?lower < n" using fit p pos unfolding percentiles_fit_def by blast
  have "unat (n - 1) = unat n - 1" using pos(1) by (intro unat_minus_one) auto
  then have "n - 1 < n" using pos(1) by (simp add: word_less_nat_alt)
  then have upper: "min (?lower + 1) (n - 1) < n" by (rule min.strict_coboundedI2)
  have "\<not> bd_less D p (bd_zero D)" "\<not> bd_less D (bd_one D) p" using fit p by (auto simp: percentiles_fit_def)
  then show ?thesis
    using False lower upper by (simp add: Percentile_def Let_def n_def [symmetric] word_less_nat_alt n not_le)
qed (simp add: Percentile_def)

lemma bench_totals_returns:
  assumes "percentiles_fit D" "length (wl_latencies_ms wl) \<le> 2 ^ 53"
  shows "\<exists>t. bench_totals_of D W config ops timestamp wl = Some t \<and> tt_ops t = ops \<and>
    tt_read_ops t = wl_read_ops wl \<and> tt_write_ops t = wl_write_ops wl \<and> tt_key_space t = cf_key_space config"
proof -
  let ?xs = "sort_by (bd_less D) (wl_latencies_ms wl)"
  have "length ?xs \<le> 2 ^ 53"
    using assms(2) mset_eq_length [OF mset_sort_by [of "bd_less D" "wl_latencies_ms wl"]] by simp
  then obtain p50 p95 p99 where "Percentile D ?xs (bd_p50 D) = Some p50" "Percentile D ?xs (bd_p95 D) = Some p95"
    "Percentile D ?xs (bd_p99 D) = Some p99" using Percentile_returns [OF assms(1)] by (metis insertI1 insertI2)
  then show ?thesis by (simp add: bench_totals_of_def Let_def)
qed

section \<open>Properties\<close>

text \<open>
  C37: The benchmark measures hits only. With fewer than \<open>2 ^ 63\<close> keys, whatever the hash function, the
  clock and the random draws (keys within the bounds of their distribution): all operations of the
  warm-up and of the measured loop return, every read finds its key, with the value of the last write
  of that key in the loop or the one of the warm-up, the two counters add up to the number of
  operations, one latency is taken per operation, and at the end the store holds exactly the keys, so
  that nothing was evicted.
\<close>

theorem benchmark_reads_hit:
  assumes "unat (cf_key_space config) < 2 ^ 63" "\<And>i. bw_key W i < cf_key_space config"
  shows "\<exists>wl. run_workload D W config ops = Some wl \<and>
    wl_reads wl = expected_reads D W config 0 (unat ops) (warm (bench_keys config)) \<and>
    list_all (\<lambda>(key, val). val \<noteq> None) (wl_reads wl) \<and>
    unat (wl_read_ops wl) = length (wl_reads wl) \<and>
    unat (wl_read_ops wl) + unat (wl_write_ops wl) = unat ops \<and> length (wl_latencies_ms wl) = unat ops \<and>
    entry_count (wl_store wl) = unat (cf_key_space config)"
proof -
  from run_workload_effect [OF assms, of D ops] obtain wl M where
    wl: "run_workload D W config ops = Some wl" "tallied (unat ops) wl"
      "wl_reads wl = expected_reads D W config 0 (unat ops) (warm (bench_keys config))"
      "dom M = set (bench_keys config)" "bench_store_inv (bw_hash W) (bench_keys config) M (wl_store wl)" by blast
  have warm: "dom (warm (bench_keys config)) = set (bench_keys config)" by (auto simp: warm_def split: if_splits)
  have "dom (contents (bw_hash W) (wl_store wl)) = dom M" using wl(5) by (auto simp: bench_store_inv_def)
  then have "entry_count (wl_store wl) = unat (cf_key_space config)"
    using wl(4,5) distinct_card [OF distinct_bench_keys [of config]] entry_count_card [of "bw_hash W" "wl_store wl"]
    by (simp add: bench_store_inv_def)
  moreover note tallied_counters(1) [OF wl(2)] tallied_sum [OF wl(2)]
  ultimately show ?thesis
    using wl(1-3) expected_reads_hit [OF warm assms(2), of D 0 "unat ops"] by (auto simp: tallied_def)
qed

definition sample_world :: "int bench_world" where
  "sample_world = \<lparr>bw_hash = (\<lambda>k. of_nat (length k)), bw_warm_clock = (\<lambda>i. (int i, int i, int i)),
     bw_key = (\<lambda>i. of_nat (i mod 5)), bw_op = (\<lambda>i. int (i mod 2)), bw_op_start = int,
     bw_set_clock = (\<lambda>i. (int i, int i, int i)), bw_get_clock = int, bw_op_end = (\<lambda>i. int i + 3000000),
     bw_bench_start = 0, bw_bench_end = 5000000000\<rparr>"

theorem benchmark_reads_hit_witness:
  "\<exists>wl. run_workload whole_double sample_world sample_config 10 = Some wl \<and>
    wl_reads wl = [(''key_0'', Some ''warm''), (''key_2'', Some ''warm''), (''key_4'', Some ''warm''),
      (''key_1'', Some ''value_1''), (''key_3'', Some ''value_3'')] \<and>
    unat (wl_read_ops wl) + unat (wl_write_ops wl) = 10 \<and> entry_count (wl_store wl) = 5"
proof -
  have k: "unat (cf_key_space sample_config) < 2 ^ 63" by (simp add: sample_config_def)
  have d: "bw_key sample_world i < cf_key_space sample_config" for i
    by (simp add: sample_world_def sample_config_def word_less_nat_alt unat_of_nat)
  have "expected_reads whole_double sample_world sample_config 0 (unat (10 :: size_t)) (warm (bench_keys sample_config)) =
    [(''key_0'', Some ''warm''), (''key_2'', Some ''warm''), (''key_4'', Some ''warm''),
      (''key_1'', Some ''value_1''), (''key_3'', Some ''value_3'')]" by code_simp
  with benchmark_reads_hit [OF k d, of whole_double 10] show ?thesis by (auto simp: sample_config_def)
qed

end
