(* ===== verification/Request_Coalescer.thy ===== *)
theory Request_Coalescer
  imports Cache_Prelude
begin

text \<open>
  Request coalescing, \<open>src/core/request_coalescer.{hpp,cpp}\<close>: concurrent calls of \<open>Execute\<close> for
  one key share the work of the first of them. The mutex protects the table \<open>inflight_\<close>; the
  work itself runs outside the lock. One call is therefore three atomic steps, which other
  threads may interleave: the first critical section, the completion of the promise, and the
  second critical section.

  A \<open>std::shared_future\<close> is the index of its shared state; that state is empty until the promise
  is completed with a value or an exception. Setting a promise twice throws \<open>future_error\<close>.
\<close>

section \<open>State and steps\<close>

text \<open>What a unit of work produces: a value, or the exception it threw.\<close>

type_synonym outcome = "cpp_exception + string"

text \<open>Where a thread is: outside \<open>Execute\<close> (with the future it got last), running the work as
  leader of a key, or about to erase the key.\<close>

datatype caller =
    Outside "nat option"
  | Working string nat
  | Erasing string nat
  | PromiseError

record RequestCoalescer =
  rc_inflight :: "(string, nat) unordered_map"
  rc_futures :: "outcome option list"
  rc_threads :: "nat \<Rightarrow> caller"

definition new_coalescer :: RequestCoalescer where
  "new_coalescer = \<lparr>rc_inflight = [], rc_futures = [], rc_threads = (\<lambda>_. Outside None)\<rparr>"

text \<open>The first critical section: join the flight of the key, or become its leader.\<close>

definition execute_enter :: "nat \<Rightarrow> string \<Rightarrow> RequestCoalescer \<Rightarrow> RequestCoalescer" where
  "execute_enter t key c =
     (case map_of (rc_inflight c) key of
        Some future \<Rightarrow> c\<lparr>rc_threads := (rc_threads c)(t := Outside (Some future))\<rparr>
      | None \<Rightarrow>
          let future = length (rc_futures c)
          in c\<lparr>rc_futures := rc_futures c @ [None],
               rc_inflight := AList.update key future (rc_inflight c),
               rc_threads := (rc_threads c)(t := Working key future)\<rparr>)"

text \<open>The work returns or throws, and the promise is completed.\<close>

definition execute_complete :: "nat \<Rightarrow> outcome \<Rightarrow> RequestCoalescer \<Rightarrow> RequestCoalescer" where
  "execute_complete t result c =
     (case rc_threads c t of
        Working key future \<Rightarrow>
          if rc_futures c ! future \<noteq> None then c\<lparr>rc_threads := (rc_threads c)(t := PromiseError)\<rparr>
          else c\<lparr>rc_futures := (rc_futures c)[future := Some result],
                 rc_threads := (rc_threads c)(t := Erasing key future)\<rparr>
      | _ \<Rightarrow> c)"

text \<open>The second critical section.\<close>

definition execute_leave :: "nat \<Rightarrow> RequestCoalescer \<Rightarrow> RequestCoalescer" where
  "execute_leave t c =
     (case rc_threads c t of
        Erasing key future \<Rightarrow>
          c\<lparr>rc_inflight := AList.delete key (rc_inflight c),
            rc_threads := (rc_threads c)(t := Outside (Some future))\<rparr>
      | _ \<Rightarrow> c)"

text \<open>
  The steps of all threads, labelled with what a thread does. A thread may call \<open>Execute\<close> again
  after it returned.
\<close>

datatype event = Enter nat string | Complete nat outcome | Leave nat

inductive coalescer_step :: "RequestCoalescer \<Rightarrow> event \<Rightarrow> RequestCoalescer \<Rightarrow> bool" where
  enter: "rc_threads c t = Outside f \<Longrightarrow> coalescer_step c (Enter t key) (execute_enter t key c)"
| complete: "rc_threads c t = Working key f \<Longrightarrow> coalescer_step c (Complete t r) (execute_complete t r c)"
| leave: "rc_threads c t = Erasing key f \<Longrightarrow> coalescer_step c (Leave t) (execute_leave t c)"

inductive_cases enterE: "coalescer_step c (Enter t key) c'"
inductive_cases completeE: "coalescer_step c (Complete t r) c'"
inductive_cases leaveE: "coalescer_step c (Leave t) c'"

inductive coalescer_steps :: "RequestCoalescer \<Rightarrow> event list \<Rightarrow> RequestCoalescer \<Rightarrow> bool" where
  stay: "coalescer_steps c [] c"
| more: "coalescer_step c e c' \<Longrightarrow> coalescer_steps c' es c'' \<Longrightarrow> coalescer_steps c (e # es) c''"

section \<open>Invariant\<close>

text \<open>The flights a thread leads.\<close>

fun leads :: "caller \<Rightarrow> (string \<times> nat) option" where
  "leads (Working key f) = Some (key, f)"
| "leads (Erasing key f) = Some (key, f)"
| "leads _ = None"

text \<open>
  The table holds exactly the flights that are led, each by one thread; a future is empty exactly
  as long as its leader works.
\<close>

definition flight_inv :: "RequestCoalescer \<Rightarrow> bool" where
  "flight_inv c \<longleftrightarrow> umap_inv (rc_inflight c) \<and>
     (\<forall>t. rc_threads c t \<noteq> PromiseError) \<and>
     (\<forall>key f. map_of (rc_inflight c) key = Some f \<longleftrightarrow> (\<exists>t. leads (rc_threads c t) = Some (key, f))) \<and>
     (\<forall>t t' key f key' f'. leads (rc_threads c t) = Some (key, f) \<and>
        leads (rc_threads c t') = Some (key', f') \<and> (key = key' \<or> f = f') \<longrightarrow> t = t') \<and>
     (\<forall>t key f. leads (rc_threads c t) = Some (key, f) \<or> rc_threads c t = Outside (Some f) \<longrightarrow>
        f < length (rc_futures c)) \<and>
     (\<forall>f < length (rc_futures c). rc_futures c ! f = None \<longleftrightarrow> (\<exists>t key. rc_threads c t = Working key f))"

lemma flight_invI:
  assumes "umap_inv (rc_inflight c)"
    and "\<And>t. rc_threads c t \<noteq> PromiseError"
    and "\<And>key f. map_of (rc_inflight c) key = Some f \<Longrightarrow> \<exists>t. leads (rc_threads c t) = Some (key, f)"
    and "\<And>t key f. leads (rc_threads c t) = Some (key, f) \<Longrightarrow> map_of (rc_inflight c) key = Some f"
    and "\<And>t t' key f key' f'. leads (rc_threads c t) = Some (key, f) \<Longrightarrow>
        leads (rc_threads c t') = Some (key', f') \<Longrightarrow> key = key' \<or> f = f' \<Longrightarrow> t = t'"
    and "\<And>t key f. leads (rc_threads c t) = Some (key, f) \<Longrightarrow> f < length (rc_futures c)"
    and "\<And>t f. rc_threads c t = Outside (Some f) \<Longrightarrow> f < length (rc_futures c)"
    and "\<And>t key f. rc_threads c t = Working key f \<Longrightarrow> rc_futures c ! f = None"
    and "\<And>f. f < length (rc_futures c) \<Longrightarrow> rc_futures c ! f = None \<Longrightarrow> \<exists>t key. rc_threads c t = Working key f"
  shows "flight_inv c"
  unfolding flight_inv_def
proof (intro conjI allI impI iffI, goal_cases)
  case (6 t key f)
  then show ?case using assms(6,7) by blast
next
  case (8 f)
  then show ?case using assms(8) by blast
qed (use assms(1-5,9) in \<open>blast+\<close>)

lemma flight_invD:
  assumes "flight_inv c"
  shows "umap_inv (rc_inflight c)"
    and "rc_threads c t \<noteq> PromiseError"
    and "map_of (rc_inflight c) key = Some f \<Longrightarrow> \<exists>t. leads (rc_threads c t) = Some (key, f)"
    and "leads (rc_threads c t) = Some (key, f) \<Longrightarrow> map_of (rc_inflight c) key = Some f"
    and "leads (rc_threads c t) = Some (key, f) \<Longrightarrow>
        leads (rc_threads c t') = Some (key', f') \<Longrightarrow> key = key' \<or> f = f' \<Longrightarrow> t = t'"
    and "leads (rc_threads c t) = Some (key, f) \<Longrightarrow> f < length (rc_futures c)"
    and "rc_threads c t = Outside (Some f) \<Longrightarrow> f < length (rc_futures c)"
    and "rc_threads c t = Working key f \<Longrightarrow> rc_futures c ! f = None"
    and "f < length (rc_futures c) \<Longrightarrow> rc_futures c ! f = None \<Longrightarrow> \<exists>t key. rc_threads c t = Working key f"
proof -
  show "f < length (rc_futures c)" if "leads (rc_threads c t) = Some (key, f)"
    using assms that unfolding flight_inv_def by blast
  show "rc_futures c ! f = None" if "rc_threads c t = Working key f"
    using assms that unfolding flight_inv_def by (metis leads.simps(1))
qed (use assms in \<open>unfold flight_inv_def, blast+\<close>)

lemma flight_inv_new: "flight_inv new_coalescer"
  by (simp add: flight_inv_def new_coalescer_def umap_inv_def)

lemma flight_inv_join:
  assumes inv: "flight_inv c" and out: "rc_threads c t = Outside f"
    and flight: "map_of (rc_inflight c) key = Some g"
  shows "flight_inv (c\<lparr>rc_threads := (rc_threads c)(t := Outside (Some g))\<rparr>)"
proof (rule flight_invI, goal_cases)
  case (3 k g)
  then obtain l where l: "leads (rc_threads c l) = Some (k, g)" using flight_invD(3) [OF inv, of k g] by auto
  then have "l \<noteq> t" using out by auto
  with l show ?case by auto
next
  case (7 t' f)
  obtain l where "leads (rc_threads c l) = Some (key, g)" using flight_invD(3) [OF inv flight] by blast
  then show ?case using 7 flight_invD(6,7) [OF inv] by (auto split: if_splits)
next
  case (9 g)
  then obtain l k where l: "rc_threads c l = Working k g" using flight_invD(9) [OF inv, of g] by auto
  then have "l \<noteq> t" using out by auto
  with l show ?case by auto
qed (use flight_invD(1,2,4-8) [OF inv] in \<open>auto split: if_splits\<close>)

lemma flight_inv_lead:
  assumes inv: "flight_inv c" and out: "rc_threads c t = Outside f"
    and free: "map_of (rc_inflight c) key = None"
  shows "flight_inv (c\<lparr>rc_futures := rc_futures c @ [None],
      rc_inflight := AList.update key (length (rc_futures c)) (rc_inflight c),
      rc_threads := (rc_threads c)(t := Working key (length (rc_futures c)))\<rparr>)"
proof (rule flight_invI, goal_cases)
  case 1
  then show ?case using flight_invD(1) [OF inv] by (simp add: umap.inv_put)
next
  case (3 k g)
  show ?case
  proof (cases "k = key")
    case False
    then obtain l where l: "leads (rc_threads c l) = Some (k, g)"
      using 3 flight_invD(3) [OF inv, of k g] by (auto simp: update_conv')
    then have "l \<noteq> t" using out by auto
    with l show ?thesis by auto
  qed (use 3 in \<open>auto simp: update_conv'\<close>)
next
  case (4 t' k g)
  then show ?case
    using flight_invD(4) [OF inv, of t' k g] free by (auto simp: update_conv' split: if_splits)
next
  case (5 a b k g k' g')
  then show ?case
    using flight_invD(4,6) [OF inv, of a k g] flight_invD(4,6) [OF inv, of b k' g']
      flight_invD(5) [OF inv, of a k g b k' g'] free
    by (auto split: if_splits)
next
  case (6 t' k g)
  then show ?case using flight_invD(6) [OF inv, of t' k g] by (auto split: if_splits)
next
  case (7 t' g)
  then show ?case using flight_invD(7) [OF inv, of t' g] by (auto split: if_splits)
next
  case (8 t' k g)
  then show ?case
    using flight_invD(6) [OF inv, of t' k g] flight_invD(8) [OF inv, of t' k g]
    by (auto simp: nth_append split: if_splits)
next
  case (9 g)
  show ?case
  proof (cases "g < length (rc_futures c)")
    case True
    then obtain l k where l: "rc_threads c l = Working k g"
      using 9 flight_invD(9) [OF inv, of g] by (auto simp: nth_append)
    then have "l \<noteq> t" using out by auto
    with l show ?thesis by auto
  qed (use 9 in auto)
qed (use flight_invD(2) [OF inv] in simp)

lemma flight_inv_complete:
  assumes inv: "flight_inv c" and work: "rc_threads c t = Working key f"
  shows "flight_inv (execute_complete t r c)"
proof -
  have empty: "rc_futures c ! f = None" by (rule flight_invD(8) [OF inv work])
  have lead: "leads (rc_threads c t) = Some (key, f)" by (simp add: work)
  have leads_eq: "leads (((rc_threads c)(t := Erasing key f)) t') = leads (rc_threads c t')" for t'
    by (simp add: work)
  have "flight_inv (c\<lparr>rc_futures := (rc_futures c)[f := Some r], rc_threads := (rc_threads c)(t := Erasing key f)\<rparr>)"
  proof (rule flight_invI, goal_cases)
    case (2 t')
    then show ?case using flight_invD(2) [OF inv] by simp
  next
    case (7 t' g)
    then show ?case using flight_invD(7) [OF inv, of t' g] by (auto split: if_splits)
  next
    case (8 t' k g)
    then have w: "rc_threads c t' = Working k g" "t' \<noteq> t" by (auto split: if_splits)
    then have "g \<noteq> f" using flight_invD(5) [OF inv lead, of t' k g] by auto
    then show ?case using flight_invD(8) [OF inv w(1)] by simp
  next
    case (9 g)
    then have "g \<noteq> f" using flight_invD(6) [OF inv lead] by auto
    with 9 flight_invD(9) [OF inv, of g] obtain t' k where t': "rc_threads c t' = Working k g" by auto
    with \<open>g \<noteq> f\<close> work have "t' \<noteq> t" by auto
    with t' show ?case by auto
  qed (use flight_invD(1,3-6) [OF inv] in \<open>auto simp: leads_eq simp del: fun_upd_apply split: if_splits\<close>)
  with work empty show ?thesis by (simp add: execute_complete_def)
qed

lemma flight_inv_leave:
  assumes inv: "flight_inv c" and erasing: "rc_threads c t = Erasing key f"
  shows "flight_inv (execute_leave t c)"
proof -
  have lead: "leads (rc_threads c t) = Some (key, f)" by (simp add: erasing)
  have "flight_inv (c\<lparr>rc_inflight := AList.delete key (rc_inflight c),
      rc_threads := (rc_threads c)(t := Outside (Some f))\<rparr>)"
  proof (rule flight_invI, goal_cases)
    case 1
    then show ?case using flight_invD(1) [OF inv] by (simp add: umap.inv_erase)
  next
    case (2 t')
    then show ?case using flight_invD(2) [OF inv] by simp
  next
    case (3 k g)
    then have "map_of (rc_inflight c) k = Some g" "k \<noteq> key" by (auto simp: delete_conv' split: if_splits)
    then obtain l where l: "leads (rc_threads c l) = Some (k, g)" using flight_invD(3) [OF inv, of k g] by auto
    with \<open>k \<noteq> key\<close> lead have "l \<noteq> t" by auto
    with l show ?case by auto
  next
    case (4 t' k g)
    then have l: "leads (rc_threads c t') = Some (k, g)" "t' \<noteq> t" by (auto split: if_splits)
    then have "k \<noteq> key" using flight_invD(5) [OF inv lead l(1)] by auto
    then show ?case using flight_invD(4) [OF inv l(1)] by (simp add: delete_conv')
  next
    case (5 a b k g k' g')
    then show ?case using flight_invD(5) [OF inv, of a k g b k' g'] by (auto split: if_splits)
  next
    case (6 t' k g)
    then show ?case using flight_invD(6) [OF inv, of t' k g] by (auto split: if_splits)
  next
    case (7 t' g)
    then show ?case using flight_invD(7) [OF inv, of t' g] flight_invD(6) [OF inv lead] by (auto split: if_splits)
  next
    case (8 t' k g)
    then show ?case using flight_invD(8) [OF inv, of t' k g] by (auto split: if_splits)
  next
    case (9 g)
    then obtain l k where l: "rc_threads c l = Working k g" using flight_invD(9) [OF inv, of g] by auto
    then have "l \<noteq> t" using erasing by auto
    with l show ?case by auto
  qed
  then show ?thesis by (simp add: execute_leave_def erasing)
qed

lemma flight_inv_step: "coalescer_step c e c' \<Longrightarrow> flight_inv c \<Longrightarrow> flight_inv c'"
proof (induction rule: coalescer_step.induct)
  case (enter c t f key)
  then show ?case
    by (cases "map_of (rc_inflight c) key")
       (simp_all add: execute_enter_def Let_def flight_inv_join flight_inv_lead)
qed (simp_all add: flight_inv_complete flight_inv_leave)

lemma flight_inv_steps: "coalescer_steps c es c' \<Longrightarrow> flight_inv c \<Longrightarrow> flight_inv c'"
  by (induction rule: coalescer_steps.induct) (auto intro: flight_inv_step)

text \<open>A completed future keeps its outcome, and futures are never dropped.\<close>

lemma futures_step:
  "coalescer_step c e c' \<Longrightarrow> flight_inv c \<Longrightarrow> f < length (rc_futures c) \<Longrightarrow>
   f < length (rc_futures c') \<and> (rc_futures c ! f = Some r \<longrightarrow> rc_futures c' ! f = Some r)"
proof (induction rule: coalescer_step.induct)
  case (enter c t g key)
  then show ?case by (simp add: execute_enter_def Let_def nth_append split: option.split)
next
  case (complete c t key g r')
  then show ?case
    using flight_invD(8) [of c t key g] by (cases "g = f") (auto simp: execute_complete_def)
next
  case (leave c t key g)
  then show ?case by (simp add: execute_leave_def)
qed

lemma futures_steps:
  "coalescer_steps c es c' \<Longrightarrow> flight_inv c \<Longrightarrow> f < length (rc_futures c) \<Longrightarrow>
   f < length (rc_futures c') \<and> (rc_futures c ! f = Some r \<longrightarrow> rc_futures c' ! f = Some r)"
proof (induction rule: coalescer_steps.induct)
  case (more c e c' es c'')
  then show ?case using futures_step [OF more(1), of f r] flight_inv_step [OF more(1)] by blast
qed simp

text \<open>As long as a future is empty its leader is at work; only the leader's completion sets it.\<close>

lemma leader_step:
  assumes step: "coalescer_step c e c'" and inv: "flight_inv c" and work: "rc_threads c t = Working key f"
  shows "(rc_threads c' t = Working key f \<and> rc_futures c' ! f = None) \<or>
    (\<exists>r. e = Complete t r \<and> rc_futures c' ! f = Some r)"
  using step
proof cases
  case (enter t' g k)
  then have "t' \<noteq> t" using work by auto
  with enter work flight_invD(6,8) [OF inv, of t key f] show ?thesis
    by (auto simp: execute_enter_def Let_def nth_append split: option.split)
next
  case (complete t' k g r)
  show ?thesis
  proof (cases "t' = t")
    case True
    with complete work flight_invD(6,8) [OF inv, of t key f] show ?thesis
      by (simp add: execute_complete_def)
  next
    case False
    then have "g \<noteq> f" using flight_invD(5) [OF inv, of t' k g t key f] complete work by auto
    with False complete work flight_invD(8) [OF inv, of t key f] show ?thesis
      by (auto simp: execute_complete_def)
  qed
next
  case (leave t' k g)
  then have "t' \<noteq> t" using work by auto
  with leave work flight_invD(8) [OF inv, of t key f] show ?thesis by (simp add: execute_leave_def)
qed

lemma leader_steps:
  "coalescer_steps c es c' \<Longrightarrow> flight_inv c \<Longrightarrow> rc_threads c t = Working key f \<Longrightarrow>
   rc_futures c' ! f = Some r \<Longrightarrow> Complete t r \<in> set es"
proof (induction rule: coalescer_steps.induct)
  case (stay c)
  then show ?case using flight_invD(8) [of c t key f] by simp
next
  case (more c e c' es c'')
  have inv': "flight_inv c'" by (rule flight_inv_step [OF more(1,4)])
  from leader_step [OF more(1,4,5)] show ?case
  proof
    assume "rc_threads c' t = Working key f \<and> rc_futures c' ! f = None"
    then show ?thesis using more inv' by simp
  next
    assume "\<exists>r. e = Complete t r \<and> rc_futures c' ! f = Some r"
    then obtain r' where r': "e = Complete t r'" "rc_futures c' ! f = Some r'" by blast
    have "f < length (rc_futures c)" using flight_invD(6) [OF more(4), of t key f] more(5) by simp
    then have "f < length (rc_futures c')" using futures_step [OF more(1,4)] by blast
    then have "rc_futures c'' ! f = Some r'" using futures_steps [OF more(2) inv'] r'(2) by blast
    with more(6) r'(1) show ?thesis by simp
  qed
qed

section \<open>Properties\<close>

text \<open>
  C24: one flight per key. In every interleaving of any number of threads, at most one thread
  runs the work for a key at a time, and no promise is completed twice.
\<close>

theorem one_flight_per_key:
  assumes "coalescer_steps new_coalescer es c"
    and "rc_threads c t = Working key f" and "rc_threads c t' = Working key f'"
  shows "t = t' \<and> f = f' \<and> rc_threads c u \<noteq> PromiseError"
proof -
  have inv: "flight_inv c" using flight_inv_steps [OF assms(1) flight_inv_new] .
  have "t = t'" using flight_invD(5) [OF inv, of t key f t' key f'] assms(2,3) by simp
  with assms(2,3) flight_invD(2) [OF inv] show ?thesis by auto
qed

text \<open>
  C25: a caller that joins a flight gets the result of the thread that leads it. If \<open>Execute\<close>
  finds the key in flight, the future it returns belongs to a thread at work for the same key or
  is already completed by it; whenever the future is completed later, the outcome is the one
  that leader produced, value or exception, and it never changes again.
\<close>

theorem joined_call_shares_result:
  assumes run: "coalescer_steps new_coalescer es c" and out: "rc_threads c t = Outside g"
    and join: "map_of (rc_inflight c) key = Some f"
    and later: "coalescer_steps (execute_enter t key c) es' c'"
  shows "rc_threads (execute_enter t key c) t = Outside (Some f) \<and>
    (\<exists>leader. leads (rc_threads c leader) = Some (key, f) \<and>
       (\<forall>r. rc_futures c' ! f = Some r \<longrightarrow> rc_futures c ! f = Some r \<or> Complete leader r \<in> set es') \<and>
       (\<forall>r. rc_futures c ! f = Some r \<longrightarrow> rc_futures c' ! f = Some r))"
proof -
  let ?c = "execute_enter t key c"
  have inv: "flight_inv c" using flight_inv_steps [OF run flight_inv_new] .
  have enter: "?c = c\<lparr>rc_threads := (rc_threads c)(t := Outside (Some f))\<rparr>"
    using join by (simp add: execute_enter_def)
  have inv': "flight_inv ?c" using flight_inv_join [OF inv out join] by (simp add: enter)
  obtain leader where lead: "leads (rc_threads c leader) = Some (key, f)"
    using flight_invD(3) [OF inv join] by blast
  have f: "f < length (rc_futures ?c)" using flight_invD(6) [OF inv lead] by (simp add: enter)
  have kept: "rc_futures c' ! f = Some r" if "rc_futures c ! f = Some r" for r
    using futures_steps [OF later inv' f] that by (auto simp: enter)
  have own: "Complete leader r \<in> set es'" if empty: "rc_futures c ! f = None" and set: "rc_futures c' ! f = Some r" for r
  proof (rule leader_steps [OF later inv' _ set])
    obtain w k where w: "rc_threads c w = Working k f"
      using flight_invD(9) [OF inv _ empty] f by (auto simp: enter)
    with flight_invD(5) [OF inv lead, of w k f] lead have "rc_threads c leader = Working key f" by auto
    moreover from this out have "leader \<noteq> t" by auto
    ultimately show "rc_threads ?c leader = Working key f" by (simp add: enter)
  qed
  have "\<forall>r. rc_futures c' ! f = Some r \<longrightarrow> rc_futures c ! f = Some r \<or> Complete leader r \<in> set es'"
    using own kept by (cases "rc_futures c ! f") auto
  with lead kept show ?thesis by (auto simp: enter)
qed

text \<open>Two threads ask for the same key; the first leads and its work throws.\<close>

definition demo_flight :: RequestCoalescer where
  "demo_flight = execute_enter 0 ''k'' new_coalescer"

lemma demo_flight_steps: "coalescer_steps new_coalescer [Enter 0 ''k''] demo_flight"
proof -
  have "coalescer_step new_coalescer (Enter 0 ''k'') demo_flight"
    unfolding demo_flight_def by (rule coalescer_step.enter [of _ _ None]) (simp add: new_coalescer_def)
  then show ?thesis by (rule coalescer_steps.more) (rule coalescer_steps.stay)
qed

theorem one_flight_per_key_witness:
  "rc_threads demo_flight 0 = Working ''k'' 0 \<and> rc_threads demo_flight 1 \<noteq> PromiseError"
proof -
  have work: "rc_threads demo_flight 0 = Working ''k'' 0" by code_simp
  from one_flight_per_key [OF demo_flight_steps work work, of 1] work show ?thesis by blast
qed

theorem joined_call_shares_result_witness:
  "\<exists>c'. coalescer_steps (execute_enter 1 ''k'' demo_flight) [Complete 0 (Inl (out_of_range ''boom''))] c' \<and>
     rc_threads (execute_enter 1 ''k'' demo_flight) 1 = Outside (Some 0) \<and>
     rc_futures c' ! 0 = Some (Inl (out_of_range ''boom''))"
proof -
  let ?c = "execute_enter 1 ''k'' demo_flight"
  let ?c' = "execute_complete 0 (Inl (out_of_range ''boom'')) ?c"
  have out: "rc_threads demo_flight 1 = Outside None" by code_simp
  have join: "map_of (rc_inflight demo_flight) ''k'' = Some 0" by code_simp
  have "rc_threads ?c 0 = Working ''k'' 0" by code_simp
  then have steps: "coalescer_steps ?c [Complete 0 (Inl (out_of_range ''boom''))] ?c'"
    by (intro coalescer_steps.more [OF coalescer_step.complete coalescer_steps.stay])
  have "rc_futures ?c' ! 0 = Some (Inl (out_of_range ''boom''))" by code_simp
  with joined_call_shares_result [OF demo_flight_steps out join steps] steps show ?thesis by blast
qed

text \<open>
  C26: no caller waits for nothing. As long as a future that was handed out is empty, some thread
  is at work on it and can complete it; and once nobody is inside \<open>Execute\<close> the table is empty
  and every future is completed.
\<close>

theorem pending_future_has_leader:
  assumes "coalescer_steps new_coalescer es c"
  shows "(\<forall>f < length (rc_futures c). rc_futures c ! f = None \<longrightarrow>
       (\<exists>t key. rc_threads c t = Working key f \<and> map_of (rc_inflight c) key = Some f)) \<and>
    ((\<forall>t. leads (rc_threads c t) = None) \<longrightarrow> rc_inflight c = [] \<and> None \<notin> set (rc_futures c))"
proof -
  have inv: "flight_inv c" using flight_inv_steps [OF assms flight_inv_new] .
  have busy: "\<exists>t key. rc_threads c t = Working key f \<and> map_of (rc_inflight c) key = Some f"
    if "f < length (rc_futures c)" "rc_futures c ! f = None" for f
    using flight_invD(9) [OF inv that] flight_invD(4) [OF inv] by (metis leads.simps(1))
  moreover have "rc_inflight c = [] \<and> None \<notin> set (rc_futures c)" if idle: "\<forall>t. leads (rc_threads c t) = None"
  proof
    have "map_of (rc_inflight c) key = None" for key
      using flight_invD(3) [OF inv, of key] idle by (cases "map_of (rc_inflight c) key") auto
    then show "rc_inflight c = []" by (cases "rc_inflight c") (auto split: if_splits, metis option.distinct(1))
    show "None \<notin> set (rc_futures c)" using busy idle by (metis in_set_conv_nth leads.simps(1) option.distinct(1))
  qed
  ultimately show ?thesis by blast
qed

theorem pending_future_has_leader_witness:
  "\<exists>t key. rc_threads demo_flight t = Working key 0 \<and> map_of (rc_inflight demo_flight) key = Some 0"
proof -
  have "0 < length (rc_futures demo_flight)" "rc_futures demo_flight ! 0 = None" by code_simp+
  then show ?thesis using pending_future_has_leader [OF demo_flight_steps] by blast
qed

end
