(* ===== verification/Bench_Coalescing.thy ===== *)
theory Bench_Coalescing
  imports Request_Coalescer Bench_Report
begin

text \<open>
  The coalescing measurement of the benchmark (\<open>MeasureCoalescingBehavior\<close> of \<open>bench/cache_bench.cpp\<close>):
  bursts of threads that meet at a barrier and then ask for one key, through the coalescer or not. The
  threads are interleaved one step at a time, on the coalescer of \<open>Request_Coalescer\<close>.
\<close>

section \<open>The threads of a burst\<close>

text \<open>
  Where a worker is: before the barrier (or not started yet), waiting at it, before the count of its
  request, before \<open>Execute\<close> (or the plain call of \<open>work\<close>), in \<open>work\<close> before and after the count of its
  hit, before the last section of \<open>Execute\<close>, in \<open>future.get()\<close>, or at its end.
\<close>

datatype worker =
    At_gate | Arrived | Counting | Calling | Leading | Returning | Leaving | Getting nat | Finished

record measurement =
  me_coalescer :: RequestCoalescer
  me_backend_hits :: size_t
  me_total_requests :: size_t
  me_burst :: nat
  me_workers :: "worker list"

definition burst_key :: "nat \<Rightarrow> string" where
  "burst_key burst = ''coalescing_key_'' @ to_string (int burst)"

fun got_future :: "caller \<Rightarrow> worker" where
  "got_future (Outside (Some future)) = Getting future"
| "got_future _ = Leading"

definition move_worker :: "nat \<Rightarrow> worker \<Rightarrow> measurement \<Rightarrow> measurement" where
  "move_worker i w m = m\<lparr>me_workers := (me_workers m)[i := w]\<rparr>"

text \<open>One step of the worker \<open>i\<close>; \<open>None\<close> while it waits, and at its end.\<close>

definition worker_step :: "bool \<Rightarrow> nat \<Rightarrow> measurement \<Rightarrow> measurement option" where
  "worker_step enabled i m =
     (let c = me_coalescer m in
      case me_workers m ! i of
        At_gate \<Rightarrow> Some (move_worker i Arrived m)
      | Arrived \<Rightarrow> if At_gate \<in> set (me_workers m) then None else Some (move_worker i Counting m)
      | Counting \<Rightarrow> Some (move_worker i Calling (m\<lparr>me_total_requests := me_total_requests m + 1\<rparr>))
      | Calling \<Rightarrow>
          if enabled then
            let c' = execute_enter i (burst_key (me_burst m)) c
            in Some (move_worker i (got_future (rc_threads c' i)) (m\<lparr>me_coalescer := c'\<rparr>))
          else Some (move_worker i Finished (m\<lparr>me_backend_hits := me_backend_hits m + 1\<rparr>))
      | Leading \<Rightarrow> Some (move_worker i Returning (m\<lparr>me_backend_hits := me_backend_hits m + 1\<rparr>))
      | Returning \<Rightarrow> Some (move_worker i Leaving (m\<lparr>me_coalescer := execute_complete i (Inr ''payload'') c\<rparr>))
      | Leaving \<Rightarrow>
          let c' = execute_leave i c
          in Some (move_worker i (got_future (rc_threads c' i)) (m\<lparr>me_coalescer := c'\<rparr>))
      | Getting future \<Rightarrow> if rc_futures c ! future = None then None else Some (move_worker i Finished m)
      | Finished \<Rightarrow> None)"

definition burst_workers :: "nat \<Rightarrow> nat \<Rightarrow> nat \<Rightarrow> worker list" where
  "burst_workers bursts concurrency burst = (if burst < bursts then replicate concurrency At_gate else [])"

definition new_measurement :: "nat \<Rightarrow> nat \<Rightarrow> measurement" where
  "new_measurement bursts concurrency =
     \<lparr>me_coalescer = new_coalescer, me_backend_hits = 0, me_total_requests = 0, me_burst = 0,
      me_workers = burst_workers bursts concurrency 0\<rparr>"

definition next_burst :: "nat \<Rightarrow> nat \<Rightarrow> measurement \<Rightarrow> measurement" where
  "next_burst bursts concurrency m =
     m\<lparr>me_burst := me_burst m + 1, me_workers := burst_workers bursts concurrency (me_burst m + 1)\<rparr>"

text \<open>Some worker moves, or the main thread has joined all workers and goes on to the next burst.\<close>

inductive measure_step :: "bool \<Rightarrow> nat \<Rightarrow> nat \<Rightarrow> measurement \<Rightarrow> measurement \<Rightarrow> bool"
  for enabled bursts concurrency where
  work: "i < length (me_workers m) \<Longrightarrow> worker_step enabled i m = Some m' \<Longrightarrow>
     measure_step enabled bursts concurrency m m'"
| join: "me_burst m < bursts \<Longrightarrow> list_all (\<lambda>w. w = Finished) (me_workers m) \<Longrightarrow>
     measure_step enabled bursts concurrency m (next_burst bursts concurrency m)"

inductive measure_reachable :: "bool \<Rightarrow> nat \<Rightarrow> nat \<Rightarrow> measurement \<Rightarrow> bool"
  for enabled bursts concurrency where
  start: "measure_reachable enabled bursts concurrency (new_measurement bursts concurrency)"
| step: "measure_reachable enabled bursts concurrency m \<Longrightarrow> measure_step enabled bursts concurrency m m' \<Longrightarrow>
     measure_reachable enabled bursts concurrency m'"

definition measured :: "nat \<Rightarrow> measurement \<Rightarrow> bool" where
  "measured bursts m \<longleftrightarrow> me_burst m = bursts"

definition MeasureCoalescingBehavior ::
    "'d bench_double \<Rightarrow> nat \<Rightarrow> measurement \<Rightarrow> 'd CoalescingBenchmarkResult" where
  "MeasureCoalescingBehavior D bursts m =
     (let hits = me_backend_hits m;
          requests = me_total_requests m;
          expected_unique_hits = of_nat bursts;
          duplicates = (if expected_unique_hits < hits then hits - expected_unique_hits else 0);
          coalescing_hit_ratio =
            (if 0 < requests then bd_div D (bd_of_size D (requests - hits)) (bd_of_size D requests) else bd_zero D)
      in \<lparr>cb_duplicate_backend_hits = bd_of_size D duplicates, cb_coalescing_hit_ratio = coalescing_hit_ratio\<rparr>)"

section \<open>Invariant\<close>

text \<open>What a worker's place says about its thread in the coalescer.\<close>

fun place_ok :: "worker \<Rightarrow> caller \<Rightarrow> bool" where
  "place_ok Leading th = (\<exists>key f. th = Working key f)"
| "place_ok Returning th = (\<exists>key f. th = Working key f)"
| "place_ok Leaving th = (\<exists>key f. th = Erasing key f)"
| "place_ok (Getting f) th = (th = Outside (Some f))"
| "place_ok _ th = (\<exists>f. th = Outside f)"

definition counted :: "worker \<Rightarrow> nat" where
  "counted w = (if w \<in> {At_gate, Arrived, Counting} then 0 else 1)"

definition called :: "worker \<Rightarrow> nat" where
  "called w = (if w \<in> {At_gate, Arrived, Counting, Calling} then 0 else 1)"

definition hit_due :: "worker \<Rightarrow> nat" where
  "hit_due w = (if w = Leading then 1 else 0)"

definition places_ok :: "measurement \<Rightarrow> bool" where
  "places_ok m \<longleftrightarrow> flight_inv (me_coalescer m) \<and>
     (\<forall>i < length (me_workers m). place_ok (me_workers m ! i) (rc_threads (me_coalescer m) i)) \<and>
     (\<forall>i \<ge> length (me_workers m). \<exists>f. rc_threads (me_coalescer m) i = Outside f)"

text \<open>
  Through the coalescer every future stands for one hit, made or due; a burst in which somebody has
  called has at least one future, and there are never more futures than calls. Without the coalescer
  every call is a hit.
\<close>

definition hits_ok :: "bool \<Rightarrow> nat \<Rightarrow> measurement \<Rightarrow> bool" where
  "hits_ok enabled concurrency m \<longleftrightarrow>
     (let futures = length (rc_futures (me_coalescer m));
          calls = sum_list (map called (me_workers m));
          due = sum_list (map hit_due (me_workers m))
      in if enabled then
           me_backend_hits m = of_nat (futures - due) \<and> due \<le> futures \<and>
           me_burst m + min 1 calls \<le> futures \<and> futures \<le> me_burst m * concurrency + calls
         else me_coalescer m = new_coalescer \<and> me_backend_hits m = of_nat (me_burst m * concurrency + calls))"

definition measure_inv :: "bool \<Rightarrow> nat \<Rightarrow> nat \<Rightarrow> measurement \<Rightarrow> bool" where
  "measure_inv enabled bursts concurrency m \<longleftrightarrow> places_ok m \<and> hits_ok enabled concurrency m \<and> me_burst m \<le> bursts \<and>
     length (me_workers m) = (if me_burst m < bursts then concurrency else 0) \<and>
     me_total_requests m = of_nat (me_burst m * concurrency + sum_list (map counted (me_workers m)))"

lemma places_okD:
  assumes "places_ok m"
  shows "flight_inv (me_coalescer m)"
    and "i < length (me_workers m) \<Longrightarrow> place_ok (me_workers m ! i) (rc_threads (me_coalescer m) i)"
    and "leads (rc_threads (me_coalescer m) t) = Some (key, f) \<Longrightarrow> t < length (me_workers m)"
  using assms unfolding places_ok_def by (simp_all, metis leads.simps(3) not_le option.distinct(1))

lemma places_ok_move:
  assumes "places_ok m" "me_workers m' = (me_workers m)[i := w]" "i < length (me_workers m)"
    and "flight_inv (me_coalescer m')" "place_ok w (rc_threads (me_coalescer m') i)"
    and "\<And>j. j \<noteq> i \<Longrightarrow> rc_threads (me_coalescer m') j = rc_threads (me_coalescer m) j"
  shows "places_ok m'"
  using assms unfolding places_ok_def by (auto simp: nth_list_update)

lemma execute_threads:
  "j \<noteq> i \<Longrightarrow> rc_threads (execute_enter i key c) j = rc_threads c j"
  "j \<noteq> i \<Longrightarrow> rc_threads (execute_complete i r c) j = rc_threads c j"
  "j \<noteq> i \<Longrightarrow> rc_threads (execute_leave i c) j = rc_threads c j"
  by (auto simp: execute_enter_def execute_complete_def execute_leave_def Let_def split: option.splits caller.splits)

lemma enter_cases:
  obtains (joined) f where "map_of (rc_inflight c) key = Some f" "rc_futures (execute_enter i key c) = rc_futures c"
      "rc_threads (execute_enter i key c) i = Outside (Some f)"
  | (led) "map_of (rc_inflight c) key = None" "rc_futures (execute_enter i key c) = rc_futures c @ [None]"
      "rc_threads (execute_enter i key c) i = Working key (length (rc_futures c))"
  by (cases "map_of (rc_inflight c) key") (auto simp: execute_enter_def Let_def)

lemma complete_leave_effect:
  assumes "flight_inv c"
  shows "rc_threads c i = Working key f \<Longrightarrow> rc_threads (execute_complete i r c) i = Erasing key f"
    "rc_threads c i = Erasing key f \<Longrightarrow> rc_threads (execute_leave i c) i = Outside (Some f)"
    "length (rc_futures (execute_complete i r c)) = length (rc_futures c)"
    "rc_futures (execute_leave i c) = rc_futures c"
  using flight_invD(8) [OF assms]
  by (auto simp: execute_complete_def execute_leave_def split: caller.splits)

lemma places_ok_step:
  assumes inv: "places_ok m" and i: "i < length (me_workers m)" and step: "worker_step enabled i m = Some m'"
  shows "places_ok m'"
proof -
  note flight = places_okD(1) [OF inv] and place = places_okD(2) [OF inv i]
  note effect = complete_leave_effect [OF flight]
  show ?thesis
  proof (cases "me_workers m ! i")
    case Calling
    obtain f where out: "rc_threads (me_coalescer m) i = Outside f" using place Calling by auto
    let ?c = "execute_enter i (burst_key (me_burst m)) (me_coalescer m)"
    have "flight_inv ?c" by (rule flight_inv_step [OF coalescer_step.enter [OF out] flight])
    moreover have "place_ok (got_future (rc_threads ?c i)) (rc_threads ?c i)"
      by (cases rule: enter_cases [of "me_coalescer m" "burst_key (me_burst m)" i]) auto
    ultimately show ?thesis
      using step Calling flight out
      by (intro places_ok_move [OF inv _ i, where w = "if enabled then got_future (rc_threads ?c i) else Finished"])
        (auto simp: worker_step_def move_worker_def Let_def execute_threads split: if_splits)
  next
    case Returning
    then obtain key f where th: "rc_threads (me_coalescer m) i = Working key f" using place by auto
    show ?thesis
      by (rule places_ok_move [OF inv _ i, where w = Leaving])
        (use step Returning th flight_inv_complete [OF flight th] effect(1) [OF th] in
          \<open>auto simp: worker_step_def move_worker_def execute_threads\<close>)
  next
    case Leaving
    then obtain key f where th: "rc_threads (me_coalescer m) i = Erasing key f" using place by auto
    show ?thesis
      by (rule places_ok_move [OF inv _ i, where w = "Getting f"])
        (use step Leaving th flight_inv_leave [OF flight th] effect(2) [OF th] in
          \<open>auto simp: worker_step_def move_worker_def Let_def execute_threads\<close>)
  qed (use step place flight in \<open>auto simp: worker_step_def move_worker_def split: if_splits intro!: places_ok_move [OF inv _ i]\<close>)
qed

lemma quiet_burst_has_no_flight:
  assumes inv: "places_ok m" and quiet: "sum_list (map called (me_workers m)) = 0"
  shows "map_of (rc_inflight (me_coalescer m)) key = None"
proof (rule ccontr)
  assume "map_of (rc_inflight (me_coalescer m)) key \<noteq> None"
  then obtain t f where lead: "leads (rc_threads (me_coalescer m) t) = Some (key, f)"
    using flight_invD(3) [OF places_okD(1) [OF inv]] by blast
  have t: "t < length (me_workers m)" by (rule places_okD(3) [OF inv lead])
  have "called (me_workers m ! t) = 0" using quiet t by simp
  then show False using places_okD(2) [OF inv t] lead by (auto simp: called_def split: if_splits)
qed

text \<open>The sums of a step that moves the worker \<open>i\<close> to the place \<open>w\<close>, by what the step changes.\<close>

lemma hits_ok_move:
  assumes hits: "hits_ok enabled concurrency m" and i: "i < length (me_workers m)"
    and m': "me_workers m' = (me_workers m)[i := w]" "me_burst m' = me_burst m"
    and same: "\<not> enabled \<Longrightarrow> me_coalescer m' = me_coalescer m"
      "\<not> enabled \<Longrightarrow> me_backend_hits m' + of_nat (called (me_workers m ! i)) = me_backend_hits m + of_nat (called w)"
    and new: "enabled \<Longrightarrow> length (rc_futures (me_coalescer m')) = length (rc_futures (me_coalescer m)) + led"
      "enabled \<Longrightarrow> me_backend_hits m' = me_backend_hits m + of_nat made"
      "enabled \<Longrightarrow> hit_due (me_workers m ! i) + led = hit_due w + made"
      "enabled \<Longrightarrow> called (me_workers m ! i) \<le> called w"
      "enabled \<Longrightarrow> led + called (me_workers m ! i) \<le> called w"
      "enabled \<Longrightarrow> called w \<le> 1 \<and> (called (me_workers m ! i) < called w \<and> led = 0 \<longrightarrow> 0 < sum_list (map called (me_workers m)))"
  shows "hits_ok enabled concurrency m'"
proof -
  define calls calls' due due' where defs: "calls = sum_list (map called (me_workers m))"
    "calls' = sum_list (map called (me_workers m'))" "due = sum_list (map hit_due (me_workers m))"
    "due' = sum_list (map hit_due (me_workers m'))"
  define F where "F = length (rc_futures (me_coalescer m))"
  have sums: "calls' + called (me_workers m ! i) = calls + called w" "due' + hit_due (me_workers m ! i) = due + hit_due w"
    unfolding defs m'(1) by (rule sum_list_replaced_nat [OF i])+
  show ?thesis
  proof (cases enabled)
    case True
    have old: "me_backend_hits m = of_nat (F - due)" "due \<le> F" "me_burst m + min 1 calls \<le> F"
      "F \<le> me_burst m * concurrency + calls"
      using hits True by (simp_all add: hits_ok_def Let_def defs F_def)
    have F': "length (rc_futures (me_coalescer m')) = F + led" using new(1) True by (simp add: F_def)
    have dues: "due' \<le> F + led" "F + led - due' = (F - due) + made"
      using old(2) sums(2) new(3) [OF True] by linarith+
    have "me_backend_hits m' = of_nat (F + led - due')"
      unfolding dues(2) new(2) [OF True] old(1) by simp
    moreover have "me_burst m + min 1 calls' \<le> F + led"
      using old(3) sums(1) new(4-6) [OF True] unfolding defs(1) [symmetric] by (cases "calls = 0") auto
    moreover have "F + led \<le> me_burst m * concurrency + calls'" using old(4) sums(1) new(5) [OF True] by linarith
    ultimately show ?thesis using True dues(1) F' by (simp add: hits_ok_def Let_def m'(2) defs(2,4) [symmetric])
  next
    case False
    have old: "me_coalescer m = new_coalescer" "me_backend_hits m = of_nat (me_burst m * concurrency + calls)"
      using hits False by (simp_all add: hits_ok_def Let_def defs)
    have "me_backend_hits m' + of_nat (called (me_workers m ! i)) =
      of_nat (me_burst m * concurrency + (calls' + called (me_workers m ! i)))"
      unfolding sums(1) same(2) [OF False] old(2) by simp
    then have "me_backend_hits m' = of_nat (me_burst m * concurrency + calls')" by simp
    then show ?thesis using False same(1) old(1) by (simp add: hits_ok_def Let_def m'(2) defs(2) [symmetric])
  qed
qed

lemmas place_simps = worker_step_def move_worker_def Let_def called_def hit_due_def counted_def

lemma hits_ok_step:
  assumes inv: "places_ok m" and hits: "hits_ok enabled concurrency m"
    and i: "i < length (me_workers m)" and step: "worker_step enabled i m = Some m'"
  shows "hits_ok enabled concurrency m'"
proof -
  note place = places_okD(2) [OF inv i] and effect = complete_leave_effect [OF places_okD(1) [OF inv]]
  note move = hits_ok_move [OF hits i]
  have off: "\<not> enabled \<Longrightarrow> rc_threads (me_coalescer m) i = Outside None"
    using hits by (simp add: hits_ok_def new_coalescer_def)
  show ?thesis
  proof (cases "me_workers m ! i")
    case Calling
    show ?thesis
    proof (cases enabled)
      case on: True
      show ?thesis
      proof (cases rule: enter_cases [of "me_coalescer m" "burst_key (me_burst m)" i])
        case (joined f)
        then have "0 < sum_list (map called (me_workers m))" using quiet_burst_has_no_flight [OF inv] by force
        then show ?thesis
          by (intro move [where w = "Getting f" and led = 0 and made = 0]) (use on step Calling joined in \<open>auto simp: place_simps\<close>)
      next
        case led
        then show ?thesis
          by (intro move [where w = Leading and led = 1 and made = 0]) (use on step Calling in \<open>auto simp: place_simps\<close>)
      qed
    next
      case False
      then show ?thesis
        by (intro move [where w = Finished and led = 0 and made = 0]) (use step Calling in \<open>auto simp: place_simps\<close>)
    qed
  next
    case Leading
    then show ?thesis
      by (intro move [where w = Returning and led = 0 and made = 1]) (use step place off in \<open>auto simp: place_simps\<close>)
  next
    case Returning
    then show ?thesis
      by (intro move [where w = Leaving and led = 0 and made = 0]) (use step place off effect(3) in \<open>auto simp: place_simps\<close>)
  next
    case Leaving
    then obtain key f where th: "rc_threads (me_coalescer m) i = Erasing key f" using place by auto
    with Leaving show ?thesis
      by (intro move [where w = "Getting f" and led = 0 and made = 0])
        (use step off effect(2) [OF th] effect(4) in \<open>auto simp: place_simps\<close>)
  qed (use step in \<open>auto simp: place_simps split: if_splits intro!: move [where led = 0 and made = 0]\<close>)
qed

text \<open>The steps a worker still has before it, at most; every step of a worker lowers it by one or more.\<close>

fun rank :: "worker \<Rightarrow> nat" where
  "rank At_gate = 8" | "rank Arrived = 7" | "rank Counting = 6" | "rank Calling = 5" | "rank Leading = 4"
| "rank Returning = 3" | "rank Leaving = 2" | "rank (Getting f) = 1" | "rank Finished = 0"

lemma worker_step_frame:
  assumes inv: "places_ok m" and i: "i < length (me_workers m)" and step: "worker_step enabled i m = Some m'"
  shows "\<exists>w. me_workers m' = (me_workers m)[i := w] \<and> rank w < rank (me_workers m ! i) \<and> me_burst m' = me_burst m \<and>
    me_total_requests m' + of_nat (counted (me_workers m ! i)) = me_total_requests m + of_nat (counted w)"
proof (rule exI [of _ "me_workers m' ! i"], cases "me_workers m ! i")
  case Calling
  have "rank (got_future (rc_threads (execute_enter i key c) i)) < 5"
    "counted (got_future (rc_threads (execute_enter i key c) i)) = 1" for key c
    by (cases rule: enter_cases [of c key i]; simp add: counted_def)+
  moreover have "counted Calling = 1" "counted Finished = 1" by (simp_all add: counted_def)
  ultimately show "me_workers m' = (me_workers m)[i := me_workers m' ! i] \<and> rank (me_workers m' ! i) < rank (me_workers m ! i) \<and>
    me_burst m' = me_burst m \<and>
    me_total_requests m' + of_nat (counted (me_workers m ! i)) = me_total_requests m + of_nat (counted (me_workers m' ! i))"
    using step i Calling by (auto simp: worker_step_def move_worker_def Let_def split: if_splits)
next
  case Leaving
  then obtain key f where th: "rc_threads (me_coalescer m) i = Erasing key f" using places_okD(2) [OF inv i] by auto
  show "me_workers m' = (me_workers m)[i := me_workers m' ! i] \<and> rank (me_workers m' ! i) < rank (me_workers m ! i) \<and>
    me_burst m' = me_burst m \<and>
    me_total_requests m' + of_nat (counted (me_workers m ! i)) = me_total_requests m + of_nat (counted (me_workers m' ! i))"
    using step i Leaving complete_leave_effect(2) [OF places_okD(1) [OF inv] th]
    by (auto simp: worker_step_def move_worker_def Let_def counted_def)
qed (use step i in \<open>auto simp: worker_step_def move_worker_def Let_def counted_def split: if_splits\<close>)

lemma measure_inv_new: "measure_inv enabled bursts concurrency (new_measurement bursts concurrency)"
  using flight_inv_new
  by (auto simp: measure_inv_def places_ok_def hits_ok_def new_measurement_def burst_workers_def new_coalescer_def
      called_def counted_def hit_due_def sum_list_replicate)

lemma finished_burst:
  assumes "list_all (\<lambda>w. w = Finished) ws"
  shows "sum_list (map called ws) = length ws" "sum_list (map counted ws) = length ws"
    "sum_list (map hit_due ws) = 0" "sum_list (map rank ws) = 0"
  using assms by (induction ws) (auto simp: called_def counted_def hit_due_def)

lemma measure_inv_join:
  assumes inv: "measure_inv enabled bursts concurrency m" and conc: "0 < concurrency"
    and more: "me_burst m < bursts" and fin: "list_all (\<lambda>w. w = Finished) (me_workers m)"
  shows "measure_inv enabled bursts concurrency (next_burst bursts concurrency m)"
proof -
  have len: "length (me_workers m) = concurrency" using inv more by (simp add: measure_inv_def)
  have out: "\<exists>f. rc_threads (me_coalescer m) i = Outside f" for i
    using inv fin by (cases "i < length (me_workers m)") (force simp: measure_inv_def places_ok_def list_all_length)+
  have start: "sum_list (map g (burst_workers bursts concurrency b)) = 0" if "g At_gate = 0" for g :: "worker \<Rightarrow> nat" and b
    using that by (simp add: burst_workers_def sum_list_replicate)
  have "places_ok (next_burst bursts concurrency m)"
    using inv out by (auto simp: measure_inv_def places_ok_def next_burst_def burst_workers_def)
  moreover have "hits_ok enabled concurrency (next_burst bursts concurrency m)"
    using inv conc unfolding measure_inv_def hits_ok_def next_burst_def finished_burst [OF fin] len
    by (auto simp: Let_def start called_def hit_due_def finished_burst [OF fin] len algebra_simps)
  ultimately show ?thesis
    using inv more unfolding measure_inv_def finished_burst [OF fin] len
    by (auto simp: next_burst_def start counted_def burst_workers_def sum_list_replicate algebra_simps)
qed

lemma measure_inv_step:
  assumes inv: "measure_inv enabled bursts concurrency m" and conc: "0 < concurrency"
    and step: "measure_step enabled bursts concurrency m m'"
  shows "measure_inv enabled bursts concurrency m'"
  using step
proof cases
  case (work i)
  have places: "places_ok m" and hits: "hits_ok enabled concurrency m" using inv by (simp_all add: measure_inv_def)
  from worker_step_frame [OF places work] obtain w where w: "me_workers m' = (me_workers m)[i := w]"
    "me_burst m' = me_burst m"
    "me_total_requests m' + of_nat (counted (me_workers m ! i)) = me_total_requests m + of_nat (counted w)" by blast
  have "sum_list (map counted (me_workers m')) + counted (me_workers m ! i) = sum_list (map counted (me_workers m)) + counted w"
    unfolding w(1) by (rule sum_list_replaced_nat [OF work(1)])
  then have "me_total_requests m' + of_nat (counted (me_workers m ! i)) =
    of_nat (me_burst m * concurrency + sum_list (map counted (me_workers m'))) + of_nat (counted (me_workers m ! i))"
    unfolding w(3) using inv by (simp add: measure_inv_def add.assoc flip: of_nat_add)
  then have "me_total_requests m' = of_nat (me_burst m * concurrency + sum_list (map counted (me_workers m')))"
    by (rule add_right_imp_eq)
  then show ?thesis
    using inv w(1,2) places_ok_step [OF places work] hits_ok_step [OF places hits work] unfolding measure_inv_def
    by simp
qed (use measure_inv_join [OF inv conc] in auto)

lemma measure_reachable_inv:
  assumes "measure_reachable enabled bursts concurrency m" "0 < concurrency"
  shows "measure_inv enabled bursts concurrency m"
  using assms by (induction rule: measure_reachable.induct) (auto intro: measure_inv_new measure_inv_step)

section \<open>The measurement ends\<close>

definition measure_work :: "nat \<Rightarrow> nat \<Rightarrow> measurement \<Rightarrow> nat" where
  "measure_work bursts concurrency m =
     (bursts - me_burst m) * (8 * concurrency + 1) + sum_list (map rank (me_workers m))"

lemma measure_work_decreases:
  assumes inv: "measure_inv enabled bursts concurrency m" and step: "measure_step enabled bursts concurrency m m'"
  shows "measure_work bursts concurrency m' < measure_work bursts concurrency m"
  using step
proof cases
  case (work i)
  have "places_ok m" using inv by (simp add: measure_inv_def)
  from worker_step_frame [OF this work] obtain w where w: "me_workers m' = (me_workers m)[i := w]"
    "rank w < rank (me_workers m ! i)" "me_burst m' = me_burst m" by blast
  then show ?thesis
    using sum_list_replaced_nat [OF work(1), of rank w] by (simp add: measure_work_def)
next
  case join
  define K where "K = (bursts - (me_burst m + 1)) * (8 * concurrency + 1)"
  have "bursts - me_burst m = Suc (bursts - (me_burst m + 1))" using join(2) by simp
  then have "measure_work bursts concurrency m = 8 * concurrency + 1 + K"
    unfolding measure_work_def finished_burst(4) [OF join(3)] K_def by simp
  moreover have "measure_work bursts concurrency m' \<le> K + 8 * concurrency"
    unfolding join(1) by (simp add: measure_work_def K_def next_burst_def burst_workers_def sum_list_replicate)
  ultimately show ?thesis by simp
qed

lemma waiting_worker_is_served:
  assumes inv: "places_ok m" and i: "i < length (me_workers m)" and get: "me_workers m ! i = Getting f"
    and wait: "rc_futures (me_coalescer m) ! f = None"
  shows "\<exists>j m'. j < length (me_workers m) \<and> worker_step enabled j m = Some m'"
proof -
  note flight = places_okD(1) [OF inv]
  have "rc_threads (me_coalescer m) i = Outside (Some f)" using places_okD(2) [OF inv i] get by simp
  then obtain t key where t: "rc_threads (me_coalescer m) t = Working key f"
    using flight_invD(7,9) [OF flight] wait by blast
  then have len: "t < length (me_workers m)" using places_okD(3) [OF inv, of t key f] by simp
  have "me_workers m ! t = Leading \<or> me_workers m ! t = Returning"
    using places_okD(2) [OF inv len] t by (cases "me_workers m ! t") auto
  then show ?thesis using len by (auto simp: worker_step_def)
qed

lemma measure_progress:
  assumes inv: "measure_inv enabled bursts concurrency m" and more: "me_burst m < bursts"
  shows "\<exists>m'. measure_step enabled bursts concurrency m m'"
proof (cases "list_all (\<lambda>w. w = Finished) (me_workers m)")
  case True
  then show ?thesis using more by (blast intro: measure_step.join)
next
  case False
  then obtain i where i: "i < length (me_workers m)" "me_workers m ! i \<noteq> Finished" by (auto simp: list_all_length)
  have places: "places_ok m" using inv by (simp add: measure_inv_def)
  have "\<exists>j m'. j < length (me_workers m) \<and> worker_step enabled j m = Some m'"
  proof (cases "worker_step enabled i m")
    case None
    then consider "At_gate \<in> set (me_workers m)"
      | f where "me_workers m ! i = Getting f" "rc_futures (me_coalescer m) ! f = None"
      using i(2) by (auto simp: worker_step_def Let_def split: worker.splits if_splits)
    then show ?thesis
    proof cases
      case 1
      then obtain j where "j < length (me_workers m)" "me_workers m ! j = At_gate" by (auto simp: in_set_conv_nth)
      then show ?thesis by (auto simp: worker_step_def)
    next
      case 2
      then show ?thesis using waiting_worker_is_served [OF places i(1)] by blast
    qed
  qed (use i in blast)
  then show ?thesis by (blast intro: measure_step.work)
qed

section \<open>Properties\<close>

text \<open>
  C38: What the coalescing measurement reports. However the threads of the bursts interleave, the
  backend was asked at least once per burst and at most once per request, without the coalescer
  exactly once per request. The reported duplicates are the hits beyond one per burst and the
  reported ratio is the share of requests that were no hit; neither subtraction wraps around.
\<close>

theorem coalescing_measurement_is_sound:
  assumes "measure_reachable enabled bursts concurrency m" "measured bursts m"
    and "0 < concurrency" "0 < bursts" "bursts * concurrency < 2 ^ 64"
  shows "\<exists>hits. bursts \<le> hits \<and> hits \<le> bursts * concurrency \<and> (enabled \<or> hits = bursts * concurrency) \<and>
    MeasureCoalescingBehavior D bursts m =
      \<lparr>cb_duplicate_backend_hits = bd_of_size D (of_nat (hits - bursts)),
       cb_coalescing_hit_ratio = bd_div D (bd_of_size D (of_nat (bursts * concurrency - hits)))
         (bd_of_size D (of_nat (bursts * concurrency)))\<rparr>"
proof -
  have inv: "measure_inv enabled bursts concurrency m" by (rule measure_reachable_inv [OF assms(1,3)])
  then have none: "me_workers m = []" and burst: "me_burst m = bursts"
    using assms(2) by (simp_all add: measure_inv_def measured_def)
  define hits where "hits = (if enabled then length (rc_futures (me_coalescer m)) else bursts * concurrency)"
  define requests where "requests = bursts * concurrency"
  have requests: "me_total_requests m = of_nat requests" using inv none burst by (simp add: measure_inv_def requests_def)
  have "1 * bursts \<le> concurrency * bursts" by (rule mult_le_mono1) (use assms(3) in simp)
  then have hits: "me_backend_hits m = of_nat hits" "bursts \<le> hits" "hits \<le> requests"
    using inv none burst by (auto simp: measure_inv_def hits_ok_def Let_def hits_def requests_def mult.commute split: if_splits)
  have small: "unat (of_nat n :: size_t) = n" if "n \<le> requests" for n
    using that assms(5) by (simp add: unat_of_nat take_bit_nat_eq_self requests_def)
  have pos: "0 < requests" using hits assms(4) by simp
  have dup: "(if (of_nat bursts :: size_t) < of_nat hits then of_nat hits - of_nat bursts else 0) = (of_nat (hits - bursts) :: size_t)"
    using hits small [of bursts] small [of hits] by (auto simp: word_less_nat_alt of_nat_diff)
  have gap: "(of_nat requests - of_nat hits :: size_t) = of_nat (requests - hits)" using hits(3) by (simp add: of_nat_diff)
  have "0 < (of_nat requests :: size_t)" using pos small [of requests] by (simp add: word_less_nat_alt)
  then have "MeasureCoalescingBehavior D bursts m =
      \<lparr>cb_duplicate_backend_hits = bd_of_size D (of_nat (hits - bursts)),
       cb_coalescing_hit_ratio = bd_div D (bd_of_size D (of_nat (requests - hits))) (bd_of_size D (of_nat requests))\<rparr>"
    unfolding MeasureCoalescingBehavior_def Let_def hits(1) requests dup gap by (simp only: if_True)
  moreover have "enabled \<or> hits = requests" by (simp add: hits_def requests_def)
  ultimately show ?thesis using hits(2,3) unfolding requests_def by blast
qed

text \<open>
  C39: The coalescing measurement ends. Every step, of any thread, lowers a bound on the steps that are
  left, and until the last burst is joined some thread can take a step: nobody waits forever at the
  barrier or for a future, since a pending future belongs to a worker that is at work.
\<close>

theorem coalescing_measurement_ends:
  assumes "measure_reachable enabled bursts concurrency m" "0 < concurrency"
  shows "(\<forall>m'. measure_step enabled bursts concurrency m m' \<longrightarrow>
      measure_work bursts concurrency m' < measure_work bursts concurrency m) \<and>
    (measured bursts m \<or> (\<exists>m'. measure_step enabled bursts concurrency m m'))"
proof -
  have inv: "measure_inv enabled bursts concurrency m" by (rule measure_reachable_inv [OF assms])
  then have "measured bursts m \<or> me_burst m < bursts" by (auto simp: measure_inv_def measured_def)
  then show ?thesis using measure_work_decreases [OF inv] measure_progress [OF inv] by blast
qed

text \<open>Runs for the witnesses: a list of workers to move, and a number behind the last one for the main thread.\<close>

fun run_measurement :: "bool \<Rightarrow> nat \<Rightarrow> nat \<Rightarrow> nat list \<Rightarrow> measurement \<Rightarrow> measurement option" where
  "run_measurement enabled bursts concurrency [] m = Some m"
| "run_measurement enabled bursts concurrency (i # is) m =
     (if i < length (me_workers m) then
        (case worker_step enabled i m of None \<Rightarrow> None | Some m' \<Rightarrow> run_measurement enabled bursts concurrency is m')
      else if me_burst m < bursts \<and> list_all (\<lambda>w. w = Finished) (me_workers m) then
        run_measurement enabled bursts concurrency is (next_burst bursts concurrency m)
      else None)"

lemma run_measurement_reachable:
  "run_measurement enabled bursts concurrency is m = Some m' \<Longrightarrow> measure_reachable enabled bursts concurrency m \<Longrightarrow>
    measure_reachable enabled bursts concurrency m'"
proof (induction "is" arbitrary: m)
  case (Cons i "is")
  show ?case
  proof (cases "i < length (me_workers m)")
    case True
    then obtain m1 where "worker_step enabled i m = Some m1" "run_measurement enabled bursts concurrency is m1 = Some m'"
      using Cons.prems(1) by (auto split: option.splits)
    then show ?thesis using Cons.IH measure_reachable.step [OF Cons.prems(2) measure_step.work [OF True]] by blast
  next
    case False
    then have "me_burst m < bursts" "list_all (\<lambda>w. w = Finished) (me_workers m)"
      "run_measurement enabled bursts concurrency is (next_burst bursts concurrency m) = Some m'"
      using Cons.prems(1) by (auto split: if_splits)
    then show ?thesis using Cons.IH measure_reachable.step [OF Cons.prems(2) measure_step.join] by blast
  qed
qed simp

text \<open>One burst of two workers: the second joins the flight of the first.\<close>

definition joined_burst :: measurement where
  "joined_burst = the (run_measurement True 1 2 [0, 1, 0, 1, 0, 1, 0, 1, 0, 0, 0, 1, 0, 2] (new_measurement 1 2))"

text \<open>The second has joined and waits for the future.\<close>

definition waiting_burst :: measurement where
  "waiting_burst = the (run_measurement True 1 2 [0, 1, 0, 1, 0, 1, 0, 1] (new_measurement 1 2))"

lemma sample_bursts:
  "measure_reachable True 1 2 joined_burst" "measure_reachable True 1 2 waiting_burst"
proof -
  have "run_measurement True 1 2 [0, 1, 0, 1, 0, 1, 0, 1, 0, 0, 0, 1, 0, 2] (new_measurement 1 2) = Some joined_burst"
    unfolding joined_burst_def by (rule option.collapse [symmetric]) code_simp
  then show "measure_reachable True 1 2 joined_burst"
    by (rule run_measurement_reachable) (rule measure_reachable.start)
  have "run_measurement True 1 2 [0, 1, 0, 1, 0, 1, 0, 1] (new_measurement 1 2) = Some waiting_burst"
    unfolding waiting_burst_def by (rule option.collapse [symmetric]) code_simp
  then show "measure_reachable True 1 2 waiting_burst"
    by (rule run_measurement_reachable) (rule measure_reachable.start)
qed

theorem coalescing_measurement_is_sound_witness:
  "measured 1 joined_burst \<and> MeasureCoalescingBehavior whole_double 1 joined_burst =
     \<lparr>cb_duplicate_backend_hits = 0, cb_coalescing_hit_ratio = 0\<rparr> \<and>
   (\<exists>hits. 1 \<le> hits \<and> hits \<le> 2 \<and> MeasureCoalescingBehavior whole_double 1 joined_burst =
      \<lparr>cb_duplicate_backend_hits = bd_of_size whole_double (of_nat (hits - 1)),
       cb_coalescing_hit_ratio = bd_div whole_double (bd_of_size whole_double (of_nat (2 - hits)))
         (bd_of_size whole_double 2)\<rparr>)"
proof -
  have m: "measured 1 joined_burst" by code_simp
  have "MeasureCoalescingBehavior whole_double 1 joined_burst =
     \<lparr>cb_duplicate_backend_hits = 0, cb_coalescing_hit_ratio = 0\<rparr>" by code_simp
  with m coalescing_measurement_is_sound [OF sample_bursts(1) m, of whole_double] show ?thesis by auto
qed

theorem coalescing_measurement_ends_witness:
  "(\<exists>m'. measure_step True 1 2 waiting_burst m' \<and> measure_work 1 2 m' < measure_work 1 2 waiting_burst)"
proof -
  have "\<not> measured 1 waiting_burst" by code_simp
  with coalescing_measurement_ends [OF sample_bursts(2)] show ?thesis by auto
qed

end
