(* ===== verification/Bench_Main.thy ===== *)
theory Bench_Main
  imports Bench_Workload Bench_Coalescing
begin

text \<open>
  The benchmark program as a whole (\<open>main\<close> of \<open>bench/cache_bench.cpp\<close>): arguments, plan, workload,
  percentiles, the two coalescing measurements, and the report, up to the exit code and what is
  printed. The file system is a parameter: the contents of the scenario matrix, and whether the
  directories of the report can be created and the report can be opened.
\<close>

section \<open>The program\<close>

definition bench_usage :: "string \<Rightarrow> string" where
  "bench_usage name =
     ''Usage: '' @ name @ '' [--out path] [--ops N] [--keys N] [--read-ratio R]'' @ [CHR 0x0A]"

definition coalescing_bursts :: "size_t \<Rightarrow> size_t" where
  "coalescing_bursts ops = max 1 (min 20 (ops div 1000))"

definition coalescing_concurrency :: "'d Config \<Rightarrow> size_t" where
  "coalescing_concurrency config = max 2 (min 8 (cf_stripes config * 2))"

text \<open>A path is printed by \<open>std::quoted\<close>.\<close>

definition quoted_path :: "string \<Rightarrow> string" where
  "quoted_path path =
     CHR 0x22 # concat (map (\<lambda>c. if c = CHR 0x22 \<or> c = CHR 0x5C then [CHR 0x5C, c] else [c]) path) @ [CHR 0x22]"

record 'd bench_env =
  be_name :: string
  be_matrix :: "string option"
  be_timestamp :: string
  be_dirs :: bool
  be_opens :: bool
  be_show3 :: "'d \<Rightarrow> string"
  be_show2 :: "'d \<Rightarrow> string"

record bench_outcome =
  bo_code :: int
  bo_out :: string
  bo_err :: string
  bo_report :: "string option"

text \<open>\<open>Terminates\<close>: an exception that nobody catches. \<open>Undefined\<close>: no result of the measured part.\<close>

datatype bench_end = Terminates | Undefined | Exits (the_outcome: bench_outcome)

definition fails_with :: "string \<Rightarrow> string \<Rightarrow> bench_end" where
  "fails_with out err = Exits \<lparr>bo_code = 1, bo_out = out, bo_err = err @ [CHR 0x0A], bo_report = None\<rparr>"

definition write_report :: "'d bench_double \<Rightarrow> 'd bench_env \<Rightarrow> 'd Config \<Rightarrow> bench_plan \<Rightarrow> 'd bench_totals
    \<Rightarrow> 'd CoalescingBenchmarkResult \<Rightarrow> 'd CoalescingBenchmarkResult \<Rightarrow> bench_end" where
  "write_report D E config plan totals coalescing_off coalescing_on =
     (if \<not> be_dirs E then Terminates
      else if \<not> be_opens E then fails_with [] (''Failed to open output file: '' @ quoted_path (cf_out_path config))
      else Exits \<lparr>bo_code = 0,
        bo_out = ''Benchmark complete. ops/sec='' @ be_show2 E (tt_ops_per_sec totals) @ '' p99_ms='' @
          be_show2 E (tt_p99 totals) @ [CHR 0x0A],
        bo_err = [],
        bo_report = Some (bench_report (be_show3 E) totals (scenario_results D totals coalescing_off coalescing_on plan))\<rparr>)"

text \<open>
  \<open>m_off\<close> and \<open>m_on\<close> are the ends of the two coalescing measurements; \<open>ratio\<close> is the literal \<open>0.8\<close>.
\<close>

definition bench_main :: "'f long_double \<Rightarrow> 'd bench_double \<Rightarrow> 'd \<Rightarrow> 'd bench_world \<Rightarrow> 'd bench_env
    \<Rightarrow> measurement \<Rightarrow> measurement \<Rightarrow> string list \<Rightarrow> bench_end" where
  "bench_main F D ratio W E m_off m_on args =
     (case bench_args D (default_config ratio) args of
        Usage \<Rightarrow> Exits \<lparr>bo_code = 0, bo_out = bench_usage (be_name E), bo_err = [], bo_report = None\<rparr>
      | Unknown_argument arg \<Rightarrow> fails_with (bench_usage (be_name E)) (''Unknown argument: '' @ arg)
      | Uncaught_exception \<Rightarrow> Terminates
      | Arguments config \<Rightarrow>
          (case plan_benchmark F D config (be_matrix E) of
             Inl error \<Rightarrow> fails_with [] error
           | Inr plan \<Rightarrow>
               (case run_workload D W config (pl_ops plan) of
                  None \<Rightarrow> Undefined
                | Some wl \<Rightarrow>
                    (case bench_totals_of D W config (pl_ops plan) (be_timestamp E) wl of
                       None \<Rightarrow> Undefined
                     | Some totals \<Rightarrow>
                         let bursts = unat (coalescing_bursts (pl_ops plan)) in
                         write_report D E config plan totals (MeasureCoalescingBehavior D bursts m_off)
                           (MeasureCoalescingBehavior D bursts m_on)))))"

lemma coalescing_parameters:
  "1 \<le> unat (coalescing_bursts ops)" "unat (coalescing_bursts ops) \<le> 20"
  "2 \<le> unat (coalescing_concurrency config)" "unat (coalescing_concurrency config) \<le> 8"
proof -
  have "1 \<le> coalescing_bursts ops" "coalescing_bursts ops \<le> 20" by (simp_all add: coalescing_bursts_def)
  then show "1 \<le> unat (coalescing_bursts ops)" "unat (coalescing_bursts ops) \<le> 20"
    by (simp_all add: word_le_nat_alt)
  have "2 \<le> coalescing_concurrency config" "coalescing_concurrency config \<le> 8"
    by (simp_all add: coalescing_concurrency_def)
  then show "2 \<le> unat (coalescing_concurrency config)" "unat (coalescing_concurrency config) \<le> 8"
    by (simp_all add: word_le_nat_alt)
qed

section \<open>Properties\<close>


definition sample_args :: "string list" where
  "sample_args = [''--ops'', ''10'', ''--keys'', ''5'', ''--out'', ''o'']"

definition sample_env :: "int bench_env" where
  "sample_env = \<lparr>be_name = ''bench'', be_matrix = Some (json_text [] sample_json), be_timestamp = ''now'',
     be_dirs = True, be_opens = True, be_show3 = show_whole, be_show2 = show_whole\<rparr>"

lemma whole_percentiles: "percentiles_fit whole_double"
  by (auto simp: percentiles_fit_def whole_double_def)


text \<open>
  A run of the benchmark either succeeds (code 0, nothing on the error stream, and the report
  written unless only the usage was asked for) or fails with code 1, a message on the error stream and
  no report; there is no half-way result. (It may also end in an exception that nobody catches: a
  number that \<open>stoull\<close> or \<open>stod\<close> refuses, or a directory that cannot be created.)
\<close>

theorem failed_benchmark_writes_no_report:
  assumes "bench_main F D ratio W E m_off m_on args = Exits result"
  shows "bo_code result = 0 \<and> bo_err result = [] \<and>
      (bo_report result = None \<longleftrightarrow> bench_args D (default_config ratio) args = Usage) \<or>
    bo_code result = 1 \<and> bo_err result \<noteq> [] \<and> bo_report result = None"
  using assms
  by (auto simp: bench_main_def fails_with_def write_report_def Let_def
      split: arguments.splits sum.splits option.splits if_splits)

theorem failed_benchmark_writes_no_report_witness:
  "\<exists>result. bench_main whole_ld whole_double 1 sample_world sample_env joined_burst joined_burst [''--op''] = Exits result \<and>
    bo_code result = 1 \<and> bo_err result \<noteq> [] \<and> bo_report result = None"
proof -
  have "bench_main whole_ld whole_double 1 sample_world sample_env joined_burst joined_burst [''--op''] =
    Exits \<lparr>bo_code = 1, bo_out = bench_usage ''bench'', bo_err = ''Unknown argument: --op'' @ [CHR 0x0A], bo_report = None\<rparr>"
    by code_simp
  from this failed_benchmark_writes_no_report [OF this] show ?thesis by simp
qed

end
